(* ===== verification/Prelude.thy ===== *)
theory Prelude
  imports Main "HOL-Library.Word" "HOL-Library.Sublist" "HOL-Library.Multiset"
    "HOL-Library.Signed_Division"
begin

text \<open>
  Shared vocabulary of the development: the machine types of the C++ code, the result of a piece
  of C++ code (\<open>outcome\<close>: it returns, throws, or has undefined behaviour), counted loops over
  such results, \<open>std::vector::resize\<close>, and the generic invariant rule of the step relations.
\<close>

section \<open>Machine types\<close>

type_synonym byte = "8 word"
type_synonym bytes = "byte list"
type_synonym i32 = "32 word"
type_synonym u32 = "32 word"
type_synonym u64 = "64 word"

text \<open>
  \<open>int\<close> and \<open>int32_t\<close> are 32-bit words read with \<^const>\<open>sint\<close>; \<open>uint32_t\<close> is the same word
  read with \<^const>\<open>unat\<close> or \<^const>\<open>uint\<close>.
\<close>

definition int_min :: int where
  "int_min = - 2147483648"

definition int_max :: int where
  "int_max = 2147483647"

definition in_int :: "int \<Rightarrow> bool" where
  "in_int r \<longleftrightarrow> int_min \<le> r \<and> r \<le> int_max"

lemmas in_int_defs = in_int_def int_min_def int_max_def

lemma sint_in_int [simp, intro]: "in_int (sint (w :: i32))"
  using sint_greater_eq [of w] sint_less [of w] by (simp add: in_int_defs)

definition to_i32 :: "int \<Rightarrow> i32" where
  "to_i32 r = word_of_int r"

lemma sint_to_i32 [simp]: "in_int r \<Longrightarrow> sint (to_i32 r) = r"
  by (simp add: in_int_defs to_i32_def sint_sbintrunc' signed_take_bit_int_eq_self)

lemma to_i32_sint [simp]: "to_i32 (sint w) = w"
  by (simp add: to_i32_def)

lemma to_i32_0 [simp]: "to_i32 0 = 0"
  by (simp add: to_i32_def)

lemma in_int_0 [simp]: "in_int 0"
  by (simp add: in_int_defs)

lemma in_int_abs_le: "\<bar>x\<bar> \<le> int_max \<Longrightarrow> in_int x"
  by (auto simp: in_int_defs)


section \<open>Results of C++ code\<close>

text \<open>
  A C++ function returns, throws an exception (a \<open>std::exception\<close> with its \<open>what()\<close>, or anything
  else), or has undefined behaviour. Undefined behaviour is a result of its own: no \<open>catch\<close>
  sees it.
\<close>

datatype fault = Signed_overflow | Division_by_zero | Out_of_bounds | Use_after_free
  | Bad_delete | No_object

datatype exn = Std_exception string | Other_exception

datatype 'a outcome = Ret 'a | Throw exn | UB fault

fun obind :: "'a outcome \<Rightarrow> ('a \<Rightarrow> 'b outcome) \<Rightarrow> 'b outcome" where
  "obind (Ret x) f = f x"
| "obind (Throw e) f = Throw e"
| "obind (UB u) f = UB u"

lemma obind_Ret [simp]: "obind m Ret = m"
  by (cases m) auto

lemma obind_assoc: "obind (obind m f) g = obind m (\<lambda>x. obind (f x) g)"
  by (cases m) auto

lemma obind_eq_Ret: "obind m f = Ret y \<longleftrightarrow> (\<exists>x. m = Ret x \<and> f x = Ret y)"
  by (cases m) auto

lemma obind_cong [fundef_cong]:
  "m = m' \<Longrightarrow> (\<And>x. m' = Ret x \<Longrightarrow> f x = f' x) \<Longrightarrow> obind m f = obind m' f'"
  by (cases m') auto

text \<open>A counted loop \<open>for (i = 0; i < n; ++i) s = f(i, s);\<close> over such results.\<close>

fun for_loop :: "('i \<Rightarrow> 's \<Rightarrow> 's outcome) \<Rightarrow> 'i list \<Rightarrow> 's \<Rightarrow> 's outcome" where
  "for_loop f [] s = Ret s"
| "for_loop f (i # is) s = obind (f i s) (for_loop f is)"

lemma for_loop_Nil [simp]: "for_loop f [] = Ret"
  by (simp add: fun_eq_iff)

lemma for_loop_append:
  "for_loop f (is @ js) s = obind (for_loop f is s) (for_loop f js)"
proof (induction "is" arbitrary: s)
  case Nil
  show ?case by simp
next
  case (Cons i "is")
  then show ?case by (cases "f i s") auto
qed

lemma for_loop_single [simp]: "for_loop f [i] = f i"
  by (simp add: fun_eq_iff)

lemma for_loop_upt_Suc:
  "for_loop f [0..<Suc n] s = obind (for_loop f [0..<n] s) (f n)"
  by (simp add: for_loop_append)

text \<open>
  The loop rule of the development: where \<open>st m\<close> is the state before round \<open>m\<close> and \<open>P m\<close> says
  that round \<open>m\<close> is free of faults, the loop ends in \<open>st n\<close> exactly if every round is; otherwise
  it stops with the fault of the first bad round.
\<close>

lemma for_loop_guarded:
  assumes "\<And>m. m < n \<Longrightarrow> \<forall>m'<m. P m' \<Longrightarrow> f m (st m) = (if P m then Ret (st (Suc m)) else UB u)"
  shows "for_loop f [0..<n] (st 0) = (if \<forall>m<n. P m then Ret (st n) else UB u)"
  using assms
proof (induction n)
  case 0
  then show ?case by simp
next
  case (Suc n)
  then have IH: "for_loop f [0..<n] (st 0) = (if \<forall>m<n. P m then Ret (st n) else UB u)"
    by simp
  show ?case
  proof (cases "\<forall>m<n. P m")
    case True
    then have "f n (st n) = (if P n then Ret (st (Suc n)) else UB u)"
      using Suc.prems [of n] by simp
    with True show ?thesis
      unfolding for_loop_upt_Suc IH by (auto simp: less_Suc_eq)
  next
    case False
    then show ?thesis
      unfolding for_loop_upt_Suc IH by (auto simp: less_Suc_eq)
  qed
qed

lemma for_loop_stuck:
  assumes "for_loop f [0..<n] s = Ret t" and "m < n"
  shows "\<exists>s' t'. f m s' = Ret t'"
  using assms
proof (induction n arbitrary: t)
  case 0
  then show ?case by simp
next
  case (Suc n)
  then show ?case
    by (cases "m = n") (auto simp: for_loop_upt_Suc obind_eq_Ret simp del: upt_Suc)
qed


text \<open>Code that also changes a state: what it did to the state stays when it throws.\<close>

type_synonym ('w, 'a) op = "'w \<Rightarrow> 'a outcome \<times> 'w"

definition sbind :: "('w, 'a) op \<Rightarrow> ('a \<Rightarrow> ('w, 'b) op) \<Rightarrow> ('w, 'b) op" where
  "sbind m k w = (case m w of
       (Ret x, w') \<Rightarrow> k x w'
     | (Throw e, w') \<Rightarrow> (Throw e, w')
     | (UB u, w') \<Rightarrow> (UB u, w'))"

lemma sbind_simps [simp]:
  "m w = (Ret x, w') \<Longrightarrow> sbind m k w = k x w'"
  "m w = (Throw e, w') \<Longrightarrow> sbind m k w = (Throw e, w')"
  "m w = (UB u, w') \<Longrightarrow> sbind m k w = (UB u, w')"
  by (simp_all add: sbind_def)


text \<open>What a program prints to \<open>std::cout\<close> and \<open>std::cerr\<close>, line by line.\<close>

datatype console = Out string | Err string


section \<open>Vectors\<close>

text \<open>\<open>std::vector::resize\<close>: keep the first \<open>n\<close> elements, pad with value-initialised ones.\<close>

definition resize :: "nat \<Rightarrow> 'a::zero list \<Rightarrow> 'a list" where
  "resize n xs = take n xs @ replicate (n - length xs) 0"

lemma length_resize [simp]: "length (resize n xs) = n"
  by (auto simp: resize_def)

text \<open>\<open>operator[]\<close> of a vector: out of range it is undefined behaviour.\<close>

definition vec_at :: "'a list \<Rightarrow> nat \<Rightarrow> 'a outcome" where
  "vec_at xs i = (if i < length xs then Ret (xs ! i) else UB Out_of_bounds)"

lemma vec_at_in [simp]: "i < length xs \<Longrightarrow> vec_at xs i = Ret (xs ! i)"
  by (simp add: vec_at_def)


section \<open>Invariants of step relations\<close>

text \<open>
  The interface every step relation of the development meets: a set of initial states, a step
  relation and an inductive invariant. What it gives is that the invariant holds in every
  reachable state, and that a quantity every step moves up a preorder is monotone along runs.
\<close>

locale invariant_system =
  fixes init :: "'s \<Rightarrow> bool"
    and step :: "'s \<Rightarrow> 's \<Rightarrow> bool"
    and inv :: "'s \<Rightarrow> bool"
  assumes inv_init: "init s \<Longrightarrow> inv s"
    and inv_step: "inv s \<Longrightarrow> step s t \<Longrightarrow> inv t"
begin

lemma inv_run: "step\<^sup>*\<^sup>* s t \<Longrightarrow> inv s \<Longrightarrow> inv t"
  by (induction rule: rtranclp_induct) (auto intro: inv_step)

lemma inv_reachable: "init s \<Longrightarrow> step\<^sup>*\<^sup>* s t \<Longrightarrow> inv t"
  by (blast intro: inv_run inv_init)

end

text \<open>A system that refines an abstract one: each of its steps is a step of the abstract system or
  none at all.\<close>

locale refinement = invariant_system +
  fixes abs :: "'s \<Rightarrow> 'a"
    and start :: 'a
    and abstract_step :: "'a \<Rightarrow> 'a \<Rightarrow> bool"
  assumes abs_init: "init s \<Longrightarrow> abs s = start"
    and abs_step: "inv s \<Longrightarrow> step s t \<Longrightarrow> abs t = abs s \<or> abstract_step (abs s) (abs t)"
begin

lemma abs_run:
  assumes "step\<^sup>*\<^sup>* s t" "inv s"
  shows "abstract_step\<^sup>*\<^sup>* (abs s) (abs t)"
  using assms
proof (induction rule: rtranclp_induct)
  case (step t u)
  from abs_step [OF inv_run [OF step.hyps(1) step.prems] step.hyps(2)] step.IH [OF step.prems]
  show ?case by (auto intro: rtranclp.rtrancl_into_rtrancl)
qed simp

lemma abs_reachable: "init s \<Longrightarrow> step\<^sup>*\<^sup>* s t \<Longrightarrow> abstract_step\<^sup>*\<^sup>* start (abs t)"
  using abs_run inv_init abs_init by metis

end

lemma rtranclp_head: "r s t \<Longrightarrow> r\<^sup>*\<^sup>* t u \<Longrightarrow> r\<^sup>*\<^sup>* s u"
  by (rule converse_rtranclp_into_rtranclp)

end
