(* ===== verification/Framing.thy ===== *)
theory Framing
  imports Prelude
begin

unbundle bit_operations_syntax

text \<open>
  Message framing of \<open>rpc/src/session.cpp\<close>: \<open>[4-byte length (big-endian)][message body]\<close>. The header
  is written by \<open>session::do_write\<close> and read back by \<open>session::do_read_header\<close>. The interface
  \<open>framing\<close> states what makes a byte stream of frames unambiguous; \<open>decode_stream\<close> is the
  reference reading of such a stream.
\<close>

section \<open>Header bytes\<close>

definition length_header :: "u32 \<Rightarrow> bytes" where
  "length_header body_length =
     [ucast (drop_bit 24 body_length AND 0xFF), ucast (drop_bit 16 body_length AND 0xFF),
      ucast (drop_bit 8 body_length AND 0xFF), ucast (body_length AND 0xFF)]"

definition header_value :: "bytes \<Rightarrow> u32" where
  "header_value b =
     (push_bit 24 (ucast (b ! 0)) OR push_bit 16 (ucast (b ! 1)) OR
      push_bit 8 (ucast (b ! 2)) OR ucast (b ! 3))"

text \<open>The check of \<open>do_read_header\<close>: not empty, at most 10 MB.\<close>

definition max_body :: nat where
  "max_body = 10 * 1024 * 1024"

definition length_ok :: "u32 \<Rightarrow> bool" where
  "length_ok body_length \<longleftrightarrow> 0 < body_length \<and> body_length \<le> 10 * 1024 * 1024"

definition frame :: "bytes \<Rightarrow> bytes" where
  "frame data = length_header (of_nat (length data)) @ data"

lemma length_length_header [simp]: "length (length_header n) = 4"
  by (simp add: length_header_def)

lemma length_header_nonempty [simp]: "length_header n \<noteq> []"
  by (simp add: length_header_def)

lemma header_value_append [simp]: "length b = 4 \<Longrightarrow> header_value (b @ r) = header_value b"
  by (simp add: header_value_def nth_append)

lemma ucast_low_byte: "(ucast (w AND 0xFF) :: byte) = ucast (w :: u32)"
proof -
  have mask: "(0xFF :: u32) = mask 8" by (simp add: mask_eq_exp_minus_1)
  show ?thesis unfolding mask by (auto intro!: bit_word_eqI simp: bit_simps)
qed

lemma byte_bit_high [simp]: "8 \<le> n \<Longrightarrow> \<not> bit (b :: byte) n"
  using bit_imp_le_length [of b n] by auto

lemma header_value_length_header [simp]: "header_value (length_header n) = n"
proof (rule bit_word_eqI)
  fix i :: nat assume "i < LENGTH(32)"
  then consider "24 \<le> i" "i < 32" | "16 \<le> i" "i < 24" | "8 \<le> i" "i < 16" | "i < 8"
    by fastforce
  then show "bit (header_value (length_header n)) i = bit n i"
    by cases (auto simp: header_value_def length_header_def ucast_low_byte bit_simps)
qed

lemma length_header_header_value:
  assumes "length b = 4"
  shows "length_header (header_value b) = b"
proof -
  from assms obtain b0 b1 b2 b3 where b: "b = [b0, b1, b2, b3]"
    by (auto simp: length_Suc_conv eval_nat_numeral)
  show ?thesis
    unfolding b header_value_def length_header_def ucast_low_byte
    by (auto intro!: bit_word_eqI simp: bit_simps)
qed



section \<open>Frames in a byte stream\<close>

definition deliverable :: "bytes \<Rightarrow> bool" where
  "deliverable m \<longleftrightarrow> 0 < length m \<and> length m \<le> max_body"

lemma unat_length_header: "length m < 2 ^ 32 \<Longrightarrow> unat (of_nat (length m) :: u32) = length m"
  by (simp add: unat_of_nat)

lemma deliverable_small: "deliverable m \<Longrightarrow> length m < 2 ^ 32"
  by (simp add: deliverable_def max_body_def)

lemma length_ok_deliverable:
  "length m < 2 ^ 32 \<Longrightarrow> length_ok (of_nat (length m)) \<longleftrightarrow> deliverable m"
  by (auto simp: length_ok_def deliverable_def max_body_def word_less_nat_alt word_le_nat_alt
      unat_length_header)

lemma length_ok_unat: "length_ok n \<longleftrightarrow> 0 < unat n \<and> unat n \<le> max_body"
  by (simp add: length_ok_def max_body_def word_less_nat_alt word_le_nat_alt)

text \<open>
  The interface of a framing: a set of messages whose frames are not empty and such that no frame
  of one message is a prefix of the frame of another, whatever follows. Then a stream of frames
  reads back in one way only, and what a reader has split off so far is a prefix of what the
  writer put in.
\<close>

locale framing =
  fixes enframe :: "'m \<Rightarrow> 'b list"
    and fits :: "'m \<Rightarrow> bool"
  assumes frame_nonempty: "enframe m \<noteq> []"
    and frame_inj: "fits x \<Longrightarrow> fits y \<Longrightarrow> enframe x @ u = enframe y @ v \<Longrightarrow> x = y \<and> u = v"
begin

lemma frames_prefix:
  assumes "\<forall>m \<in> set xs. fits m" "\<forall>m \<in> set ys. fits m"
    and "prefix (concat (map enframe xs)) (concat (map enframe ys))"
  shows "prefix xs ys"
  using assms
proof (induction xs arbitrary: ys)
  case Nil
  show ?case by simp
next
  case (Cons x xs)
  obtain y ys' where ys: "ys = y # ys'"
    using Cons.prems(3) frame_nonempty by (cases ys) auto
  from Cons.prems(3) obtain w where
    "enframe x @ concat (map enframe xs) @ w = enframe y @ concat (map enframe ys')"
    by (auto simp: ys prefix_def)
  with frame_inj Cons.prems(1,2) have "x = y" "concat (map enframe xs) @ w = concat (map enframe ys')"
    by (auto simp: ys)
  then show ?case using Cons by (simp add: ys prefix_def)
qed

lemma frames_inj:
  assumes "\<forall>m \<in> set xs. fits m" "\<forall>m \<in> set ys. fits m"
    and "concat (map enframe xs) = concat (map enframe ys)"
  shows "xs = ys"
  using frames_prefix [of xs ys] frames_prefix [of ys xs] assms by (simp add: prefix_order.eq_iff)

end

lemma frame_inj_4byte:
  assumes "length x < 2 ^ 32" "length y < 2 ^ 32" "frame x @ u = frame y @ v"
  shows "x = y \<and> u = v"
proof -
  from assms(3) have "length_header (of_nat (length x)) = length_header (of_nat (length y))"
    and rest: "x @ u = y @ v" by (auto simp: frame_def)
  then have "(of_nat (length x) :: u32) = of_nat (length y)"
    by (metis header_value_length_header)
  then have "length x = length y"
    using assms(1,2) by (metis unat_length_header)
  with rest show ?thesis by simp
qed

interpretation len4: framing frame "\<lambda>m. length m < 2 ^ 32"
  by unfold_locales (simp add: frame_def length_header_def, rule frame_inj_4byte)

abbreviation frames :: "bytes list \<Rightarrow> bytes" where
  "frames ms \<equiv> concat (map frame ms)"


section \<open>The reference reading of a stream\<close>

text \<open>\<open>decode_stream bs\<close> is the list of the complete messages of \<open>bs\<close> and whether a header with a
  refused length follows them.\<close>

function decode_stream :: "bytes \<Rightarrow> bytes list \<times> bool" where
  "decode_stream bs =
     (if length bs < 4 then ([], False)
      else let n = header_value bs in
        if \<not> length_ok n then ([], True)
        else if length bs < 4 + unat n then ([], False)
        else let (ms, bad) = decode_stream (drop (4 + unat n) bs)
          in (take (unat n) (drop 4 bs) # ms, bad))"
  by pat_completeness auto
termination
  by (relation "measure length") auto

declare decode_stream.simps [simp del]

lemma decode_short [simp]: "length bs < 4 \<Longrightarrow> decode_stream bs = ([], False)"
  by (simp add: decode_stream.simps)

lemma decode_bad:
  "length h = 4 \<Longrightarrow> \<not> length_ok (header_value h) \<Longrightarrow> decode_stream (h @ bs) = ([], True)"
  by (subst decode_stream.simps) simp

lemma decode_partial:
  "length h = 4 \<Longrightarrow> length_ok (header_value h) \<Longrightarrow> length bs < unat (header_value h) \<Longrightarrow>
     decode_stream (h @ bs) = ([], False)"
  by (subst decode_stream.simps) simp

lemma decode_frame:
  assumes "deliverable m"
  shows "decode_stream (frame m @ bs) = (m # fst (decode_stream bs), snd (decode_stream bs))"
proof -
  have n: "header_value (frame m @ bs) = of_nat (length m)" by (simp add: frame_def)
  have u: "unat (of_nat (length m) :: u32) = length m" and ok: "length_ok (of_nat (length m))"
    using deliverable_small [OF assms] assms by (simp_all add: unat_length_header length_ok_deliverable)
  show ?thesis
    by (subst decode_stream.simps)
       (simp add: n Let_def u ok, simp add: frame_def split_beta)
qed

lemma decode_frames:
  assumes "\<forall>m \<in> set ms. deliverable m"
  shows "decode_stream (frames ms @ bs) = (ms @ fst (decode_stream bs), snd (decode_stream bs))"
  using assms by (induction ms) (simp_all add: decode_frame)

text \<open>More bytes never change the messages already read, nor undo a refused header.\<close>

lemma decode_append:
  "prefix (fst (decode_stream bs)) (fst (decode_stream (bs @ cs))) \<and>
   (snd (decode_stream bs) \<longrightarrow> decode_stream (bs @ cs) = decode_stream bs)"
proof (induction bs rule: decode_stream.induct)
  case (1 bs)
  show ?case
  proof (cases "length bs < 4 \<or> length_ok (header_value bs) \<and> length bs < 4 + unat (header_value bs)")
    case True
    then show ?thesis by (subst (1 3 5) decode_stream.simps) auto
  next
    case False
    have hv: "header_value (bs @ cs) = header_value bs"
    proof -
      have "4 \<le> length bs" using False by auto
      then have "(bs @ cs) ! i = bs ! i" if "i < 4" for i
        using that by (simp add: nth_append)
      then show ?thesis by (simp add: header_value_def)
    qed
    show ?thesis
    proof (cases "length_ok (header_value bs)")
      case True
      with False "1.IH" [OF _ refl] show ?thesis
        by (subst (1 2 3 4 5) decode_stream.simps) (auto simp: hv Let_def split_beta)
    next
      case no: False
      with False show ?thesis by (subst (1 2 3 4 5) decode_stream.simps) (simp add: hv)
    qed
  qed
qed

end
