(* ===== verification/Session.thy ===== *)
theory Session
  imports Framing
begin

text \<open>
  One TCP connection: \<open>rpc/detail/session.hpp\<close> and \<open>rpc/src/session.cpp\<close>. The record holds the
  members of \<open>session\<close>, the state of its socket and of its outstanding asynchronous operations, and
  four history fields. Every function of the class is a definition; \<open>session_trans\<close> lets the
  strand, the socket and the application interleave them.
\<close>

section \<open>State\<close>

text \<open>Error codes: the one the header check makes, and those of socket operations.\<close>

datatype error_code = Message_size | Io_error nat

text \<open>An \<open>async_read\<close> into the whole of \<open>read_buffer_\<close>: outstanding, or complete with its handler
  queued in the strand. The same for \<open>async_write\<close>, with the bytes not yet handed to TCP.\<close>

datatype read_kind = Header | Body
datatype read_op = No_read | Reading read_kind | Read_done read_kind "error_code option"
datatype write_op = No_write | Writing bytes | Write_done "error_code option"

text \<open>What a message callback does to its own session through the \<open>connection_handle\<close>.\<close>

datatype cb_action = Reply bytes | Close_conn

text \<open>What waits in the strand: the write lambdas of \<open>async_write\<close> and the close lambdas of \<open>close\<close>
  called from outside it.\<close>

datatype task = Write_task bytes | Close_task

record session =
  sock_open :: bool                 \<comment> \<open>\<open>socket_.is_open()\<close>\<close>
  read_buffer :: bytes
  write_queue :: "bytes list"
  on_message :: "(bytes \<Rightarrow> cb_action list) option"
  on_error :: bool                  \<comment> \<open>whether \<open>on_error_\<close> holds a function\<close>
  posted :: "task list"             \<comment> \<open>lambdas queued in the strand, oldest first\<close>
  reading :: read_op
  writing :: write_op
  rx :: bytes                       \<comment> \<open>arrived and not yet read\<close>
  tx :: bytes                       \<comment> \<open>handed to TCP\<close>
  arrived :: bytes                  \<comment> \<open>history: all bytes that arrived\<close>
  accepted :: "bytes list"          \<comment> \<open>history: messages that entered the write queue\<close>
  delivered :: "bytes list"         \<comment> \<open>history: calls of \<open>on_message_\<close>\<close>
  reported :: "error_code list"     \<comment> \<open>history: calls of \<open>on_error_\<close>\<close>

definition new_session :: session where
  "new_session = \<lparr>sock_open = True, read_buffer = [], write_queue = [], on_message = None,
     on_error = False, posted = [], reading = No_read, writing = No_write, rx = [], tx = [],
     arrived = [], accepted = [], delivered = [], reported = []\<rparr>"


section \<open>Operations\<close>

definition is_open :: "session \<Rightarrow> bool" where
  "is_open s = sock_open s"

text \<open>\<open>shutdown\<close> and \<open>close\<close> with their errors ignored; outstanding operations end with an error
  later (rules \<open>read_fails\<close> and \<open>write_fails\<close> below).\<close>

definition do_close :: "session \<Rightarrow> session" where
  "do_close s = s\<lparr>sock_open := False\<rparr>"

text \<open>\<open>close\<close> is a \<open>dispatch\<close>: inside the strand (in a callback) it runs at once, from anywhere else it
  waits its turn.\<close>

definition close :: "bool \<Rightarrow> session \<Rightarrow> session" where
  "close in_strand s = (if in_strand then do_close s else s\<lparr>posted := posted s @ [Close_task]\<rparr>)"

definition report :: "error_code \<Rightarrow> session \<Rightarrow> session" where
  "report ec s = (if on_error s then s\<lparr>reported := reported s @ [ec]\<rparr> else s)"

definition do_read_header :: "session \<Rightarrow> session" where
  "do_read_header s = s\<lparr>read_buffer := resize 4 (read_buffer s), reading := Reading Header\<rparr>"

definition do_read_body :: "u32 \<Rightarrow> session \<Rightarrow> session" where
  "do_read_body body_length s =
     s\<lparr>read_buffer := resize (unat body_length) (read_buffer s), reading := Reading Body\<rparr>"

definition start :: "(bytes \<Rightarrow> cb_action list) \<Rightarrow> bool \<Rightarrow> session \<Rightarrow> session" where
  "start on_msg on_err s = do_read_header (s\<lparr>on_message := Some on_msg, on_error := on_err\<rparr>)"

definition header_handler :: "error_code option \<Rightarrow> session \<Rightarrow> session" where
  "header_handler ec s =
     (let s = s\<lparr>reading := No_read\<rparr> in
      case ec of
        None \<Rightarrow>
          (let body_length = header_value (read_buffer s) in
           if length_ok body_length then do_read_body body_length s
           else report Message_size (do_close s))
      | Some e \<Rightarrow> report e (do_close s))"

text \<open>\<open>async_write\<close> only posts; the lambda runs later, in the order of the posts.\<close>

definition async_write :: "bytes \<Rightarrow> session \<Rightarrow> session" where
  "async_write data s = s\<lparr>posted := posted s @ [Write_task data]\<rparr>"

definition do_write :: "session \<Rightarrow> session" where
  "do_write s = (case write_queue s of [] \<Rightarrow> s | data # _ \<Rightarrow> s\<lparr>writing := Writing (frame data)\<rparr>)"

definition run_posted :: "bytes \<Rightarrow> session \<Rightarrow> session" where
  "run_posted data s =
     (let write_in_progress = write_queue s \<noteq> [];
          s = s\<lparr>write_queue := write_queue s @ [data], accepted := accepted s @ [data]\<rparr>
      in if write_in_progress then s else do_write s)"

fun run_task :: "task \<Rightarrow> session \<Rightarrow> session" where
  "run_task (Write_task data) s = run_posted data s"
| "run_task Close_task s = do_close s"

definition write_handler :: "error_code option \<Rightarrow> session \<Rightarrow> session" where
  "write_handler ec s =
     (let s = s\<lparr>writing := No_write\<rparr> in
      case ec of
        None \<Rightarrow>
          (let s = s\<lparr>write_queue := tl (write_queue s)\<rparr>
           in if write_queue s \<noteq> [] then do_write s else s)
      | Some e \<Rightarrow> report e (do_close s))"

text \<open>A callback runs inside the strand, so its \<open>close()\<close> (a \<open>dispatch\<close>) takes effect at once and its
  replies (a \<open>post\<close>) after the handler.\<close>

fun perform :: "cb_action \<Rightarrow> session \<Rightarrow> session" where
  "perform (Reply data) s = async_write data s"
| "perform Close_conn s = close True s"

definition call_on_message :: "session \<Rightarrow> session" where
  "call_on_message s = (case on_message s of
       None \<Rightarrow> s
     | Some callback \<Rightarrow> fold perform (callback (read_buffer s))
         (s\<lparr>delivered := delivered s @ [read_buffer s]\<rparr>))"

definition body_handler :: "error_code option \<Rightarrow> session \<Rightarrow> session" where
  "body_handler ec s =
     (let s = s\<lparr>reading := No_read\<rparr> in
      case ec of
        None \<Rightarrow> do_read_header (call_on_message s)
      | Some e \<Rightarrow> report e (do_close s))"

fun read_handler :: "read_kind \<Rightarrow> error_code option \<Rightarrow> session \<Rightarrow> session" where
  "read_handler Header ec s = header_handler ec s"
| "read_handler Body ec s = body_handler ec s"

text \<open>\<open>remote_endpoint\<close>: the endpoint of the peer, or \<open>unknown\<close> when asking for it throws.\<close>

fun to_string :: "nat \<Rightarrow> string" where
  "to_string n = (if n < 10 then [char_of (48 + n)] else to_string (n div 10) @ [char_of (48 + n mod 10)])"

declare to_string.simps [simp del]

definition remote_endpoint :: "(string \<times> nat) option \<Rightarrow> string" where
  "remote_endpoint ep = (case ep of None \<Rightarrow> ''unknown'' | Some (addr, port) \<Rightarrow> addr @ '':'' @ to_string port)"


section \<open>Interleaving\<close>

text \<open>
  The steps of a running session. \<open>Sent\<close> and \<open>Received\<close> carry the bytes that cross the socket, \<open>App\<close>
  marks the calls of \<open>async_write\<close> and \<open>close\<close> by the application outside a callback. An
  asynchronous operation completes first and its handler runs in the strand later, so a handler may
  still see a success after the socket was closed; an operation on a closed socket can only fail.
\<close>

datatype label = Internal | App | Sent bytes | Received bytes

inductive session_trans :: "session \<Rightarrow> label \<Rightarrow> session \<Rightarrow> bool" where
  app_write: "session_trans s App (async_write data s)"
| app_close: "session_trans s App (close False s)"
| task_runs: "posted s = task # rest \<Longrightarrow>
    session_trans s Internal (run_task task (s\<lparr>posted := rest\<rparr>))"
| bytes_arrive: "sock_open s \<Longrightarrow>
    session_trans s (Received bs) (s\<lparr>rx := rx s @ bs, arrived := arrived s @ bs\<rparr>)"
| read_completes: "reading s = Reading k \<Longrightarrow> sock_open s \<Longrightarrow> length (read_buffer s) \<le> length (rx s) \<Longrightarrow>
    session_trans s Internal (s\<lparr>read_buffer := take (length (read_buffer s)) (rx s),
      rx := drop (length (read_buffer s)) (rx s), reading := Read_done k None\<rparr>)"
| read_fails: "reading s = Reading k \<Longrightarrow>
    session_trans s Internal (s\<lparr>reading := Read_done k (Some (Io_error e))\<rparr>)"
| read_handled: "reading s = Read_done k ec \<Longrightarrow> session_trans s Internal (read_handler k ec s)"
| bytes_leave: "writing s = Writing (bs @ rest) \<Longrightarrow> sock_open s \<Longrightarrow>
    session_trans s (Sent bs) (s\<lparr>tx := tx s @ bs, writing := Writing rest\<rparr>)"
| write_completes: "writing s = Writing [] \<Longrightarrow>
    session_trans s Internal (s\<lparr>writing := Write_done None\<rparr>)"
| write_fails: "writing s = Writing rest \<Longrightarrow>
    session_trans s Internal (s\<lparr>writing := Write_done (Some (Io_error e))\<rparr>)"
| write_handled: "writing s = Write_done ec \<Longrightarrow> session_trans s Internal (write_handler ec s)"

definition session_step :: "session \<Rightarrow> session \<Rightarrow> bool" where
  "session_step s t \<longleftrightarrow> (\<exists>l. session_trans s l t)"

text \<open>A session begins its life when \<open>start\<close> is called on a connected socket.\<close>

definition session_init :: "session \<Rightarrow> bool" where
  "session_init s \<longleftrightarrow> (\<exists>on_msg on_err. s = start on_msg on_err new_session)"

inductive_cases sent_cases: "session_trans s (Sent bs) t"
inductive_cases received_cases: "session_trans s (Received bs) t"

named_theorems session_defs \<comment> \<open>the handlers, unfolded together\<close>

lemmas [session_defs] = do_close_def close_def report_def do_read_header_def do_read_body_def
  header_handler_def async_write_def do_write_def run_posted_def write_handler_def
  call_on_message_def body_handler_def Let_def


section \<open>The invariant\<close>

text \<open>
  Writer: what went to TCP, what is left of the message being written and the queue behind it make
  up the frames of all messages that entered the queue; after a write error, or once closed, what
  went out is still a prefix of them. Reader: what arrived is the frames of the delivered messages,
  then what the current operation has or waits for, then the unread rest.
\<close>

definition writer_inv :: "session \<Rightarrow> bool" where
  "writer_inv s \<longleftrightarrow> (case writing s of
       No_write \<Rightarrow> if write_queue s = [] then tx s = frames (accepted s)
         else prefix (tx s) (frames (accepted s)) \<and> \<not> sock_open s
     | Writing rest \<Rightarrow> write_queue s \<noteq> [] \<and>
         tx s @ rest @ frames (tl (write_queue s)) = frames (accepted s)
     | Write_done None \<Rightarrow> write_queue s \<noteq> [] \<and>
         tx s @ frames (tl (write_queue s)) = frames (accepted s)
     | Write_done (Some e) \<Rightarrow> write_queue s \<noteq> [] \<and> prefix (tx s) (frames (accepted s)))"

definition reader_inv :: "session \<Rightarrow> bool" where
  "reader_inv s \<longleftrightarrow> on_message s \<noteq> None \<and> (\<forall>m \<in> set (delivered s). deliverable m) \<and>
     (case reading s of
       No_read \<Rightarrow> \<not> sock_open s \<and> prefix (frames (delivered s)) (arrived s)
     | Reading Header \<Rightarrow> length (read_buffer s) = 4 \<and> arrived s = frames (delivered s) @ rx s
     | Reading Body \<Rightarrow> deliverable (read_buffer s) \<and>
         arrived s = frames (delivered s) @ length_header (of_nat (length (read_buffer s))) @ rx s
     | Read_done Header None \<Rightarrow> length (read_buffer s) = 4 \<and>
         arrived s = frames (delivered s) @ read_buffer s @ rx s
     | Read_done Body None \<Rightarrow> deliverable (read_buffer s) \<and>
         arrived s = frames (delivered s) @ frame (read_buffer s) @ rx s
     | Read_done k (Some e) \<Rightarrow> e \<noteq> Message_size \<and> prefix (frames (delivered s)) (arrived s))"

definition header_inv :: "session \<Rightarrow> bool" where
  "header_inv s \<longleftrightarrow> (Message_size \<in> set (reported s) \<longrightarrow> snd (decode_stream (arrived s))) \<and>
     (\<forall>e. writing s = Write_done (Some e) \<longrightarrow> e \<noteq> Message_size)"

definition session_inv :: "session \<Rightarrow> bool" where
  "session_inv s \<longleftrightarrow> reader_inv s \<and> writer_inv s \<and> header_inv s"

text \<open>The actions of a callback, all at once.\<close>

fun replies :: "cb_action list \<Rightarrow> task list" where
  "replies [] = []"
| "replies (Reply data # as) = Write_task data # replies as"
| "replies (Close_conn # as) = replies as"

lemma fold_perform [simp]:
  "fold perform as s =
     s\<lparr>sock_open := sock_open s \<and> Close_conn \<notin> set as, posted := posted s @ replies as\<rparr>"
  by (induction as arbitrary: s rule: replies.induct) (auto simp: session_defs)

lemma writer_inv_init: "session_init s \<Longrightarrow> writer_inv s"
  by (auto simp: session_init_def start_def new_session_def writer_inv_def session_defs)

lemma writer_inv_trans: "session_trans s l t \<Longrightarrow> writer_inv s \<Longrightarrow> writer_inv t"
proof (induction rule: session_trans.induct)
  case (read_handled s k ec)
  then show ?case
    by (cases k; cases ec)
       (auto simp: writer_inv_def session_defs split: write_op.splits option.splits if_splits)
next
  case (write_handled s ec)
  then show ?case
    by (cases ec; cases "write_queue s")
       (auto simp: writer_inv_def session_defs prefix_def split: list.splits)
next
  case (write_fails s rest e)
  then have "tx s @ (rest @ frames (tl (write_queue s))) = frames (accepted s)"
    by (simp add: writer_inv_def)
  then have "prefix (tx s) (frames (accepted s))" by (metis prefixI)
  with write_fails show ?case by (simp add: writer_inv_def)
next
  case (task_runs s task rest)
  then show ?case
    by (cases task) (auto simp: writer_inv_def session_defs split: write_op.splits option.splits list.splits if_splits)
qed (auto simp: writer_inv_def session_defs split: write_op.splits option.splits list.splits if_splits)

lemma reader_inv_init: "session_init s \<Longrightarrow> reader_inv s"
  by (auto simp: session_init_def start_def new_session_def reader_inv_def session_defs)

lemma length_ok_resize:
  "length_ok n \<Longrightarrow> deliverable (resize (unat n) b) \<and>
     length_header (of_nat (length (resize (unat n) b))) = length_header n"
  by (simp add: deliverable_def length_ok_unat)

lemma frame_take:
  "length_header (of_nat n) @ bs = length_header (of_nat n) @ take n bs @ drop n bs"
  by simp

lemma reader_inv_trans: "session_trans s l t \<Longrightarrow> reader_inv s \<Longrightarrow> reader_inv t"
proof (induction rule: session_trans.induct)
  case (read_handled s k ec)
  show ?case
  proof (cases k)
    case Header
    with read_handled show ?thesis
      by (cases ec) (auto simp: reader_inv_def session_defs length_ok_resize length_header_header_value)
  next
    case Body
    with read_handled show ?thesis
      by (cases ec) (auto simp: reader_inv_def session_defs)
  qed
next
  case (read_completes s k)
  then show ?case
    by (cases k) (auto simp: reader_inv_def frame_def deliverable_def)
next
  case (read_fails s k e)
  then show ?case by (cases k) (auto simp: reader_inv_def prefix_def)
next
  case (bytes_arrive s bs)
  then show ?case
    by (auto simp: reader_inv_def split: read_op.splits read_kind.splits option.splits)
next
  case (write_handled s ec)
  then show ?case
    by (cases ec) (auto simp: reader_inv_def session_defs split: read_op.splits read_kind.splits
        option.splits list.splits)
next
  case (task_runs s task rest)
  then show ?case
    by (cases task) (auto simp: reader_inv_def session_defs split: read_op.splits read_kind.splits
        option.splits list.splits)
qed (auto simp: reader_inv_def session_defs split: read_op.splits read_kind.splits option.splits
      list.splits)

lemma header_inv_init: "session_init s \<Longrightarrow> header_inv s"
  by (auto simp: session_init_def start_def new_session_def header_inv_def session_defs)

lemma reader_decode:
  "reader_inv s \<Longrightarrow> arrived s = frames (delivered s) @ r \<Longrightarrow>
     decode_stream (arrived s) = (delivered s @ fst (decode_stream r), snd (decode_stream r))"
  by (simp add: reader_inv_def decode_frames)

lemma header_inv_trans:
  "session_trans s l t \<Longrightarrow> reader_inv s \<Longrightarrow> header_inv s \<Longrightarrow> header_inv t"
proof (induction rule: session_trans.induct)
  case (read_handled s k ec)
  show ?case
  proof (cases "k = Header \<and> ec = None")
    case True
    with read_handled have hdr: "length (read_buffer s) = 4"
      and arr: "arrived s = frames (delivered s) @ read_buffer s @ rx s"
      by (auto simp: reader_inv_def)
    have "\<not> length_ok (header_value (read_buffer s)) \<Longrightarrow> snd (decode_stream (arrived s))"
      unfolding reader_decode [OF read_handled.prems(1) arr] by (simp add: decode_bad hdr)
    with True read_handled show ?thesis by (auto simp: header_inv_def session_defs)
  next
    case False
    with read_handled show ?thesis
      by (cases k; cases ec)
         (auto simp: header_inv_def reader_inv_def session_defs split: option.splits)
  qed
next
  case (bytes_arrive s bs)
  then show ?case using decode_append [of "arrived s" bs] by (auto simp: header_inv_def)
next
  case (write_handled s ec)
  then show ?case by (cases ec) (auto simp: header_inv_def session_defs split: list.splits)
next
  case (task_runs s task rest)
  then show ?case by (cases task) (auto simp: header_inv_def session_defs split: list.splits)
qed (auto simp: header_inv_def session_defs split: list.splits)

interpretation session: invariant_system session_init session_step session_inv
proof
  show "session_inv s" if "session_init s" for s
    using that by (simp add: session_inv_def reader_inv_init writer_inv_init header_inv_init)
  show "session_inv t" if "session_inv s" "session_step s t" for s t
    using that unfolding session_inv_def session_step_def
    by (blast intro: reader_inv_trans writer_inv_trans header_inv_trans)
qed


section \<open>Runs that make progress\<close>

definition internal_step :: "session \<Rightarrow> session \<Rightarrow> bool" where
  "internal_step s t \<longleftrightarrow> session_trans s Internal t"

text \<open>The states of a session that has received, or sent, one whole message.\<close>

definition after_receive :: "bytes \<Rightarrow> cb_action list \<Rightarrow> bytes \<Rightarrow> session \<Rightarrow> session" where
  "after_receive m as r s = s\<lparr>rx := r, delivered := delivered s @ [m],
     sock_open := sock_open s \<and> Close_conn \<notin> set as, posted := posted s @ replies as,
     read_buffer := resize 4 m, reading := Reading Header\<rparr>"

definition after_send :: "bytes \<Rightarrow> task list \<Rightarrow> session \<Rightarrow> session" where
  "after_send m rest s = s\<lparr>posted := rest, accepted := accepted s @ [m], tx := tx s @ frame m,
     writing := No_write, write_queue := []\<rparr>"

lemma receive_run:
  assumes "sock_open s" "reading s = Reading Header" "length (read_buffer s) = 4"
    and "on_message s = Some f" "deliverable m" "rx s = frame m @ r"
  shows "internal_step\<^sup>*\<^sup>* s (after_receive m (f m) r s)"
proof -
  let ?n = "of_nat (length m) :: u32"
  have n: "length_ok ?n" "unat ?n = length m"
    using deliverable_small [OF assms(5)] assms(5)
    by (simp_all add: length_ok_deliverable unat_length_header)
  let ?s1 = "s\<lparr>read_buffer := length_header ?n, rx := m @ r, reading := Read_done Header None\<rparr>"
  let ?s2 = "do_read_body ?n (?s1\<lparr>reading := No_read\<rparr>)"
  let ?s3 = "?s2\<lparr>read_buffer := m, rx := r, reading := Read_done Body None\<rparr>"
  have "internal_step s ?s1"
    using session_trans.read_completes [of s Header] assms by (simp add: internal_step_def frame_def)
  moreover have "internal_step ?s1 ?s2"
    using session_trans.read_handled [of ?s1 Header None] n
    by (simp add: internal_step_def header_handler_def Let_def)
  moreover have "internal_step ?s2 ?s3"
    using session_trans.read_completes [of ?s2 Body] assms n
    by (simp add: internal_step_def do_read_body_def)
  moreover have "internal_step ?s3 (after_receive m (f m) r s)"
    using session_trans.read_handled [of ?s3 Body None] assms
    by (simp add: internal_step_def after_receive_def session_defs)
  ultimately show ?thesis by (meson rtranclp.intros)
qed

lemma send_run:
  assumes "sock_open s" "writing s = No_write" "write_queue s = []" "posted s = Write_task m # rest"
  shows "\<exists>s1 s2. internal_step s s1 \<and> session_trans s1 (Sent (frame m)) s2 \<and>
    internal_step\<^sup>*\<^sup>* s2 (after_send m rest s)"
proof -
  let ?s1 = "run_posted m (s\<lparr>posted := rest\<rparr>)"
  let ?s2 = "?s1\<lparr>tx := tx s @ frame m, writing := Writing []\<rparr>"
  let ?s3 = "?s2\<lparr>writing := Write_done None\<rparr>"
  have s1: "writing ?s1 = Writing (frame m @ [])" "sock_open ?s1" "tx ?s1 = tx s"
    using assms by (simp_all add: session_defs)
  have "internal_step s ?s1"
    using session_trans.task_runs [OF assms(4)] by (simp add: internal_step_def)
  moreover have "session_trans ?s1 (Sent (frame m)) ?s2"
    using session_trans.bytes_leave [OF s1(1,2)] s1(3) by simp
  moreover have "internal_step ?s2 ?s3"
    using session_trans.write_completes [of ?s2] by (simp add: internal_step_def)
  moreover have "internal_step ?s3 (after_send m rest s)"
    using session_trans.write_handled [of ?s3 None] assms
    by (simp add: internal_step_def after_send_def session_defs)
  ultimately show ?thesis by (meson rtranclp.intros)
qed

lemma internal_steps: "internal_step\<^sup>*\<^sup>* s t \<Longrightarrow> session_step\<^sup>*\<^sup>* s t"
  by (erule rtranclp_mono [THEN predicate2D, rotated])
     (auto simp: internal_step_def session_step_def)

lemma receive_frame_run:
  assumes "sock_open s" "reading s = Reading Header" "length (read_buffer s) = 4" "rx s = []"
    and "on_message s = Some f" "deliverable m"
  shows "session_step\<^sup>*\<^sup>* s (after_receive m (f m) [] (s\<lparr>arrived := arrived s @ frame m\<rparr>))"
proof -
  let ?s = "s\<lparr>rx := rx s @ frame m, arrived := arrived s @ frame m\<rparr>"
  have "session_step s ?s"
    using session_trans.bytes_arrive [OF assms(1)] by (auto simp: session_step_def)
  moreover have "session_step\<^sup>*\<^sup>* ?s (after_receive m (f m) [] ?s)"
    using assms by (intro internal_steps receive_run) simp_all
  ultimately show ?thesis by (simp add: after_receive_def converse_rtranclp_into_rtranclp)
qed

lemma send_frame_run:
  assumes "sock_open s" "writing s = No_write" "write_queue s = []" "posted s = []"
  shows "session_step\<^sup>*\<^sup>* s (after_send m [] s)"
proof -
  have "session_step s (async_write m s)"
    using session_trans.app_write by (auto simp: session_step_def)
  moreover obtain s1 s2 where "internal_step (async_write m s) s1"
    "session_trans s1 (Sent (frame m)) s2" "internal_step\<^sup>*\<^sup>* s2 (after_send m [] (async_write m s))"
    using send_run [of "async_write m s" m "[]"] assms by (auto simp: async_write_def)
  then have "session_step\<^sup>*\<^sup>* (async_write m s) (after_send m [] (async_write m s))"
    by (meson internal_steps internal_step_def session_step_def converse_rtranclp_into_rtranclp)
  ultimately show ?thesis
    by (simp add: after_send_def async_write_def converse_rtranclp_into_rtranclp)
qed


section \<open>Properties\<close>

lemma session_waiting_delivered:
  assumes inv: "reader_inv s"
    and wait: "reading s = Reading k" "length (rx s) < length (read_buffer s)"
  shows "delivered s = fst (decode_stream (arrived s))"
proof (cases k)
  case Header
  with inv wait show ?thesis by (auto simp: reader_inv_def decode_frames)
next
  case Body
  with inv wait(1) have ok: "deliverable (read_buffer s)"
    and arr: "arrived s = frames (delivered s) @ length_header (of_nat (length (read_buffer s))) @ rx s"
    by (auto simp: reader_inv_def)
  note n = deliverable_small [OF ok]
  have "decode_stream (length_header (of_nat (length (read_buffer s))) @ rx s) = ([], False)"
    using wait(2) ok n by (intro decode_partial) (simp_all add: length_ok_deliverable unat_length_header)
  with reader_decode [OF inv arr] show ?thesis by simp
qed

lemma session_inv_contract:
  assumes "session_inv s"
  shows "prefix (delivered s) (fst (decode_stream (arrived s))) \<and> prefix (tx s) (frames (accepted s))"
proof -
  from assms have inv: "reader_inv s" "writer_inv s" by (simp_all add: session_inv_def)
  from inv(1) obtain r where "arrived s = frames (delivered s) @ r"
    by (auto simp: reader_inv_def prefix_def split: read_op.splits read_kind.splits option.splits)
  then have "prefix (delivered s) (fst (decode_stream (arrived s)))"
    using reader_decode [OF inv(1)] by simp
  moreover have "prefix (tx s) (frames (accepted s))"
    using inv(2) by (auto simp: writer_inv_def prefix_def split: write_op.splits option.splits
        if_splits dest: sym)
  ultimately show ?thesis ..
qed

text \<open>C13. What the session has handed to \<open>on_message_\<close> is, in order and without loss, what the reference
  reading of the arrived bytes gives: always a prefix of it, and all of it as soon as the session
  waits for bytes that have not arrived yet.\<close>

theorem session_delivers_stream:
  assumes "session_init s0" and "session_step\<^sup>*\<^sup>* s0 s"
  shows "prefix (delivered s) (fst (decode_stream (arrived s))) \<and>
    (reading s = Reading k \<and> length (rx s) < length (read_buffer s) \<longrightarrow>
       delivered s = fst (decode_stream (arrived s)))"
  using session.inv_reachable [OF assms] session_inv_contract [of s] session_waiting_delivered [of s k]
  by (simp add: session_inv_def)

theorem session_delivers_stream_witness:
  "\<exists>s :: session. reading s = Reading Header \<and> arrived s = frame [7, 8] \<and>
     delivered s = fst (decode_stream (arrived s)) \<and> delivered s = [[7, 8]]"
proof -
  let ?init = "start (\<lambda>m. [Reply m]) True new_session"
  let ?fin = "after_receive [7, 8] [Reply [7, 8]] [] (?init\<lparr>arrived := arrived ?init @ frame [7, 8]\<rparr>)"
  have init: "session_init ?init" by (auto simp: session_init_def)
  have run: "session_step\<^sup>*\<^sup>* ?init ?fin"
    using receive_frame_run [of ?init "\<lambda>m. [Reply m]" "[7, 8]"]
    by (simp add: start_def do_read_header_def new_session_def deliverable_def max_body_def)
  show ?thesis
    by (rule exI [of _ ?fin]) (use session_delivers_stream [OF init run, of Header] in
        \<open>simp add: after_receive_def start_def do_read_header_def new_session_def\<close>)
qed

text \<open>C14. The bytes handed to TCP are always a prefix of the frames of the messages accepted for
  writing, in the order of acceptance; while the connection is open and no write is under way, they
  are all of them. So concurrent \<open>async_write\<close> calls never interleave two messages.\<close>

theorem session_writes_frames:
  assumes "session_init s0" and "session_step\<^sup>*\<^sup>* s0 s"
  shows "prefix (tx s) (frames (accepted s)) \<and>
    (sock_open s \<and> writing s = No_write \<longrightarrow> tx s = frames (accepted s))"
  using session.inv_reachable [OF assms] session_inv_contract [of s]
  by (auto simp: session_inv_def writer_inv_def split: if_splits)

theorem session_writes_frames_witness:
  "\<exists>s :: session. sock_open s \<and> accepted s = [[1], [2, 3]] \<and> tx s = frames [[1], [2, 3]]"
proof -
  let ?init = "start (\<lambda>m. []) True new_session"
  let ?s1 = "after_send [1] [] ?init"
  let ?fin = "after_send [2, 3] [] ?s1"
  note defs = after_send_def start_def do_read_header_def new_session_def
  have init: "session_init ?init" by (auto simp: session_init_def)
  have "session_step\<^sup>*\<^sup>* ?init ?s1" by (intro send_frame_run) (simp_all add: defs)
  moreover have "session_step\<^sup>*\<^sup>* ?s1 ?fin" by (intro send_frame_run) (simp_all add: defs)
  ultimately have run: "session_step\<^sup>*\<^sup>* ?init ?fin" by simp
  show ?thesis
    by (rule exI [of _ ?fin]) (use session_writes_frames [OF init run] in \<open>simp add: defs\<close>)
qed

text \<open>C24. The session delivers no empty message and none above 10 MB, and it reports \<open>message_size\<close> only
  if the arrived bytes do contain a header with a refused length.\<close>

theorem session_header_check:
  assumes "session_init s0" and "session_step\<^sup>*\<^sup>* s0 s"
  shows "(\<forall>m \<in> set (delivered s). 0 < length m \<and> length m \<le> max_body) \<and>
    (Message_size \<in> set (reported s) \<longrightarrow> snd (decode_stream (arrived s)))"
  using session.inv_reachable [OF assms]
  by (simp add: session_inv_def reader_inv_def header_inv_def deliverable_def)

theorem session_header_check_witness:
  "\<exists>s :: session. sock_open s = False \<and> reported s = [Message_size] \<and> snd (decode_stream (arrived s))"
proof -
  let ?init = "start (\<lambda>m. []) True new_session"
  let ?s1 = "?init\<lparr>rx := [0, 0, 0, 0], arrived := [0, 0, 0, 0]\<rparr>"
  let ?s2 = "?s1\<lparr>read_buffer := [0, 0, 0, 0], rx := [], reading := Read_done Header None\<rparr>"
  let ?s3 = "header_handler None ?s2"
  note defs = start_def do_read_header_def new_session_def
  have init: "session_init ?init" by (auto simp: session_init_def)
  have "session_step ?init ?s1"
    using session_trans.bytes_arrive [of ?init "[0, 0, 0, 0]"] by (auto simp: session_step_def defs)
  moreover have "session_step ?s1 ?s2"
    using session_trans.read_completes [of ?s1 Header] by (auto simp: session_step_def defs)
  moreover have "session_step ?s2 ?s3"
    using session_trans.read_handled [of ?s2 Header None] by (auto simp: session_step_def)
  ultimately have run: "session_step\<^sup>*\<^sup>* ?init ?s3" by (meson rtranclp.intros)
  have "\<not> length_ok (header_value [0, 0, 0, 0])" by code_simp
  then have "reported ?s3 = [Message_size]" "sock_open ?s3 = False"
    by (simp_all add: header_handler_def report_def do_close_def defs)
  with session_header_check [OF init run] show ?thesis by auto
qed

text \<open>A closed session: nothing more is handed to TCP, nothing more arrives, and the socket stays closed.\<close>

lemma closed_session_silent:
  assumes "session_step\<^sup>*\<^sup>* s t" and "\<not> sock_open s"
  shows "\<not> sock_open t \<and> tx t = tx s \<and> arrived t = arrived s"
  using assms
proof (induction rule: rtranclp_induct)
  case (step t u)
  then obtain l where "session_trans t l u" and "\<not> sock_open t \<and> tx t = tx s \<and> arrived t = arrived s"
    by (auto simp: session_step_def)
  then show ?case
  proof (induction rule: session_trans.induct)
    case (read_handled t k ec)
    then show ?case by (cases k; cases ec) (auto simp: session_defs split: option.splits)
  next
    case (write_handled t ec)
    then show ?case by (cases ec) (auto simp: session_defs split: list.splits)
  next
    case (task_runs t task rest)
    then show ?case by (cases task) (auto simp: session_defs split: list.splits)
  qed (auto simp: session_defs split: list.splits)
qed simp

text \<open>At most the body that was already read is still delivered.\<close>

definition undelivered :: "session \<Rightarrow> nat" where
  "undelivered s = (if reading s = Read_done Body None then 1 else 0)"

lemma closed_delivers_step:
  assumes "session_trans s x t" "\<not> sock_open s"
  shows "length (delivered t) + undelivered t \<le> length (delivered s) + undelivered s"
  using assms
proof (induction rule: session_trans.induct)
  case (read_handled s k ec)
  then show ?case
    by (cases k; cases ec) (auto simp: undelivered_def session_defs split: option.splits)
next
  case (write_handled s ec)
  then show ?case by (cases ec) (auto simp: undelivered_def session_defs split: list.splits)
next
  case (task_runs s task rest)
  then show ?case by (cases task) (auto simp: undelivered_def session_defs split: list.splits)
qed (auto simp: undelivered_def session_defs)

lemma closed_delivers:
  assumes "session_step\<^sup>*\<^sup>* s t" "\<not> sock_open s"
  shows "length (delivered t) \<le> Suc (length (delivered s))"
proof -
  have "length (delivered t) + undelivered t \<le> length (delivered s) + undelivered s"
    using assms
  proof (induction rule: rtranclp_induct)
    case (step t u)
    then have "\<not> sock_open t" using closed_session_silent by blast
    with step show ?case using closed_delivers_step by (auto simp: session_step_def dest: le_trans)
  qed simp
  moreover have "undelivered s \<le> 1" by (simp add: undelivered_def)
  ultimately show ?thesis by simp
qed

text \<open>A posted close waits in the strand until it has run, and it can.\<close>

lemma close_waits_step:
  assumes "session_trans s x t" "Close_task \<in> set (posted s) \<or> \<not> sock_open s"
  shows "Close_task \<in> set (posted t) \<or> \<not> sock_open t"
  using assms
proof (induction rule: session_trans.induct)
  case (read_handled s k ec)
  then show ?case by (cases k; cases ec) (auto simp: session_defs split: option.splits)
next
  case (write_handled s ec)
  then show ?case by (cases ec) (auto simp: session_defs split: list.splits)
next
  case (task_runs s task rest)
  then show ?case by (cases task) (auto simp: session_defs split: list.splits)
qed (auto simp: session_defs split: list.splits)

lemma close_waits:
  "session_step\<^sup>*\<^sup>* s t \<Longrightarrow> Close_task \<in> set (posted s) \<or> \<not> sock_open s \<Longrightarrow>
   Close_task \<in> set (posted t) \<or> \<not> sock_open t"
  by (induction rule: rtranclp_induct) (auto simp: session_step_def dest: close_waits_step)

lemma close_runs:
  "Close_task \<in> set (posted s) \<Longrightarrow> \<exists>t. internal_step\<^sup>*\<^sup>* s t \<and> \<not> is_open t"
proof (induction "posted s" arbitrary: s)
  case (Cons task rest)
  let ?t = "run_task task (s\<lparr>posted := rest\<rparr>)"
  have step: "internal_step s ?t"
    using session_trans.task_runs [of s task rest] Cons.hyps(2) by (simp add: internal_step_def)
  show ?case
  proof (cases task)
    case Close_task
    with step show ?thesis by (auto simp: is_open_def do_close_def)
  next
    case (Write_task data)
    then have "posted ?t = rest" by (simp add: run_posted_def do_write_def Let_def split: list.split)
    moreover have "Close_task \<in> set rest" using Cons.prems Cons.hyps(2) Write_task by (metis set_ConsD task.distinct(1))
    ultimately obtain u where "internal_step\<^sup>*\<^sup>* ?t u" "\<not> is_open u" using Cons.hyps(1) by metis
    with step show ?thesis by (meson rtranclp_head)
  qed
qed simp

text \<open>C25. \<open>close\<close> closes, and for good. Called inside the strand it closes the socket at once; called
  from anywhere else it waits in the strand, whatever else happens there, and can always run. From
  then on, and whatever the application still posts, nothing more is handed to TCP, nothing more
  arrives, the socket stays closed, and at most one more message is delivered: the one that was
  already read.\<close>

theorem close_is_final:
  assumes "session_step\<^sup>*\<^sup>* (close in_strand s) t"
  shows "if in_strand
    then \<not> is_open t \<and> tx t = tx s \<and> arrived t = arrived s \<and> length (delivered t) \<le> Suc (length (delivered s))
    else (Close_task \<in> set (posted t) \<and> (\<exists>u. internal_step\<^sup>*\<^sup>* t u \<and> \<not> is_open u)) \<or>
      (\<not> is_open t \<and> (\<forall>u. session_step\<^sup>*\<^sup>* t u \<longrightarrow> \<not> is_open u \<and> tx u = tx t \<and> arrived u = arrived t \<and>
         length (delivered u) \<le> Suc (length (delivered t))))"
proof (cases in_strand)
  case True
  then have "\<not> sock_open (close in_strand s)" "tx (close in_strand s) = tx s"
    "arrived (close in_strand s) = arrived s" "delivered (close in_strand s) = delivered s"
    by (simp_all add: close_def do_close_def)
  with True closed_session_silent [OF assms] closed_delivers [OF assms] show ?thesis
    by (simp add: is_open_def)
next
  case False
  then have "Close_task \<in> set (posted t) \<or> \<not> sock_open t"
    by (intro close_waits [OF assms]) (simp add: close_def)
  with False close_runs [of t] show ?thesis
    using closed_session_silent [of t] closed_delivers [of t] by (auto simp: is_open_def)
qed

theorem close_is_final_witness:
  "\<not> is_open (async_write [1] (close True new_session)) \<and> tx (async_write [1] (close True new_session)) = []"
proof -
  have "session_step\<^sup>*\<^sup>* (close True new_session) (async_write [1] (close True new_session))"
    by (rule r_into_rtranclp) (auto simp: session_step_def intro: session_trans.app_write)
  from close_is_final [OF this] show ?thesis by (simp add: new_session_def)
qed

end
