(* ===== verification/Link.thy ===== *)
theory Link
  imports Session
begin

text \<open>
  Two sessions at the two ends of one TCP connection, with the bytes under way between them. The
  theorem of this theory is the contract of the network layer: what one end hands to its callback is
  what the other end was given to write, in order, without loss, duplication or mixing, up to the
  first message the receiver's length check refuses.
\<close>

record link =
  left :: session
  right :: session
  to_right :: bytes
  to_left :: bytes

datatype side = Left label | Right label

inductive link_trans :: "link \<Rightarrow> side \<Rightarrow> link \<Rightarrow> bool" where
  left_local: "session_trans (left l) x s \<Longrightarrow> x = Internal \<or> x = App \<Longrightarrow>
    link_trans l (Left x) (l\<lparr>left := s\<rparr>)"
| left_sends: "session_trans (left l) (Sent bs) s \<Longrightarrow>
    link_trans l (Left (Sent bs)) (l\<lparr>left := s, to_right := to_right l @ bs\<rparr>)"
| left_receives: "session_trans (left l) (Received bs) s \<Longrightarrow> to_left l = bs @ rest \<Longrightarrow>
    link_trans l (Left (Received bs)) (l\<lparr>left := s, to_left := rest\<rparr>)"
| right_local: "session_trans (right l) x s \<Longrightarrow> x = Internal \<or> x = App \<Longrightarrow>
    link_trans l (Right x) (l\<lparr>right := s\<rparr>)"
| right_sends: "session_trans (right l) (Sent bs) s \<Longrightarrow>
    link_trans l (Right (Sent bs)) (l\<lparr>right := s, to_left := to_left l @ bs\<rparr>)"
| right_receives: "session_trans (right l) (Received bs) s \<Longrightarrow> to_right l = bs @ rest \<Longrightarrow>
    link_trans l (Right (Received bs)) (l\<lparr>right := s, to_right := rest\<rparr>)"

definition link_step :: "link \<Rightarrow> link \<Rightarrow> bool" where
  "link_step l m \<longleftrightarrow> (\<exists>x. link_trans l x m)"

definition link_init :: "link \<Rightarrow> bool" where
  "link_init l \<longleftrightarrow> session_init (left l) \<and> session_init (right l) \<and> to_right l = [] \<and> to_left l = []"

text \<open>What a step of a session puts on the wire and takes from it.\<close>

fun sent_by :: "label \<Rightarrow> bytes" where
  "sent_by (Sent bs) = bs"
| "sent_by _ = []"

fun received_by :: "label \<Rightarrow> bytes" where
  "received_by (Received bs) = bs"
| "received_by _ = []"

lemma session_trans_io:
  "session_trans s x t \<Longrightarrow> tx t = tx s @ sent_by x \<and> arrived t = arrived s @ received_by x"
proof (induction rule: session_trans.induct)
  case (read_handled s k ec)
  then show ?case by (cases k; cases ec) (auto simp: session_defs split: option.splits)
next
  case (write_handled s ec)
  then show ?case by (cases ec) (auto simp: session_defs split: list.splits)
next
  case (task_runs s task rest)
  then show ?case by (cases task) (auto simp: session_defs split: list.splits)
qed (auto simp: session_defs split: list.splits)

definition link_inv :: "link \<Rightarrow> bool" where
  "link_inv l \<longleftrightarrow> session_inv (left l) \<and> session_inv (right l) \<and>
     tx (left l) = arrived (right l) @ to_right l \<and> tx (right l) = arrived (left l) @ to_left l"

lemma link_inv_trans:
  assumes "link_trans l x m" "link_inv l"
  shows "link_inv m"
proof -
  have inv: "session_inv t" if "session_trans s y t" "session_inv s" for s y t
    using that session.inv_step by (auto simp: session_step_def)
  from assms show ?thesis
    by (induction rule: link_trans.induct) (auto simp: link_inv_def dest: session_trans_io inv)
qed

interpretation link: invariant_system link_init link_step link_inv
proof
  show "link_inv l" if "link_init l" for l
    using that session.inv_init
    by (auto simp: link_init_def link_inv_def session_init_def start_def do_read_header_def
        new_session_def)
  show "link_inv m" if "link_inv l" "link_step l m" for l m
    using that link_inv_trans by (auto simp: link_step_def)
qed

text \<open>The stream of a list of frames, read back: everything up to the first refused message.\<close>

lemma decode_refused:
  assumes "length m < 2 ^ 32" "\<not> deliverable m"
  shows "decode_stream (frame m @ bs) = ([], True)"
  using assms by (simp add: frame_def decode_bad length_ok_deliverable)

lemma decode_all_frames:
  assumes "\<forall>m \<in> set ms. length m < 2 ^ 32"
  shows "fst (decode_stream (frames ms)) = takeWhile deliverable ms"
  using assms by (induction ms) (auto simp: decode_frame decode_refused)

text \<open>One direction of the connection: what the receiver delivers, in terms of the sender's queue.\<close>

lemma one_way:
  assumes "reader_inv r" "writer_inv s" "tx s = arrived r @ w"
    and "\<forall>m \<in> set (accepted s). length m < 2 ^ 32"
  shows "prefix (delivered r) (takeWhile deliverable (accepted s))"
proof -
  have "prefix (tx s) (frames (accepted s))"
    using assms(2) by (auto simp: writer_inv_def prefix_def split: write_op.splits option.splits
        if_splits dest: sym)
  with assms(3) obtain v where v: "frames (accepted s) = arrived r @ v"
    by (auto simp: prefix_def)
  obtain u where u: "arrived r = frames (delivered r) @ u"
    using assms(1) by (auto simp: reader_inv_def prefix_def split: read_op.splits read_kind.splits
        option.splits)
  have "\<forall>m \<in> set (delivered r). deliverable m" using assms(1) by (simp add: reader_inv_def)
  then have "fst (decode_stream (frames (accepted s))) = delivered r @ fst (decode_stream (u @ v))"
    by (simp add: u v decode_frames)
  then show ?thesis using assms(4) by (simp add: decode_all_frames)
qed

lemma one_way_complete:
  assumes inv: "session_inv r" "session_inv s" "tx s = arrived r"
    and idle: "sock_open s" "writing s = No_write"
    and wait: "reading r = Reading k" "length (rx r) < length (read_buffer r)"
    and small: "\<forall>m \<in> set (accepted s). length m < 2 ^ 32"
  shows "delivered r = takeWhile deliverable (accepted s)"
proof -
  have "tx s = frames (accepted s)"
    using inv(2) idle by (auto simp: session_inv_def writer_inv_def split: if_splits)
  moreover have "delivered r = fst (decode_stream (arrived r))"
    using inv(1) wait by (intro session_waiting_delivered) (simp_all add: session_inv_def)
  ultimately show ?thesis using inv(3) small by (simp add: decode_all_frames)
qed

text \<open>Runs of one end are runs of the connection.\<close>

lemma left_run:
  "internal_step\<^sup>*\<^sup>* s t \<Longrightarrow> left l = s \<Longrightarrow> link_step\<^sup>*\<^sup>* l (l\<lparr>left := t\<rparr>)"
proof (induction rule: rtranclp_induct)
  case (step t u)
  have "link_step (l\<lparr>left := t\<rparr>) (l\<lparr>left := u\<rparr>)"
    using step(2) link_trans.left_local [of "l\<lparr>left := t\<rparr>" Internal u]
    by (auto simp: internal_step_def link_step_def)
  with step show ?case by (simp add: rtranclp.rtrancl_into_rtrancl)
qed auto

lemma right_run:
  "internal_step\<^sup>*\<^sup>* s t \<Longrightarrow> right l = s \<Longrightarrow> link_step\<^sup>*\<^sup>* l (l\<lparr>right := t\<rparr>)"
proof (induction rule: rtranclp_induct)
  case (step t u)
  have "link_step (l\<lparr>right := t\<rparr>) (l\<lparr>right := u\<rparr>)"
    using step(2) link_trans.right_local [of "l\<lparr>right := t\<rparr>" Internal u]
    by (auto simp: internal_step_def link_step_def)
  with step show ?case by (simp add: rtranclp.rtrancl_into_rtrancl)
qed auto

lemma link_message_run:
  assumes snd: "sock_open (left l)" "writing (left l) = No_write" "write_queue (left l) = []"
      "posted (left l) = [Write_task m]"
    and rcv: "sock_open (right l)" "reading (right l) = Reading Header"
      "length (read_buffer (right l)) = 4" "rx (right l) = []" "on_message (right l) = Some f"
    and "to_right l = []" "deliverable m"
  shows "link_step\<^sup>*\<^sup>* l (l\<lparr>left := after_send m [] (left l), right :=
    after_receive m (f m) [] ((right l)\<lparr>arrived := arrived (right l) @ frame m\<rparr>)\<rparr>)"
proof -
  obtain s1 s2 where run: "internal_step (left l) s1" "session_trans s1 (Sent (frame m)) s2"
    "internal_step\<^sup>*\<^sup>* s2 (after_send m [] (left l))"
    using send_run [OF snd] by blast
  let ?l1 = "l\<lparr>left := s1\<rparr>"
  let ?l2 = "?l1\<lparr>left := s2, to_right := to_right ?l1 @ frame m\<rparr>"
  let ?l3 = "?l2\<lparr>left := after_send m [] (left l)\<rparr>"
  let ?r = "(right l)\<lparr>rx := rx (right l) @ frame m, arrived := arrived (right l) @ frame m\<rparr>"
  let ?l4 = "?l3\<lparr>right := ?r, to_right := []\<rparr>"
  have "link_step\<^sup>*\<^sup>* l ?l1" using left_run [OF r_into_rtranclp] run(1) by blast
  moreover have "link_step ?l1 ?l2"
    using link_trans.left_sends [of ?l1 "frame m" s2] run(2) by (auto simp: link_step_def)
  moreover have "link_step\<^sup>*\<^sup>* ?l2 ?l3" using left_run [OF run(3), of ?l2] by simp
  moreover have "link_step ?l3 ?l4"
    using link_trans.right_receives [of ?l3 "frame m" ?r "[]"]
      session_trans.bytes_arrive [OF rcv(1), of "frame m"] assms(10)
    by (auto simp: link_step_def)
  moreover have "link_step\<^sup>*\<^sup>* ?l4 (?l4\<lparr>right := after_receive m (f m) [] ?r\<rparr>)"
    using right_run [OF receive_run [of ?r f m "[]"], of ?l4] assms by simp
  ultimately have "link_step\<^sup>*\<^sup>* l (?l4\<lparr>right := after_receive m (f m) [] ?r\<rparr>)" by simp
  then show ?thesis using assms(4,8,10) by (cases l) (simp add: after_receive_def)
qed

text \<open>C8. The contract of the network layer. On a connection between two sessions, under any
  interleaving of both ends and of the network and with errors and closes at any time, the messages
  one end delivers are a prefix of those the other end accepted for writing, cut at the first one
  that is empty or above 10 MB. Once the sender has nothing left to write, the wire is empty and the
  receiver waits for more, they are all of them. (Messages of 4 GiB, whose length the header cannot
  hold, are excluded.)\<close>

theorem link_delivers_in_order:
  assumes "link_init l0" and "link_step\<^sup>*\<^sup>* l0 l"
    and "\<forall>m \<in> set (accepted (left l)). length m < 2 ^ 32"
  shows "prefix (delivered (right l)) (takeWhile deliverable (accepted (left l))) \<and>
    (sock_open (left l) \<and> writing (left l) = No_write \<and> to_right l = [] \<and>
       reading (right l) = Reading k \<and> length (rx (right l)) < length (read_buffer (right l)) \<longrightarrow>
     delivered (right l) = takeWhile deliverable (accepted (left l)))"
proof -
  from link.inv_reachable [OF assms(1,2)] have inv: "session_inv (left l)" "session_inv (right l)"
    and tx: "tx (left l) = arrived (right l) @ to_right l" by (simp_all add: link_inv_def)
  have "prefix (delivered (right l)) (takeWhile deliverable (accepted (left l)))"
    using inv tx assms(3) by (intro one_way [of "right l" "left l" "to_right l"])
      (simp_all add: session_inv_def)
  then show ?thesis
    using one_way_complete [OF inv(2,1)] tx assms(3) by simp
qed

theorem link_delivers_in_order_witness:
  "\<exists>l :: link. accepted (left l) = [[5, 6]] \<and> delivered (right l) = [[5, 6]]"
proof -
  let ?s = "start (\<lambda>m. []) True new_session"
  let ?l0 = "\<lparr>left = ?s, right = ?s, to_right = [], to_left = []\<rparr>"
  let ?l1 = "?l0\<lparr>left := async_write [5, 6] ?s\<rparr>"
  let ?l2 = "?l1\<lparr>left := after_send [5, 6] [] (left ?l1), right := after_receive [5, 6] [] []
    ((right ?l1)\<lparr>arrived := arrived (right ?l1) @ frame [5, 6]\<rparr>)\<rparr>"
  note defs = after_send_def after_receive_def start_def do_read_header_def new_session_def async_write_def
  have init: "link_init ?l0" by (auto simp: link_init_def session_init_def)
  have "link_step ?l0 ?l1"
    using link_trans.left_local [of ?l0 App] session_trans.app_write [of ?s "[5, 6]"]
    by (auto simp: link_step_def)
  moreover have "link_step\<^sup>*\<^sup>* ?l1 ?l2"
    using link_message_run [of ?l1 "[5, 6]" "\<lambda>m. []"]
    by (simp add: defs deliverable_def max_body_def)
  ultimately have run: "link_step\<^sup>*\<^sup>* ?l0 ?l2" by (rule rtranclp_head)
  show ?thesis
    by (rule exI [of _ ?l2]) (use link_delivers_in_order [OF init run, of Header] in
        \<open>simp add: defs deliverable_def max_body_def\<close>)
qed

end
