(* ===== verification/Messages.thy ===== *)
theory Messages
  imports Prelude
begin

text \<open>
  The wire messages of \<open>rpc/proto/base.proto\<close> and \<open>rpc/proto/method.proto\<close>, and the protobuf
  library as a parameter. The classes protobuf generates and its (de)serialisers are not in the
  repository: \<open>codec\<close> collects them as arguments of the model and \<open>codec_ok\<close> states the documented
  behaviour the code relies on (a message below the 2 GiB limit whose strings are valid UTF-8
  parses back to itself; sizes of small messages; a message with a set field is not empty).
\<close>

section \<open>Messages\<close>

text \<open>Proto3 enums are open: a field of the generated C++ class holds any \<open>int32\<close>, named or not, so
  the two enums are the words themselves with their names as constants.\<close>

type_synonym MethodType = i32
type_synonym StatusCode = i32

definition MET_UNKNOW :: MethodType where "MET_UNKNOW = 0"
definition MET_ADD :: MethodType where "MET_ADD = 1"
definition MET_DIV :: MethodType where "MET_DIV = 2"
definition MET_CALC_MATRIX :: MethodType where "MET_CALC_MATRIX = 3"

definition STATUS_UNKNOWN :: StatusCode where "STATUS_UNKNOWN = 0"
definition STATUS_OK :: StatusCode where "STATUS_OK = 1"
definition STATUS_BAD_REQUEST :: StatusCode where "STATUS_BAD_REQUEST = 2"
definition STATUS_METHOD_NOT_FOUND :: StatusCode where "STATUS_METHOD_NOT_FOUND = 3"
definition STATUS_PARSE_ERROR :: StatusCode where "STATUS_PARSE_ERROR = 4"
definition STATUS_INVOKE_ERROR :: StatusCode where "STATUS_INVOKE_ERROR = 5"
definition STATUS_INTERNAL_ERROR :: StatusCode where "STATUS_INTERNAL_ERROR = 6"

lemmas method_defs = MET_UNKNOW_def MET_ADD_def MET_DIV_def MET_CALC_MATRIX_def
lemmas status_defs = STATUS_UNKNOWN_def STATUS_OK_def STATUS_BAD_REQUEST_def
  STATUS_METHOD_NOT_FOUND_def STATUS_PARSE_ERROR_def STATUS_INVOKE_ERROR_def
  STATUS_INTERNAL_ERROR_def

lemma method_distinct [simp]:
  "MET_ADD \<noteq> MET_UNKNOW" "MET_DIV \<noteq> MET_UNKNOW" "MET_CALC_MATRIX \<noteq> MET_UNKNOW"
  "MET_DIV \<noteq> MET_ADD" "MET_CALC_MATRIX \<noteq> MET_ADD" "MET_CALC_MATRIX \<noteq> MET_DIV"
  "MET_ADD \<noteq> MET_DIV" "MET_ADD \<noteq> MET_CALC_MATRIX" "MET_DIV \<noteq> MET_CALC_MATRIX"
  by (simp_all add: method_defs)

lemma status_distinct [simp]:
  "STATUS_OK \<noteq> STATUS_UNKNOWN" "STATUS_METHOD_NOT_FOUND \<noteq> STATUS_UNKNOWN"
  "STATUS_PARSE_ERROR \<noteq> STATUS_UNKNOWN" "STATUS_INVOKE_ERROR \<noteq> STATUS_UNKNOWN"
  "STATUS_INTERNAL_ERROR \<noteq> STATUS_UNKNOWN" "STATUS_METHOD_NOT_FOUND \<noteq> STATUS_OK"
  "STATUS_PARSE_ERROR \<noteq> STATUS_OK" "STATUS_INVOKE_ERROR \<noteq> STATUS_OK"
  "STATUS_INTERNAL_ERROR \<noteq> STATUS_OK" "STATUS_METHOD_NOT_FOUND \<noteq> STATUS_PARSE_ERROR"
  "STATUS_INVOKE_ERROR \<noteq> STATUS_PARSE_ERROR" "STATUS_INTERNAL_ERROR \<noteq> STATUS_PARSE_ERROR"
  "STATUS_INVOKE_ERROR \<noteq> STATUS_INTERNAL_ERROR"
  by (simp_all add: status_defs)

record Request =
  req_id :: u64
  req_type :: MethodType
  req_body :: bytes

record Response =
  resp_id :: u64
  resp_status :: StatusCode
  resp_type :: MethodType
  resp_body :: bytes
  resp_error_message :: string

text \<open>A default-constructed \<open>Response\<close>: every field has its proto3 default.\<close>

definition empty_response :: Response where
  "empty_response = \<lparr>resp_id = 0, resp_status = STATUS_UNKNOWN, resp_type = MET_UNKNOW,
     resp_body = [], resp_error_message = []\<rparr>"

record add_args =
  add_left :: i32
  add_right :: i32

record div_args =
  div_left :: i32
  div_right :: i32

datatype int_list = Int_list (edge: "i32 list")

record calc_args =
  calc_left :: "int_list list"
  calc_right :: "int_list list"
  calc_times :: u32

text \<open>The \<open>result_type\<close> messages hold one \<open>ret\<close> field each.\<close>

datatype add_result = Add_result (add_ret: i32)
datatype div_result = Div_result (div_ret: i32)
datatype calc_result = Calc_result (calc_ret: "int_list list")


section \<open>The protobuf library\<close>

record codec =
  ser_Request :: "Request \<Rightarrow> bytes"
  parse_Request :: "bytes \<Rightarrow> Request option"
  ser_Response :: "Response \<Rightarrow> bytes"
  parse_Response :: "bytes \<Rightarrow> Response option"
  ser_add :: "add_args \<Rightarrow> bytes"
  parse_add :: "bytes \<Rightarrow> add_args option"
  ser_add_result :: "add_result \<Rightarrow> bytes"
  parse_add_result :: "bytes \<Rightarrow> add_result option"
  ser_div :: "div_args \<Rightarrow> bytes"
  parse_div :: "bytes \<Rightarrow> div_args option"
  ser_div_result :: "div_result \<Rightarrow> bytes"
  parse_div_result :: "bytes \<Rightarrow> div_result option"
  ser_calc :: "calc_args \<Rightarrow> bytes"
  parse_calc :: "bytes \<Rightarrow> calc_args option"
  ser_calc_result :: "calc_result \<Rightarrow> bytes"
  parse_calc_result :: "bytes \<Rightarrow> calc_result option"

text \<open>ASCII strings are valid UTF-8, which proto3 asks of a \<open>string\<close> field.\<close>

definition ascii :: "string \<Rightarrow> bool" where
  "ascii s \<longleftrightarrow> (\<forall>c \<in> set s. of_char c < (128 :: nat))"

text \<open>Rows and entries of a matrix message, the measure of its encoded size.\<close>

definition weight :: "int_list list \<Rightarrow> nat" where
  "weight rows = (\<Sum>row \<leftarrow> rows. 1 + length (edge row))"

definition envelope_laws :: "codec \<Rightarrow> bool" where
  "envelope_laws C \<longleftrightarrow>
     (\<forall>r. length (req_body r) < 2 ^ 30 \<longrightarrow> parse_Request C (ser_Request C r) = Some r) \<and>
     (\<forall>r. length (resp_body r) < 2 ^ 30 \<and> length (resp_error_message r) < 2 ^ 30 \<and>
        ascii (resp_error_message r) \<longrightarrow> parse_Response C (ser_Response C r) = Some r) \<and>
     (\<forall>r. length (ser_Request C r) \<le> length (req_body r) + 64) \<and>
     (\<forall>r. length (ser_Response C r) \<le> length (resp_body r) + length (resp_error_message r) + 64) \<and>
     (\<forall>r. req_type r \<noteq> MET_UNKNOW \<longrightarrow> ser_Request C r \<noteq> []) \<and>
     (\<forall>r. resp_status r \<noteq> STATUS_UNKNOWN \<longrightarrow> ser_Response C r \<noteq> [])"

definition scalar_laws :: "codec \<Rightarrow> bool" where
  "scalar_laws C \<longleftrightarrow>
     (\<forall>m. parse_add C (ser_add C m) = Some m \<and> length (ser_add C m) \<le> 32) \<and>
     (\<forall>m. parse_add_result C (ser_add_result C m) = Some m \<and> length (ser_add_result C m) \<le> 32) \<and>
     (\<forall>m. parse_div C (ser_div C m) = Some m \<and> length (ser_div C m) \<le> 32) \<and>
     (\<forall>m. parse_div_result C (ser_div_result C m) = Some m \<and> length (ser_div_result C m) \<le> 32)"

definition matrix_laws :: "codec \<Rightarrow> bool" where
  "matrix_laws C \<longleftrightarrow>
     (\<forall>m. weight (calc_left m) + weight (calc_right m) < 2 ^ 25 \<longrightarrow>
        parse_calc C (ser_calc C m) = Some m) \<and>
     (\<forall>m. weight (calc_ret m) < 2 ^ 25 \<longrightarrow>
        parse_calc_result C (ser_calc_result C m) = Some m) \<and>
     (\<forall>m. length (ser_calc C m) \<le> 16 * (weight (calc_left m) + weight (calc_right m)) + 32) \<and>
     (\<forall>m. length (ser_calc_result C m) \<le> 16 * weight (calc_ret m) + 32)"

definition codec_ok :: "codec \<Rightarrow> bool" where
  "codec_ok C \<longleftrightarrow> envelope_laws C \<and> scalar_laws C \<and> matrix_laws C"

named_theorems codec_laws \<comment> \<open>what a codec that satisfies the laws does\<close>

lemma codec_ok_scalar [codec_laws]:
  assumes "codec_ok C"
  shows "parse_add C (ser_add C a) = Some a" "length (ser_add C a) \<le> 32"
    "parse_add_result C (ser_add_result C b) = Some b" "length (ser_add_result C b) \<le> 32"
    "parse_div C (ser_div C c) = Some c" "length (ser_div C c) \<le> 32"
    "parse_div_result C (ser_div_result C d) = Some d" "length (ser_div_result C d) \<le> 32"
  using assms by (simp_all add: codec_ok_def scalar_laws_def)

lemma codec_ok_matrix [codec_laws]:
  assumes "codec_ok C"
  shows "weight (calc_left m) + weight (calc_right m) < 2 ^ 25 \<Longrightarrow>
      parse_calc C (ser_calc C m) = Some m"
    and "weight (calc_ret r) < 2 ^ 25 \<Longrightarrow> parse_calc_result C (ser_calc_result C r) = Some r"
    and "length (ser_calc C m) \<le> 16 * (weight (calc_left m) + weight (calc_right m)) + 32"
    and "length (ser_calc_result C r) \<le> 16 * weight (calc_ret r) + 32"
  using assms by (simp_all add: codec_ok_def matrix_laws_def)

lemma codec_ok_envelope [codec_laws]:
  assumes "codec_ok C"
  shows "length (req_body q) < 2 ^ 30 \<Longrightarrow> parse_Request C (ser_Request C q) = Some q"
    and "length (resp_body r) < 2 ^ 30 \<Longrightarrow> length (resp_error_message r) < 2 ^ 30 \<Longrightarrow>
      ascii (resp_error_message r) \<Longrightarrow> parse_Response C (ser_Response C r) = Some r"
    and "length (ser_Request C q) \<le> length (req_body q) + 64"
    and "length (ser_Response C r) \<le> length (resp_body r) + length (resp_error_message r) + 64"
    and "req_type q \<noteq> MET_UNKNOW \<Longrightarrow> ser_Request C q \<noteq> []"
    and "resp_status r \<noteq> STATUS_UNKNOWN \<Longrightarrow> ser_Response C r \<noteq> []"
  using assms by (simp_all add: codec_ok_def envelope_laws_def)

end
