(* ===== verification/Matrix.thy ===== *)
theory Matrix
  imports Prelude
begin

text \<open>
  The business functions of \<open>rpc/method/operation.cpp\<close> (namespace \<open>operation::impl\<close>): \<open>add\<close>,
  \<open>div\<close>, the matrix loop \<open>multiply\<close> and \<open>calc_matrix\<close>, on 32-bit \<open>int\<close> with signed overflow,
  division faults and unchecked \<open>operator[]\<close> as undefined behaviour. The results: the exact domain
  on which each is defined, the value there, and bounds that guarantee it.
\<close>

section \<open>Signed arithmetic of int\<close>

definition int_result :: "int \<Rightarrow> i32 outcome" where
  "int_result r = (if in_int r then Ret (to_i32 r) else UB Signed_overflow)"

definition impl_add :: "i32 \<Rightarrow> i32 \<Rightarrow> i32 outcome" where
  "impl_add left right = int_result (sint left + sint right)"

text \<open>C++ division truncates towards zero; \<open>INT_MIN / -1\<close> does not fit and is undefined.\<close>

definition impl_div :: "i32 \<Rightarrow> i32 \<Rightarrow> i32 outcome" where
  "impl_div left right =
     (if right = 0 then UB Division_by_zero else int_result (sint left sdiv sint right))"

definition int_times :: "i32 \<Rightarrow> i32 \<Rightarrow> i32 outcome" where
  "int_times a b = int_result (sint a * sint b)"

lemma int_result_Ret [simp]: "int_result r = Ret v \<longleftrightarrow> in_int r \<and> v = to_i32 r"
  by (auto simp: int_result_def)

lemma int_result_no_throw [simp]: "int_result r \<noteq> Throw e"
  by (simp add: int_result_def)


section \<open>The matrix loops\<close>

type_synonym matrix = "i32 list list"

definition mat_at :: "matrix \<Rightarrow> nat \<Rightarrow> nat \<Rightarrow> i32 outcome" where
  "mat_at M i j = obind (vec_at M i) (\<lambda>row. vec_at row j)"

text \<open>The loop body \<open>C[i][j] += A[i][k] * B[k][j]\<close>: the right operand is evaluated first.\<close>

definition mul_acc :: "matrix \<Rightarrow> matrix \<Rightarrow> nat \<Rightarrow> nat \<Rightarrow> nat \<Rightarrow> matrix \<Rightarrow> matrix outcome" where
  "mul_acc A B i k j C =
     obind (mat_at A i k) (\<lambda>a.
     obind (mat_at B k j) (\<lambda>b.
     obind (int_times a b) (\<lambda>p.
     obind (mat_at C i j) (\<lambda>c.
     obind (impl_add c p) (\<lambda>v. Ret (C[i := (C ! i)[j := v]]))))))"

definition multiply :: "matrix \<Rightarrow> matrix \<Rightarrow> matrix outcome" where
  "multiply A B =
     (let n = length A in
      for_loop (\<lambda>i. for_loop (\<lambda>k. for_loop (\<lambda>j. mul_acc A B i k j) [0..<n]) [0..<n]) [0..<n]
        (replicate n (replicate n 0)))"

definition calc_matrix :: "matrix \<Rightarrow> matrix \<Rightarrow> i32 \<Rightarrow> matrix outcome" where
  "calc_matrix left right ntimes =
     (if sint ntimes \<le> 0 then Ret left
      else for_loop (\<lambda>t result. multiply result right) [0..<nat (sint ntimes)] left)"


section \<open>The specification: integer matrices\<close>

type_synonym int_matrix = "int list list"

definition tabulate :: "nat \<Rightarrow> (nat \<Rightarrow> nat \<Rightarrow> 'a) \<Rightarrow> 'a list list" where
  "tabulate n f = map (\<lambda>i. map (f i) [0..<n]) [0..<n]"

definition ints_of :: "matrix \<Rightarrow> int_matrix" where
  "ints_of M = map (map sint) M"

definition mat_mult :: "nat \<Rightarrow> int_matrix \<Rightarrow> int_matrix \<Rightarrow> int_matrix" where
  "mat_mult n A B = tabulate n (\<lambda>i j. \<Sum>k<n. A ! i ! k * B ! k ! j)"

definition mat_one :: "nat \<Rightarrow> int_matrix" where
  "mat_one n = tabulate n (\<lambda>i j. if i = j then 1 else 0)"

fun mat_pow :: "nat \<Rightarrow> int_matrix \<Rightarrow> nat \<Rightarrow> int_matrix" where
  "mat_pow n R 0 = mat_one n"
| "mat_pow n R (Suc t) = mat_mult n (mat_pow n R t) R"

definition square :: "nat \<Rightarrow> 'a list list \<Rightarrow> bool" where
  "square n M \<longleftrightarrow> length M = n \<and> (\<forall>row \<in> set M. length row = n)"

text \<open>What the code reads of a matrix: at least \<open>n\<close> rows, each with at least \<open>n\<close> entries.\<close>

definition covers :: "nat \<Rightarrow> 'a list list \<Rightarrow> bool" where
  "covers n M \<longleftrightarrow> n \<le> length M \<and> (\<forall>i<n. n \<le> length (M ! i))"

lemma square_covers: "square n M \<Longrightarrow> covers n M"
  by (auto simp: square_def covers_def)

lemma length_tabulate [simp]: "length (tabulate n f) = n"
  by (simp add: tabulate_def)

lemma tabulate_nth [simp]: "i < n \<Longrightarrow> tabulate n f ! i = map (f i) [0..<n]"
  by (simp add: tabulate_def)

lemma tabulate_cong:
  "(\<And>i j. i < n \<Longrightarrow> j < n \<Longrightarrow> f i j = g i j) \<Longrightarrow> tabulate n f = tabulate n g"
  by (simp add: tabulate_def)

lemma tabulate_const: "tabulate n (\<lambda>i j. c) = replicate n (replicate n c)"
  by (simp add: tabulate_def map_replicate_const)

lemma tabulate_update:
  assumes "i < n" "j < n"
  shows "(tabulate n f)[i := (tabulate n f ! i)[j := v]] = tabulate n (f(i := (f i)(j := v)))"
  using assms by (auto simp: list_eq_iff_nth_eq nth_list_update)

lemma square_tabulate [simp]: "square n (tabulate n f)"
  by (auto simp: square_def tabulate_def)

lemma covers_tabulate [simp]: "covers n (tabulate n f)"
  by (simp add: square_covers)

lemma square_eq_tabulate: "square n M \<Longrightarrow> M = tabulate n (\<lambda>i j. M ! i ! j)"
  by (auto simp: square_def list_eq_iff_nth_eq)

lemma ints_of_tabulate: "ints_of (tabulate n f) = tabulate n (\<lambda>i j. sint (f i j))"
  by (simp add: ints_of_def tabulate_def)

lemma inj_sint_i32: "inj (sint :: i32 \<Rightarrow> int)"
  by (rule inj_on_inverseI [of _ to_i32]) simp

lemma ints_of_inject: "ints_of M = ints_of N \<longleftrightarrow> M = N"
  by (simp add: ints_of_def inj_sint_i32 inj_map_eq_map)

lemma ints_of_nth: "covers n M \<Longrightarrow> i < n \<Longrightarrow> j < n \<Longrightarrow> ints_of M ! i ! j = sint (M ! i ! j)"
  by (fastforce simp: covers_def ints_of_def)

lemma length_ints_of [simp]: "length (ints_of M) = length M"
  by (simp add: ints_of_def)

lemma covers_ints_of [simp]: "covers n (ints_of M) = covers n M"
  by (auto simp: covers_def ints_of_def)

lemma square_ints_of [simp]: "square n (ints_of M) = square n M"
  by (auto simp: square_def ints_of_def)



section \<open>What the loop computes, round by round\<close>

text \<open>The sum of the first \<open>k\<close> products of entry \<open>(i, j)\<close>, over the integers.\<close>

definition psum :: "matrix \<Rightarrow> matrix \<Rightarrow> nat \<Rightarrow> nat \<Rightarrow> nat \<Rightarrow> int" where
  "psum A B i j k = (\<Sum>k'<k. sint (A ! i ! k') * sint (B ! k' ! j))"

text \<open>Round \<open>(i, k, j)\<close> is free of overflow: the product and the new partial sum both fit.\<close>

definition round_fits :: "matrix \<Rightarrow> matrix \<Rightarrow> nat \<Rightarrow> nat \<Rightarrow> nat \<Rightarrow> bool" where
  "round_fits A B i k j \<longleftrightarrow>
     in_int (sint (A ! i ! k) * sint (B ! k ! j)) \<and> in_int (psum A B i j (Suc k))"

definition product_fits :: "matrix \<Rightarrow> matrix \<Rightarrow> bool" where
  "product_fits A B \<longleftrightarrow>
     (\<forall>i<length A. \<forall>k<length A. \<forall>j<length A. round_fits A B i k j)"

definition loop_state :: "matrix \<Rightarrow> matrix \<Rightarrow> nat \<Rightarrow> nat \<Rightarrow> nat \<Rightarrow> matrix" where
  "loop_state A B i k j = tabulate (length A) (\<lambda>i' j'. to_i32 (psum A B i' j'
     (if i' < i then length A else if i' = i then (if j' < j then Suc k else k) else 0)))"

lemma psum_0 [simp]: "psum A B i j 0 = 0"
  by (simp add: psum_def)

lemma psum_Suc: "psum A B i j (Suc k) = psum A B i j k + sint (A ! i ! k) * sint (B ! k ! j)"
  by (simp add: psum_def)

lemma mat_at_covers [simp]: "covers n M \<Longrightarrow> i < n \<Longrightarrow> j < n \<Longrightarrow> mat_at M i j = Ret (M ! i ! j)"
  by (auto simp: mat_at_def covers_def vec_at_def)

lemma mul_acc_round:
  assumes cov: "covers (length A) A" "covers (length A) B"
    and idx: "i < length A" "k < length A" "j < length A" and fit: "in_int (psum A B i j k)"
  shows "mul_acc A B i k j (loop_state A B i k j) =
    (if round_fits A B i k j then Ret (loop_state A B i k (Suc j)) else UB Signed_overflow)"
proof -
  let ?a = "sint (A ! i ! k)" and ?b = "sint (B ! k ! j)" and ?C = "loop_state A B i k j"
  have C: "covers (length A) ?C" by (simp add: loop_state_def)
  have c: "?C ! i ! j = to_i32 (psum A B i j k)"
    using idx by (simp add: loop_state_def)
  have upd: "?C[i := (?C ! i)[j := to_i32 (psum A B i j (Suc k))]] = loop_state A B i k (Suc j)"
    unfolding loop_state_def tabulate_update [OF idx(1,3)] by (rule tabulate_cong) auto
  show ?thesis
  proof (cases "in_int (?a * ?b)")
    case True
    then show ?thesis
      using cov idx C fit upd
      by (auto simp: mul_acc_def round_fits_def int_times_def impl_add_def int_result_def c psum_Suc)
  next
    case False
    then show ?thesis
      using cov idx by (simp add: mul_acc_def round_fits_def int_times_def int_result_def)
  qed
qed

lemma loop_state_next_k:
  assumes "i < length A"
  shows "loop_state A B i k (length A) = loop_state A B i (Suc k) 0"
  unfolding loop_state_def by (rule tabulate_cong) simp

lemma loop_state_next_i: "loop_state A B i (length A) 0 = loop_state A B (Suc i) 0 0"
  unfolding loop_state_def by (rule tabulate_cong) auto

lemma j_loop:
  assumes "covers (length A) A" "covers (length A) B" "i < length A" "k < length A"
    and "\<forall>k'<k. \<forall>j<length A. round_fits A B i k' j"
  shows "for_loop (\<lambda>j. mul_acc A B i k j) [0..<length A] (loop_state A B i k 0) =
    (if \<forall>j<length A. round_fits A B i k j then Ret (loop_state A B i (Suc k) 0)
     else UB Signed_overflow)"
proof -
  have "in_int (psum A B i j k)" if "j < length A" for j
    using assms(5) that by (cases k) (auto simp: round_fits_def)
  then have "mul_acc A B i k j (loop_state A B i k j) =
      (if round_fits A B i k j then Ret (loop_state A B i k (Suc j)) else UB Signed_overflow)"
    if "j < length A" for j
    using mul_acc_round assms(1-4) that by blast
  then show ?thesis
    unfolding loop_state_next_k [OF assms(3), symmetric] by (intro for_loop_guarded)
qed

lemma k_loop:
  assumes "covers (length A) A" "covers (length A) B" "i < length A"
  shows "for_loop (\<lambda>k. for_loop (\<lambda>j. mul_acc A B i k j) [0..<length A]) [0..<length A]
      (loop_state A B i 0 0) =
    (if \<forall>k<length A. \<forall>j<length A. round_fits A B i k j then Ret (loop_state A B (Suc i) 0 0)
     else UB Signed_overflow)"
proof -
  have "for_loop (\<lambda>k. for_loop (\<lambda>j. mul_acc A B i k j) [0..<length A]) [0..<length A]
      (loop_state A B i 0 0) =
    (if \<forall>k<length A. \<forall>j<length A. round_fits A B i k j then Ret (loop_state A B i (length A) 0)
     else UB Signed_overflow)"
    by (rule for_loop_guarded [of "length A" "\<lambda>k. \<forall>j<length A. round_fits A B i k j"
          "\<lambda>k. for_loop (\<lambda>j. mul_acc A B i k j) [0..<length A]" "\<lambda>k. loop_state A B i k 0",
          OF j_loop [OF assms]])
  then show ?thesis by (simp only: loop_state_next_i)
qed

lemma multiply_covers:
  assumes "covers (length A) A" "covers (length A) B"
  shows "multiply A B =
    (if product_fits A B then Ret (tabulate (length A) (\<lambda>i j. to_i32 (psum A B i j (length A))))
     else UB Signed_overflow)"
proof -
  have start: "replicate (length A) (replicate (length A) 0) = loop_state A B 0 0 0"
    unfolding loop_state_def tabulate_const [symmetric] by (rule tabulate_cong) simp
  have stop: "loop_state A B (length A) 0 0 =
      tabulate (length A) (\<lambda>i j. to_i32 (psum A B i j (length A)))"
    unfolding loop_state_def by (rule tabulate_cong) auto
  show ?thesis
    unfolding multiply_def Let_def start product_fits_def stop [symmetric]
    by (rule for_loop_guarded [of "length A"
          "\<lambda>i. \<forall>k<length A. \<forall>j<length A. round_fits A B i k j"
          "\<lambda>i. for_loop (\<lambda>k. for_loop (\<lambda>j. mul_acc A B i k j) [0..<length A]) [0..<length A]"
          "\<lambda>i. loop_state A B i 0 0", OF k_loop [OF assms]])
qed

text \<open>A matrix the loop cannot read in full makes it read out of range (or overflow before that).\<close>

lemma mul_acc_reads: "mul_acc A B i k j C = Ret C' \<Longrightarrow>
    k < length (A ! i) \<and> k < length B \<and> j < length (B ! k)"
  by (auto simp: mul_acc_def obind_eq_Ret mat_at_def vec_at_def split: if_splits)

lemma multiply_Ret_covers:
  assumes "multiply A B = Ret C"
  shows "covers (length A) A \<and> covers (length A) B"
proof -
  have reads: "k < length (A ! i) \<and> k < length B \<and> j < length (B ! k)"
    if idx: "i < length A" "k < length A" "j < length A" for i j k
  proof -
    let ?J = "\<lambda>i k. for_loop (\<lambda>j. mul_acc A B i k j) [0..<length A]"
    note assms [unfolded multiply_def Let_def]
    from for_loop_stuck [OF this idx(1)]
    obtain C1 C2 where "for_loop (?J i) [0..<length A] C1 = Ret C2" by blast
    from for_loop_stuck [OF this idx(2)] obtain C3 C4 where "?J i k C3 = Ret C4" by blast
    from for_loop_stuck [OF this idx(3)] show ?thesis by (blast dest: mul_acc_reads)
  qed
  show ?thesis
  proof (cases "length A = 0")
    case True
    then show ?thesis by (simp add: covers_def)
  next
    case False
    then have last: "length A - 1 < length A" by simp
    have "length A \<le> length (A ! i)" if "i < length A" for i
      using reads [OF that last last] by linarith
    moreover have "length A \<le> length (B ! k)" if "k < length A" for k
      using reads [OF last that last] by linarith
    moreover have "length A \<le> length B"
      using reads [OF last last last] by linarith
    ultimately show ?thesis by (simp add: covers_def)
  qed
qed

lemma psum_ints:
  assumes "covers (length A) A" "covers (length A) B" "i < length A" "j < length A"
  shows "psum A B i j (length A) = (\<Sum>k<length A. ints_of A ! i ! k * ints_of B ! k ! j)"
  unfolding psum_def by (rule sum.cong) (use assms in \<open>simp_all add: ints_of_nth\<close>)

lemma product_fits_sum:
  assumes "product_fits A B" "i < length A" "j < length A"
  shows "in_int (psum A B i j (length A))"
proof -
  from assms(2) obtain m where m: "length A = Suc m" by (cases "length A") auto
  then have "round_fits A B i m j" using assms by (simp add: product_fits_def)
  then show ?thesis using m by (simp add: round_fits_def)
qed

lemma multiply_ints:
  assumes "multiply A B = Ret C"
  shows "square (length A) C \<and> ints_of C = mat_mult (length A) (ints_of A) (ints_of B)"
proof -
  have cov: "covers (length A) A" "covers (length A) B"
    using multiply_Ret_covers [OF assms] by auto
  then have fits: "product_fits A B"
    and C: "C = tabulate (length A) (\<lambda>i j. to_i32 (psum A B i j (length A)))"
    using assms by (auto simp: multiply_covers split: if_splits)
  have "ints_of C = mat_mult (length A) (ints_of A) (ints_of B)"
    unfolding C ints_of_tabulate mat_mult_def
    by (rule tabulate_cong)
       (simp add: product_fits_sum [OF fits] psum_ints [OF cov, symmetric])
  then show ?thesis by (simp add: C)
qed



section \<open>Powers\<close>

text \<open>\<open>calc_matrix\<close> multiplies from the left, one factor at a time; the source's comment promises
  \<open>left * right^times\<close>. The two agree by associativity.\<close>

lemma square_mat_mult [simp]: "square n (mat_mult n A B)"
  by (simp add: mat_mult_def)

lemma square_mat_pow [simp]: "square n (mat_pow n R t)"
  by (cases t) (simp_all add: mat_one_def)

lemma mat_mult_assoc: "mat_mult n (mat_mult n A B) C = mat_mult n A (mat_mult n B C)"
  unfolding mat_mult_def
proof (rule tabulate_cong)
  fix i j assume ij: "i < n" "j < n"
  have "(\<Sum>k<n. (\<Sum>l<n. A ! i ! l * B ! l ! k) * C ! k ! j) =
      (\<Sum>k<n. \<Sum>l<n. A ! i ! l * (B ! l ! k * C ! k ! j))"
    by (simp add: sum_distrib_right mult.assoc)
  also have "\<dots> = (\<Sum>l<n. \<Sum>k<n. A ! i ! l * (B ! l ! k * C ! k ! j))"
    by (rule sum.swap)
  also have "\<dots> = (\<Sum>l<n. A ! i ! l * (\<Sum>k<n. B ! l ! k * C ! k ! j))"
    by (simp add: sum_distrib_left)
  finally show "(\<Sum>k<n. tabulate n (\<lambda>i j. \<Sum>k<n. A ! i ! k * B ! k ! j) ! i ! k * C ! k ! j) =
      (\<Sum>k<n. A ! i ! k * tabulate n (\<lambda>i j. \<Sum>k<n. B ! i ! k * C ! k ! j) ! k ! j)"
    using ij by simp
qed

lemma mat_mult_one: "square n A \<Longrightarrow> mat_mult n A (mat_one n) = A"
  by (subst (2) square_eq_tabulate [of n A], assumption)
     (auto simp: mat_mult_def mat_one_def if_distrib [of "(*) _"] cong: if_cong intro!: tabulate_cong)

abbreviation calc_loop :: "matrix \<Rightarrow> nat \<Rightarrow> matrix \<Rightarrow> matrix outcome" where
  "calc_loop right t \<equiv> for_loop (\<lambda>t result. multiply result right) [0..<t]"

lemma calc_loop_ints:
  assumes "calc_loop R t L = Ret X" and "square (length L) L"
  shows "square (length L) X \<and>
    ints_of X = mat_mult (length L) (ints_of L) (mat_pow (length L) (ints_of R) t)"
  using assms(1)
proof (induction t arbitrary: X)
  case 0
  with assms(2) show ?case by (simp add: mat_mult_one)
next
  case (Suc t)
  then obtain Y where Y: "calc_loop R t L = Ret Y" and XY: "multiply Y R = Ret X"
    by (auto simp: for_loop_upt_Suc obind_eq_Ret simp del: upt_Suc)
  from Suc.IH [OF Y] have "length Y = length L" by (simp add: square_def)
  with Suc.IH [OF Y] multiply_ints [OF XY] show ?case by (simp add: mat_mult_assoc)
qed

text \<open>Bounds: entries of size at most \<open>a\<close> and \<open>b\<close> give entries of size at most \<open>n * a * b\<close>.\<close>

definition bounded :: "nat \<Rightarrow> int \<Rightarrow> matrix \<Rightarrow> bool" where
  "bounded n a M \<longleftrightarrow> (\<forall>i<n. \<forall>j<n. \<bar>sint (M ! i ! j)\<bar> \<le> a)"

lemma psum_bound:
  assumes "bounded n a A" "bounded n b B" "i < n" "j < n" "k \<le> n"
  shows "\<bar>psum A B i j k\<bar> \<le> int k * (a * b)"
proof -
  have "\<bar>psum A B i j k\<bar> \<le> (\<Sum>k'<k. \<bar>sint (A ! i ! k') * sint (B ! k' ! j)\<bar>)"
    unfolding psum_def by (rule sum_abs)
  also have "\<dots> \<le> (\<Sum>k'<k. a * b)"
  proof (rule sum_mono)
    fix k' assume "k' \<in> {..<k}"
    then have "\<bar>sint (A ! i ! k')\<bar> \<le> a" "\<bar>sint (B ! k' ! j)\<bar> \<le> b"
      using assms by (auto simp: bounded_def)
    then show "\<bar>sint (A ! i ! k') * sint (B ! k' ! j)\<bar> \<le> a * b"
      unfolding abs_mult by (intro mult_mono) auto
  qed
  finally show ?thesis by simp
qed

lemma bounded_nonneg: "bounded n a A \<Longrightarrow> 0 < n \<Longrightarrow> 0 \<le> a"
  unfolding bounded_def by (meson abs_ge_zero order_trans)

lemma multiply_bounded:
  assumes cov: "covers (length A) A" "covers (length A) B"
    and bnd: "bounded (length A) a A" "bounded (length A) b B"
    and small: "int (length A) * (a * b) \<le> int_max"
  shows "\<exists>C. multiply A B = Ret C \<and> square (length A) C \<and>
    bounded (length A) (int (length A) * (a * b)) C"
proof -
  let ?n = "length A"
  have fit: "in_int (psum A B i j k)" if "i < ?n" "j < ?n" "k \<le> ?n" for i j k
  proof (rule in_int_abs_le)
    have "0 \<le> a * b"
      using bnd [THEN bounded_nonneg] that by (cases A) auto
    then have "int k * (a * b) \<le> int ?n * (a * b)"
      using that by (intro mult_right_mono) auto
    then show "\<bar>psum A B i j k\<bar> \<le> int_max"
      using psum_bound [OF bnd that] small by linarith
  qed
  have prod: "in_int (sint (A ! i ! k) * sint (B ! k ! j))" if "i < ?n" "k < ?n" "j < ?n" for i j k
  proof (rule in_int_abs_le)
    have n: "0 < ?n" using that by linarith
    have ab: "0 \<le> a" "0 \<le> b" using bnd [THEN bounded_nonneg] n by auto
    have "\<bar>sint (A ! i ! k) * sint (B ! k ! j)\<bar> \<le> a * b"
      unfolding abs_mult using bnd that ab by (intro mult_mono) (auto simp: bounded_def)
    also have "\<dots> \<le> int ?n * (a * b)"
      using mult_right_mono [of 1 "int ?n" "a * b"] ab n by simp
    finally show "\<bar>sint (A ! i ! k) * sint (B ! k ! j)\<bar> \<le> int_max"
      using small by linarith
  qed
  have "product_fits A B"
    using fit prod by (simp add: product_fits_def round_fits_def)
  then have "multiply A B = Ret (tabulate ?n (\<lambda>i j. to_i32 (psum A B i j ?n)))"
    by (simp add: multiply_covers cov)
  then show ?thesis
    using fit psum_bound [OF bnd] by (simp add: bounded_def)
qed

lemma calc_loop_bounded:
  assumes L: "square (length L) L" "bounded (length L) a L"
    and R: "covers (length L) R" "bounded (length L) b R"
    and small: "\<And>s. s \<le> t \<Longrightarrow> a * (int (length L) * b) ^ s \<le> int_max"
  shows "\<exists>X. calc_loop R t L = Ret X \<and> bounded (length L) (a * (int (length L) * b) ^ t) X"
  using small
proof (induction t)
  case 0
  with L show ?case by simp
next
  case (Suc t)
  then obtain Y where Y: "calc_loop R t L = Ret Y"
    and bY: "bounded (length L) (a * (int (length L) * b) ^ t) Y" by auto
  from calc_loop_ints [OF Y L(1)] have sq: "square (length L) Y" by simp
  then have len: "length Y = length L" by (simp add: square_def)
  have pow: "int (length L) * (a * (int (length L) * b) ^ t * b) = a * (int (length L) * b) ^ Suc t"
    by simp
  from multiply_bounded [of Y R "a * (int (length L) * b) ^ t" b] sq R bY Suc.prems [of "Suc t"]
  show ?case
    unfolding len pow for_loop_upt_Suc Y by (auto simp: square_covers)
qed


section \<open>Properties\<close>

lemma abs_sdiv: "\<bar>x sdiv y\<bar> = \<bar>x :: int\<bar> div \<bar>y\<bar>"
  by (cases "x = 0") (simp_all add: signed_divide_int_def abs_mult abs_sgn_eq pos_imp_zdiv_nonneg_iff)

lemma sdiv_in_int:
  assumes "in_int x" and "y \<noteq> 0"
  shows "in_int (x sdiv y) \<longleftrightarrow> \<not> (x = int_min \<and> y = - 1)"
proof (cases "\<bar>y\<bar> = 1")
  case True
  then have "y = 1 \<or> y = - 1" by auto
  then show ?thesis
    using assms by (auto simp: signed_divide_int_def in_int_defs mult_sgn_abs)
next
  case False
  with assms(2) have "2 \<le> \<bar>y\<bar>" by linarith
  then have "\<bar>x sdiv y\<bar> \<le> \<bar>x\<bar> div 2"
    unfolding abs_sdiv by (intro zdiv_mono2) auto
  moreover have "\<bar>x\<bar> div 2 \<le> int_max"
    using assms(1) by (auto simp: in_int_defs)
  ultimately have "in_int (x sdiv y)" by (intro in_int_abs_le) linarith
  with False show ?thesis by auto
qed

text \<open>\<open>operation::impl::div\<close> returns exactly when the divisor is not zero and the pair is not
  \<open>INT_MIN / -1\<close>; the quotient is then the one truncated towards zero. In the two other cases
  the C++ expression has undefined behaviour (it neither returns nor throws).\<close>

lemma impl_div_exact:
  "impl_div l r = Ret q \<longleftrightarrow>
     r \<noteq> 0 \<and> \<not> (sint l = int_min \<and> sint r = - 1) \<and> sint q = sint l sdiv sint r"
proof (cases "r = 0")
  case True
  then show ?thesis by (simp add: impl_div_def)
next
  case False
  then have "sint r \<noteq> 0" by (metis to_i32_0 to_i32_sint)
  note fits = sdiv_in_int [OF sint_in_int this, of l]
  have "q = to_i32 (sint l sdiv sint r) \<longleftrightarrow> sint q = sint l sdiv sint r"
    if "in_int (sint l sdiv sint r)"
    using that by (metis sint_to_i32 to_i32_sint)
  with False fits show ?thesis by (auto simp: impl_div_def int_result_def)
qed

text \<open>C20. \<open>multiply\<close> returns exactly when both operands have the rows and columns the loops read (at
  least \<open>n = A.size()\<close> of each) and no product or partial sum overflows; the result is then the
  \<open>n\<close> by \<open>n\<close> matrix product. In every other case the code has undefined behaviour.\<close>

theorem multiply_exact:
  "multiply A B = Ret C \<longleftrightarrow>
     covers (length A) A \<and> covers (length A) B \<and> product_fits A B \<and>
     square (length A) C \<and> ints_of C = mat_mult (length A) (ints_of A) (ints_of B)"
proof
  assume C: "multiply A B = Ret C"
  with multiply_Ret_covers [OF C] multiply_ints [OF C] show
    "covers (length A) A \<and> covers (length A) B \<and> product_fits A B \<and>
     square (length A) C \<and> ints_of C = mat_mult (length A) (ints_of A) (ints_of B)"
    by (auto simp: multiply_covers split: if_splits)
next
  assume R: "covers (length A) A \<and> covers (length A) B \<and> product_fits A B \<and>
     square (length A) C \<and> ints_of C = mat_mult (length A) (ints_of A) (ints_of B)"
  then obtain D where D: "multiply A B = Ret D" by (simp add: multiply_covers)
  from multiply_ints [OF D] R have "ints_of D = ints_of C" by simp
  then show "multiply A B = Ret C" using D by (simp add: ints_of_inject)
qed

text \<open>Whenever \<open>calc_matrix\<close> returns on a square \<open>left\<close>, its result is \<open>left * right^times\<close> over
  the integers, as the source's comment says, with no wrapped entry (\<open>times\<close> at most 0 gives
  \<open>right^0\<close>, so \<open>left\<close> itself).\<close>

lemma calc_matrix_power:
  assumes "calc_matrix L R k = Ret X" and "square (length L) L"
  shows "ints_of X = mat_mult (length L) (ints_of L) (mat_pow (length L) (ints_of R) (nat (sint k)))"
proof (cases "sint k \<le> 0")
  case True
  with assms show ?thesis by (simp add: calc_matrix_def mat_mult_one)
next
  case False
  with assms show ?thesis
    using calc_loop_ints [of R "nat (sint k)" L X] by (simp add: calc_matrix_def)
qed

text \<open>C21. \<open>calc_matrix\<close> does return (no overflow, no read out of range) when \<open>left\<close> is square of size
  \<open>n\<close>, \<open>right\<close> has at least \<open>n\<close> rows and columns, the entries are bounded by \<open>a\<close> and \<open>b\<close>, and
  \<open>a * (n * b)^s\<close> stays within \<open>INT_MAX\<close> for every \<open>s\<close> up to \<open>times\<close>.\<close>

theorem calc_matrix_returns:
  assumes "square (length L) L" "bounded (length L) a L"
    and "covers (length L) R" "bounded (length L) b R"
    and "\<And>s. s \<le> nat (sint k) \<Longrightarrow> a * (int (length L) * b) ^ s \<le> int_max"
  shows "\<exists>X. calc_matrix L R k = Ret X \<and>
    bounded (length L) (a * (int (length L) * b) ^ nat (sint k)) X"
proof (cases "sint k \<le> 0")
  case True
  with assms(2) show ?thesis by (simp add: calc_matrix_def)
next
  case False
  with calc_loop_bounded [OF assms] show ?thesis by (simp add: calc_matrix_def)
qed

theorem calc_matrix_returns_witness:
  "\<exists>X. calc_matrix [[1, 2], [3, - 4]] [[5, 6], [7, 8]] 3 = Ret X \<and> bounded 2 (4 * 16 ^ 3) X"
proof -
  let ?L = "[[1, 2], [3, - 4]] :: matrix" and ?R = "[[5, 6], [7, 8]] :: matrix"
  have k: "nat (sint (3 :: i32)) = 3" by simp
  have L: "square (length ?L) ?L" "bounded (length ?L) 4 ?L" by code_simp+
  have R: "covers (length ?L) ?R" "bounded (length ?L) 8 ?R" by code_simp+
  have "4 * (int (length ?L) * 8) ^ s \<le> int_max" if "s \<le> nat (sint (3 :: i32))" for s
  proof -
    have "(16 :: int) ^ s \<le> 16 ^ 3" using that k by (intro power_increasing) auto
    then show ?thesis by (simp add: int_max_def)
  qed
  from calc_matrix_returns [OF L R, of 3, OF this] show ?thesis by (simp add: numeral_2_eq_2)
qed

end
