(* ===== verification/Operation.thy ===== *)
theory Operation
  imports Messages Matrix
begin

text \<open>
  The method traits of \<open>rpc/method/operation.hpp\<close> and \<open>operation.cpp\<close>: for each of the three methods
  its identifier, the request and response conversions and \<open>invoke\<close>. The interface
  \<open>rpc_method\<close> says what the two stubs rely on (arguments and results survive the wire, small
  messages stay small, \<open>invoke\<close> throws nothing); it is interpreted on each of the three.
\<close>

section \<open>Matrices in messages\<close>

definition add_edge :: "i32 \<Rightarrow> int_list \<Rightarrow> int_list" where
  "add_edge v row = Int_list (edge row @ [v])"

definition fill_proto_matrix :: "matrix \<Rightarrow> int_list list \<Rightarrow> int_list list" where
  "fill_proto_matrix M rows =
     fold (\<lambda>row rows. rows @ [fold add_edge row (Int_list [])]) M rows"

definition read_proto_matrix :: "int_list list \<Rightarrow> matrix" where
  "read_proto_matrix rows =
     fold (\<lambda>proto_row M. M @ [fold (\<lambda>v row. row @ [v]) (edge proto_row) []]) rows []"

lemma fold_add_edge: "fold add_edge vs (Int_list us) = Int_list (us @ vs)"
  by (induction vs arbitrary: us) (simp_all add: add_edge_def)

lemma fold_snoc: "fold (\<lambda>x xs. xs @ [f x]) xs ys = ys @ map f xs"
  by (induction xs arbitrary: ys) simp_all

lemma fill_proto_matrix_map: "fill_proto_matrix M rows = rows @ map Int_list M"
  by (simp add: fill_proto_matrix_def fold_add_edge fold_snoc)

lemma read_proto_matrix_map: "read_proto_matrix rows = map edge rows"
  using fold_snoc [of "\<lambda>v. v"] by (simp add: read_proto_matrix_def fold_snoc)

lemma read_fill [simp]: "read_proto_matrix (fill_proto_matrix M []) = M"
  by (simp add: fill_proto_matrix_map read_proto_matrix_map comp_def)

definition cells :: "matrix \<Rightarrow> nat" where
  "cells M = weight (map Int_list M)"


section \<open>Requests and results of the three methods\<close>

definition make_add_request :: "i32 \<Rightarrow> i32 \<Rightarrow> add_args" where
  "make_add_request left right = \<lparr>add_left = left, add_right = right\<rparr>"

definition serialize_add_result :: "codec \<Rightarrow> i32 \<Rightarrow> bytes" where
  "serialize_add_result C v = ser_add_result C (Add_result v)"

definition parse_add_body :: "codec \<Rightarrow> bytes \<Rightarrow> i32 outcome" where
  "parse_add_body C body = (case parse_add_result C body of
       None \<Rightarrow> Throw (Std_exception ''failed to parse add result'')
     | Some r \<Rightarrow> Ret (add_ret r))"

definition invoke_add :: "add_args \<Rightarrow> i32 outcome" where
  "invoke_add q = impl_add (add_left q) (add_right q)"

definition make_div_request :: "i32 \<Rightarrow> i32 \<Rightarrow> div_args" where
  "make_div_request left right = \<lparr>div_left = left, div_right = right\<rparr>"

definition serialize_div_result :: "codec \<Rightarrow> i32 \<Rightarrow> bytes" where
  "serialize_div_result C v = ser_div_result C (Div_result v)"

definition parse_div_body :: "codec \<Rightarrow> bytes \<Rightarrow> i32 outcome" where
  "parse_div_body C body = (case parse_div_result C body of
       None \<Rightarrow> Throw (Std_exception ''failed to parse div result'')
     | Some r \<Rightarrow> Ret (div_ret r))"

definition invoke_div :: "div_args \<Rightarrow> i32 outcome" where
  "invoke_div q = impl_div (div_left q) (div_right q)"

text \<open>\<open>times\<close> crosses the wire as \<open>uint32\<close> and is cast back to \<open>int\<close>: both casts keep the word.\<close>

definition make_calc_request :: "matrix \<Rightarrow> matrix \<Rightarrow> i32 \<Rightarrow> calc_args" where
  "make_calc_request left right ntimes =
     \<lparr>calc_left = fill_proto_matrix left [], calc_right = fill_proto_matrix right [],
      calc_times = ucast ntimes\<rparr>"

definition serialize_calc_result :: "codec \<Rightarrow> matrix \<Rightarrow> bytes" where
  "serialize_calc_result C M = ser_calc_result C (Calc_result (fill_proto_matrix M []))"

definition parse_calc_body :: "codec \<Rightarrow> bytes \<Rightarrow> matrix outcome" where
  "parse_calc_body C body = (case parse_calc_result C body of
       None \<Rightarrow> Throw (Std_exception ''failed to parse calc_matrix result'')
     | Some r \<Rightarrow> Ret (read_proto_matrix (calc_ret r)))"

definition invoke_calc :: "calc_args \<Rightarrow> matrix outcome" where
  "invoke_calc q = calc_matrix (read_proto_matrix (calc_left q)) (read_proto_matrix (calc_right q))
     (ucast (calc_times q))"

lemma invoke_calc_request [simp]:
  "invoke_calc (make_calc_request left right ntimes) = calc_matrix left right ntimes"
  by (simp add: invoke_calc_def make_calc_request_def)


section \<open>The traits\<close>

record ('q, 'v) rpc_method_traits =
  method_id :: MethodType
  ser_args :: "codec \<Rightarrow> 'q \<Rightarrow> bytes"
  parse_args :: "codec \<Rightarrow> bytes \<Rightarrow> 'q option"
  invoke :: "'q \<Rightarrow> 'v outcome"
  serialize_result :: "codec \<Rightarrow> 'v \<Rightarrow> bytes"
  parse_result :: "codec \<Rightarrow> bytes \<Rightarrow> 'v outcome"

definition add_traits :: "(add_args, i32) rpc_method_traits" where
  "add_traits = \<lparr>method_id = MET_ADD, ser_args = ser_add, parse_args = parse_add,
     invoke = invoke_add, serialize_result = serialize_add_result, parse_result = parse_add_body\<rparr>"

definition div_traits :: "(div_args, i32) rpc_method_traits" where
  "div_traits = \<lparr>method_id = MET_DIV, ser_args = ser_div, parse_args = parse_div,
     invoke = invoke_div, serialize_result = serialize_div_result, parse_result = parse_div_body\<rparr>"

definition calc_traits :: "(calc_args, matrix) rpc_method_traits" where
  "calc_traits = \<lparr>method_id = MET_CALC_MATRIX, ser_args = ser_calc, parse_args = parse_calc,
     invoke = invoke_calc, serialize_result = serialize_calc_result,
     parse_result = parse_calc_body\<rparr>"

lemmas traits_defs = add_traits_def div_traits_def calc_traits_def

definition parse_response :: "('q, 'v) rpc_method_traits \<Rightarrow> codec \<Rightarrow> Response \<Rightarrow> 'v outcome" where
  "parse_response T C resp = parse_result T C (resp_body resp)"

text \<open>No \<open>invoke\<close> throws: what can go wrong in them is undefined behaviour, which no
  \<open>catch\<close> sees.\<close>

lemma obind_no_throw:
  "m \<noteq> Throw e \<Longrightarrow> (\<And>x. f x \<noteq> Throw e) \<Longrightarrow> obind m f \<noteq> Throw e"
  by (cases m) auto

lemma for_loop_no_throw: "(\<And>i s. f i s \<noteq> Throw e) \<Longrightarrow> for_loop f is s \<noteq> Throw e"
  by (induction "is" arbitrary: s) (simp_all add: obind_no_throw)

lemma vec_at_no_throw [simp]: "vec_at xs i \<noteq> Throw e"
  by (simp add: vec_at_def)

lemma mul_acc_no_throw: "mul_acc A B i k j M \<noteq> Throw e"
  unfolding mul_acc_def mat_at_def int_times_def impl_add_def
  by (intro obind_no_throw) auto

lemma calc_matrix_no_throw: "calc_matrix L R t \<noteq> Throw e"
  unfolding calc_matrix_def multiply_def Let_def
  by (auto intro!: for_loop_no_throw mul_acc_no_throw)

lemma invoke_no_throw [simp]:
  "invoke_add a \<noteq> Throw e" "invoke_div d \<noteq> Throw e" "invoke_calc c \<noteq> Throw e"
  by (auto simp: invoke_add_def impl_add_def invoke_div_def impl_div_def invoke_calc_def
      calc_matrix_no_throw)


section \<open>What the stubs rely on\<close>

locale rpc_method =
  fixes T :: "('q, 'v) rpc_method_traits"
    and args_ok :: "'q \<Rightarrow> bool"
    and result_ok :: "'v \<Rightarrow> bool"
  assumes args_roundtrip: "codec_ok C \<Longrightarrow> args_ok q \<Longrightarrow> parse_args T C (ser_args T C q) = Some q"
    and args_size: "codec_ok C \<Longrightarrow> args_ok q \<Longrightarrow> length (ser_args T C q) < 2 ^ 30"
    and result_roundtrip:
      "codec_ok C \<Longrightarrow> result_ok v \<Longrightarrow> parse_result T C (serialize_result T C v) = Ret v"
    and result_size: "codec_ok C \<Longrightarrow> result_ok v \<Longrightarrow> length (serialize_result T C v) < 2 ^ 30"
    and never_throws: "invoke T q \<noteq> Throw e"
    and known: "method_id T \<noteq> MET_UNKNOW"

definition calc_args_ok :: "calc_args \<Rightarrow> bool" where
  "calc_args_ok q \<longleftrightarrow> weight (calc_left q) + weight (calc_right q) < 2 ^ 25"

definition calc_result_ok :: "matrix \<Rightarrow> bool" where
  "calc_result_ok M \<longleftrightarrow> cells M < 2 ^ 25"

interpretation add_method: rpc_method add_traits "\<lambda>_. True" "\<lambda>_. True"
proof (unfold_locales, goal_cases)
  case (2 C q)
  then show ?case using codec_ok_scalar(2) [of C q] by (simp add: add_traits_def)
next
  case (4 C v)
  then show ?case
    using codec_ok_scalar(4) [of C "Add_result v"]
    by (simp add: add_traits_def serialize_add_result_def)
qed (simp_all add: add_traits_def codec_laws serialize_add_result_def parse_add_body_def)

interpretation div_method: rpc_method div_traits "\<lambda>_. True" "\<lambda>_. True"
proof (unfold_locales, goal_cases)
  case (2 C q)
  then show ?case using codec_ok_scalar(6) [of C q] by (simp add: div_traits_def)
next
  case (4 C v)
  then show ?case
    using codec_ok_scalar(8) [of C "Div_result v"]
    by (simp add: div_traits_def serialize_div_result_def)
qed (simp_all add: div_traits_def codec_laws serialize_div_result_def parse_div_body_def)

interpretation calc_method: rpc_method calc_traits calc_args_ok calc_result_ok
proof (unfold_locales, goal_cases)
  case (2 C q)
  then show ?case
    using codec_ok_matrix(3) [of C q] by (simp add: calc_traits_def calc_args_ok_def)
next
  case (4 C M)
  then show ?case
    using codec_ok_matrix(4) [of C "Calc_result (fill_proto_matrix M [])"]
    by (simp add: calc_traits_def calc_result_ok_def serialize_calc_result_def cells_def
        fill_proto_matrix_map)
qed (simp_all add: calc_traits_def codec_laws serialize_calc_result_def parse_calc_body_def
    calc_args_ok_def calc_result_ok_def cells_def fill_proto_matrix_map read_proto_matrix_map comp_def)

end
