(* ===== verification/SampleCodec.thy ===== *)
theory SampleCodec
  imports Messages Framing
begin

unbundle bit_operations_syntax

text \<open>
  A concrete codec with fixed-width fields that satisfies \<open>codec_ok\<close>. It is not protobuf's wire
  format; it shows that the hypotheses on the codec can hold, and the witnesses run on it.
\<close>

section \<open>Words and strings\<close>

definition put64 :: "u64 \<Rightarrow> bytes" where
  "put64 w = length_header (ucast (drop_bit 32 w)) @ length_header (ucast w)"

definition get64 :: "bytes \<Rightarrow> u64" where
  "get64 bs = (push_bit 32 (ucast (header_value bs)) OR ucast (header_value (drop 4 bs)))"

lemma header_value_put [simp]: "header_value (length_header n @ bs) = n"
  by simp

lemma length_put64 [simp]: "length (put64 w) = 8"
  by (simp add: put64_def)

lemma word64_halves:
  "(push_bit 32 (ucast (ucast (drop_bit 32 w) :: u32)) OR ucast (ucast w :: u32) :: u64) = w"
proof (rule bit_word_eqI)
  fix i :: nat assume "i < LENGTH(64)"
  then consider "32 \<le> i" "i < 64" | "i < 32" by fastforce
  then show "bit (push_bit 32 (ucast (ucast (drop_bit 32 w) :: u32)) OR
      ucast (ucast w :: u32) :: u64) i = bit w i"
    by cases (auto simp: bit_simps)
qed

lemma get64_put64 [simp]: "get64 (put64 w @ bs) = w"
  by (simp add: get64_def put64_def word64_halves)

definition put_string :: "string \<Rightarrow> bytes" where
  "put_string s = map (\<lambda>c. of_nat (of_char c)) s"

definition get_string :: "bytes \<Rightarrow> string" where
  "get_string bs = map (\<lambda>b. char_of (unat b)) bs"

lemma get_put_string [simp]: "get_string (put_string s) = s"
proof -
  have "char_of (unat (of_nat (of_char c) :: byte)) = c" for c
    by (simp add: unat_of_nat)
  then show ?thesis by (simp add: get_string_def put_string_def comp_def)
qed


section \<open>Rows\<close>

definition put_words :: "i32 list \<Rightarrow> bytes" where
  "put_words ws = concat (map length_header ws)"

fun get_words :: "nat \<Rightarrow> bytes \<Rightarrow> i32 list" where
  "get_words 0 bs = []"
| "get_words (Suc n) bs = header_value bs # get_words n (drop 4 bs)"

lemma length_put_words [simp]: "length (put_words ws) = 4 * length ws"
  by (induction ws) (simp_all add: put_words_def)

lemma get_put_words [simp]: "get_words (length ws) (put_words ws @ bs) = ws"
  by (induction ws) (simp_all add: put_words_def)

definition put_rows :: "int_list list \<Rightarrow> bytes" where
  "put_rows rows =
     concat (map (\<lambda>r. length_header (of_nat (length (edge r))) @ put_words (edge r)) rows)"

fun get_rows :: "nat \<Rightarrow> bytes \<Rightarrow> int_list list \<times> bytes" where
  "get_rows 0 bs = ([], bs)"
| "get_rows (Suc k) bs =
     (let n = unat (header_value bs); (rows, rest) = get_rows k (drop (4 + 4 * n) bs)
      in (Int_list (get_words n (drop 4 bs)) # rows, rest))"

lemma length_put_rows: "length (put_rows rows) = 4 * weight rows"
  by (induction rows) (simp_all add: put_rows_def weight_def)

lemma get_put_rows:
  "weight rows < 2 ^ 25 \<Longrightarrow> get_rows (length rows) (put_rows rows @ bs) = (rows, bs)"
proof (induction rows)
  case (Cons r rows)
  then have "weight rows < 2 ^ 25" and n: "length (edge r) < 2 ^ 32"
    by (auto simp: weight_def)
  with Cons.IH show ?case
    by (simp add: put_rows_def unat_length_header [OF n] int_list.expand)
qed (simp add: put_rows_def)

lemma length_le_weight: "length rows \<le> weight rows"
  by (induction rows) (simp_all add: weight_def)

lemma unat_of_length: "weight rows < 2 ^ 25 \<Longrightarrow> unat (of_nat (length rows) :: u32) = length rows"
  using length_le_weight [of rows] by (simp add: unat_of_nat)


section \<open>The codec\<close>

definition sample_calc_ser :: "calc_args \<Rightarrow> bytes" where
  "sample_calc_ser m = length_header (calc_times m) @ length_header (of_nat (length (calc_left m))) @
     length_header (of_nat (length (calc_right m))) @ put_rows (calc_left m) @ put_rows (calc_right m)"

definition sample_calc_parse :: "bytes \<Rightarrow> calc_args option" where
  "sample_calc_parse bs =
     (let (l, rest) = get_rows (unat (header_value (drop 4 bs))) (drop 12 bs);
          (r, rest) = get_rows (unat (header_value (drop 8 bs))) rest
      in Some \<lparr>calc_left = l, calc_right = r, calc_times = header_value bs\<rparr>)"

definition sample_Response_parse :: "bytes \<Rightarrow> Response option" where
  "sample_Response_parse bs =
     (if length bs < 20 then None
      else let n = unat (header_value (drop 16 bs)) in
        Some \<lparr>resp_id = get64 bs, resp_status = header_value (drop 8 bs),
          resp_type = header_value (drop 12 bs), resp_body = take n (drop 20 bs),
          resp_error_message = get_string (drop (20 + n) bs)\<rparr>)"

definition sample_codec :: codec where
  "sample_codec = \<lparr>
     ser_Request = \<lambda>r. put64 (req_id r) @ length_header (req_type r) @ req_body r,
     parse_Request = \<lambda>bs. if length bs < 12 then None
       else Some \<lparr>req_id = get64 bs, req_type = header_value (drop 8 bs), req_body = drop 12 bs\<rparr>,
     ser_Response = \<lambda>r. put64 (resp_id r) @ length_header (resp_status r) @
       length_header (resp_type r) @ length_header (of_nat (length (resp_body r))) @ resp_body r @
       put_string (resp_error_message r),
     parse_Response = sample_Response_parse,
     ser_add = \<lambda>m. length_header (add_left m) @ length_header (add_right m),
     parse_add = \<lambda>bs. Some \<lparr>add_left = header_value bs, add_right = header_value (drop 4 bs)\<rparr>,
     ser_add_result = \<lambda>m. length_header (add_ret m),
     parse_add_result = \<lambda>bs. Some (Add_result (header_value bs)),
     ser_div = \<lambda>m. length_header (div_left m) @ length_header (div_right m),
     parse_div = \<lambda>bs. Some \<lparr>div_left = header_value bs, div_right = header_value (drop 4 bs)\<rparr>,
     ser_div_result = \<lambda>m. length_header (div_ret m),
     parse_div_result = \<lambda>bs. Some (Div_result (header_value bs)),
     ser_calc = sample_calc_ser,
     parse_calc = sample_calc_parse,
     ser_calc_result = \<lambda>m. length_header (of_nat (length (calc_ret m))) @ put_rows (calc_ret m),
     parse_calc_result = \<lambda>bs. Some (Calc_result
       (fst (get_rows (unat (header_value bs)) (drop 4 bs))))\<rparr>"

lemma sample_calc_roundtrip:
  assumes "weight (calc_left m) + weight (calc_right m) < 2 ^ 25"
  shows "sample_calc_parse (sample_calc_ser m) = Some m"
proof -
  from assms have "weight (calc_left m) < 2 ^ 25" "weight (calc_right m) < 2 ^ 25" by simp_all
  then show ?thesis
    using get_put_rows [of "calc_right m" "[]"]
    by (simp add: sample_calc_parse_def sample_calc_ser_def unat_of_length get_put_rows)
qed

lemma sample_Response_roundtrip:
  assumes "length (resp_body r) < 2 ^ 30"
  shows "sample_Response_parse (ser_Response sample_codec r) = Some r"
proof -
  from assms have "unat (of_nat (length (resp_body r)) :: u32) = length (resp_body r)"
    by (intro unat_length_header) simp
  then show ?thesis by (simp add: sample_Response_parse_def sample_codec_def)
qed

lemma sample_codec_ok: "codec_ok sample_codec"
  unfolding codec_ok_def
proof (intro conjI)
  show "envelope_laws sample_codec"
    using sample_Response_roundtrip
    by (simp add: envelope_laws_def sample_codec_def put_string_def)
  show "scalar_laws sample_codec"
    by (simp add: scalar_laws_def sample_codec_def)
  have result: "fst (get_rows (length rows) (put_rows rows)) = rows" if "weight rows < 2 ^ 25" for rows
    using get_put_rows [OF that, of "[]"] by simp
  show "matrix_laws sample_codec"
    by (simp add: matrix_laws_def sample_codec_def sample_calc_roundtrip unat_of_length result,
        simp add: sample_calc_ser_def length_put_rows)
qed

end
