(* ===== verification/ServerStub.thy ===== *)
theory ServerStub
  imports Operation SampleCodec
begin

text \<open>
  The server side of the protocol layer, \<open>rpc/detail/server_stub.hpp\<close>: parsing a request, the
  dispatch on its method, the call of the business function with its two \<open>catch\<close> clauses, and the
  response that goes back. What it shows: which requests are answered and with which status, that
  every answer carries the identifier and the method of its request, and exactly which requests run
  into undefined behaviour.
\<close>

definition make_error_response :: "u64 \<Rightarrow> MethodType \<Rightarrow> StatusCode \<Rightarrow> string \<Rightarrow> Response" where
  "make_error_response ident mtype status message =
     empty_response\<lparr>resp_id := ident, resp_type := mtype, resp_status := status,
       resp_error_message := message\<rparr>"

definition dispatch_one ::
    "('q, 'v) rpc_method_traits \<Rightarrow> codec \<Rightarrow> Request \<Rightarrow> Response outcome" where
  "dispatch_one T C request =
     (case parse_args T C (req_body request) of
        None \<Rightarrow> Ret (make_error_response (req_id request) (req_type request) STATUS_PARSE_ERROR
          ''failed to parse rpc request body'')
      | Some args \<Rightarrow>
         (case invoke T args of
            Ret result \<Rightarrow> Ret (empty_response\<lparr>resp_id := req_id request, resp_type := method_id T,
              resp_status := STATUS_OK, resp_body := serialize_result T C result\<rparr>)
          | Throw (Std_exception what) \<Rightarrow> Ret (make_error_response (req_id request)
              (req_type request) STATUS_INVOKE_ERROR what)
          | Throw Other_exception \<Rightarrow> Ret (make_error_response (req_id request)
              (req_type request) STATUS_INTERNAL_ERROR ''unknown rpc invoke error'')
          | UB u \<Rightarrow> UB u))"

definition dispatch :: "codec \<Rightarrow> Request \<Rightarrow> Response outcome" where
  "dispatch C request =
     (if req_type request = MET_ADD then dispatch_one add_traits C request
      else if req_type request = MET_DIV then dispatch_one div_traits C request
      else if req_type request = MET_CALC_MATRIX then dispatch_one calc_traits C request
      else Ret (make_error_response (req_id request) (req_type request) STATUS_METHOD_NOT_FOUND
        ''rpc method not found''))"

definition serialize_response :: "codec \<Rightarrow> Response \<Rightarrow> bytes" where
  "serialize_response C response = ser_Response C response"

text \<open>The bytes \<open>handle_request\<close> replies on the connection.\<close>

definition handle_request :: "codec \<Rightarrow> bytes \<Rightarrow> bytes outcome" where
  "handle_request C data =
     (case parse_Request C data of
        None \<Rightarrow> Ret (serialize_response C (make_error_response 0 MET_UNKNOW STATUS_PARSE_ERROR
          ''failed to parse rpc request''))
      | Some request \<Rightarrow> obind (dispatch C request) (\<lambda>response. Ret (serialize_response C response)))"


section \<open>Served methods\<close>

text \<open>The interface between the traits and the dispatcher: a method whose identifier the dispatcher
  routes to its own traits.\<close>

locale served_method = rpc_method +
  assumes routed: "req_type r = method_id T \<Longrightarrow> dispatch C r = dispatch_one T C r"
begin

lemma dispatch_ok:
  assumes "codec_ok C" "args_ok q" "invoke T q = Ret v"
  shows "dispatch C \<lparr>req_id = i, req_type = method_id T, req_body = ser_args T C q\<rparr> =
    Ret (empty_response\<lparr>resp_id := i, resp_type := method_id T, resp_status := STATUS_OK,
      resp_body := serialize_result T C v\<rparr>)"
  using assms by (simp add: routed dispatch_one_def args_roundtrip)

lemma handle_ok:
  assumes "codec_ok C" "args_ok q" "invoke T q = Ret v"
  shows "handle_request C (ser_Request C
      \<lparr>req_id = i, req_type = method_id T, req_body = ser_args T C q\<rparr>) =
    Ret (ser_Response C (empty_response\<lparr>resp_id := i, resp_type := method_id T,
      resp_status := STATUS_OK, resp_body := serialize_result T C v\<rparr>))"
  using assms dispatch_ok args_size
  by (simp add: handle_request_def codec_ok_envelope(1) serialize_response_def)

lemma handle_ub:
  assumes "codec_ok C" "args_ok q" "invoke T q = UB u"
  shows "handle_request C (ser_Request C
      \<lparr>req_id = i, req_type = method_id T, req_body = ser_args T C q\<rparr>) = UB u"
  using assms args_size
  by (simp add: handle_request_def codec_ok_envelope(1) routed dispatch_one_def args_roundtrip)

end

lemma method_ids [simp]:
  "method_id add_traits = MET_ADD" "method_id div_traits = MET_DIV"
  "method_id calc_traits = MET_CALC_MATRIX"
  by (simp_all add: traits_defs)

interpretation add_served: served_method add_traits "\<lambda>_. True" "\<lambda>_. True"
  by unfold_locales (simp add: dispatch_def)

interpretation div_served: served_method div_traits "\<lambda>_. True" "\<lambda>_. True"
  by unfold_locales (simp add: dispatch_def)

interpretation calc_served: served_method calc_traits calc_args_ok calc_result_ok
  by unfold_locales (simp add: dispatch_def)


section \<open>Properties\<close>

text \<open>An error answer has no body and one of the two messages of the dispatcher; a good one has no
  message.\<close>

definition error_message_ok :: "Response \<Rightarrow> bool" where
  "error_message_ok resp \<longleftrightarrow>
     (if resp_status resp = STATUS_OK then resp_error_message resp = []
      else resp_body resp = [] \<and> resp_error_message resp \<in>
        {''failed to parse rpc request body'', ''rpc method not found''})"

lemma dispatch_one_cases:
  assumes "dispatch_one T C r = Ret resp" and "\<And>q e. invoke T q \<noteq> Throw e"
  shows "resp_id resp = req_id r \<and> resp_type resp \<in> {req_type r, method_id T} \<and>
    resp_status resp \<in> {STATUS_OK, STATUS_PARSE_ERROR} \<and>
    error_message_ok resp \<and>
    (resp_status resp = STATUS_OK \<longrightarrow>
      (\<exists>q v. parse_args T C (req_body r) = Some q \<and> invoke T q = Ret v \<and>
        resp_body resp = serialize_result T C v))"
  using assms
  by (auto simp: dispatch_one_def make_error_response_def empty_response_def error_message_ok_def
      split: option.splits outcome.splits exn.splits)

text \<open>The methods the dispatcher knows.\<close>

definition registered :: "MethodType set" where
  "registered = {MET_ADD, MET_DIV, MET_CALC_MATRIX}"

lemma dispatch_facts:
  assumes "dispatch C r = Ret resp"
  shows "resp_id resp = req_id r \<and> resp_type resp = req_type r \<and> error_message_ok resp \<and>
    (if req_type r \<in> registered then resp_status resp \<in> {STATUS_OK, STATUS_PARSE_ERROR}
     else resp_status resp = STATUS_METHOD_NOT_FOUND)"
proof -
  consider "req_type r = MET_ADD" | "req_type r = MET_DIV" | "req_type r = MET_CALC_MATRIX"
    | "req_type r \<notin> registered" by (auto simp: registered_def)
  then show ?thesis
  proof cases
    case 1
    with assms dispatch_one_cases [of add_traits C r resp] show ?thesis
      by (simp add: dispatch_def registered_def add_method.never_throws)
  next
    case 2
    with assms dispatch_one_cases [of div_traits C r resp] show ?thesis
      by (simp add: dispatch_def registered_def div_method.never_throws)
  next
    case 3
    with assms dispatch_one_cases [of calc_traits C r resp] show ?thesis
      by (simp add: dispatch_def registered_def calc_method.never_throws)
  next
    case 4
    with assms show ?thesis
      by (auto simp: dispatch_def registered_def make_error_response_def empty_response_def
          error_message_ok_def)
  qed
qed

lemma dispatch_one_UB:
  "dispatch_one T C r = UB u \<longleftrightarrow>
     (\<exists>q. parse_args T C (req_body r) = Some q \<and> invoke T q = UB u)"
  by (auto simp: dispatch_one_def split: option.splits outcome.splits exn.splits)

lemma dispatch_one_no_throw: "dispatch_one T C r \<noteq> Throw e"
  by (simp add: dispatch_one_def split: option.splits outcome.splits exn.splits)

lemma dispatch_no_throw: "dispatch C r \<noteq> Throw e"
  by (simp add: dispatch_def dispatch_one_no_throw)

text \<open>A concrete request of the \<open>div\<close> method, for the witnesses.\<close>

definition sample_div_request :: "i32 \<Rightarrow> i32 \<Rightarrow> Request" where
  "sample_div_request l r = \<lparr>req_id = 1, req_type = MET_DIV,
     req_body = ser_div sample_codec (make_div_request l r)\<rparr>"

lemma sample_div_dispatch:
  "dispatch sample_codec (sample_div_request 7 2) = Ret (empty_response\<lparr>resp_id := 1,
     resp_type := MET_DIV, resp_status := STATUS_OK, resp_body := serialize_div_result sample_codec 3\<rparr>)"
  using div_served.dispatch_ok [OF sample_codec_ok, of "make_div_request 7 2" 3 1]
  by (simp add: sample_div_request_def traits_defs invoke_div_def make_div_request_def impl_div_def
      signed_divide_int_def to_i32_def in_int_defs)

text \<open>Every answer of the dispatcher carries the identifier and the method of its request, for
  every method number, known or not, and whether the call succeeded or not.\<close>

lemma dispatch_echoes:
  assumes "dispatch C r = Ret resp"
  shows "resp_id resp = req_id r \<and> resp_type resp = req_type r"
  using dispatch_facts [OF assms] by simp

text \<open>The status of an answer says what happened: \<open>STATUS_METHOD_NOT_FOUND\<close> exactly for a method
  number outside the three of the dispatch, and otherwise \<open>STATUS_OK\<close> or \<open>STATUS_PARSE_ERROR\<close>. The
  statuses of the two \<open>catch\<close> clauses are never sent, because no business function throws.\<close>

lemma dispatch_status:
  assumes "dispatch C r = Ret resp"
  shows "(resp_status resp = STATUS_METHOD_NOT_FOUND \<longleftrightarrow> req_type r \<notin> registered) \<and>
    resp_status resp \<in> {STATUS_OK, STATUS_PARSE_ERROR, STATUS_METHOD_NOT_FOUND}"
  using dispatch_facts [OF assms] by (auto simp: status_defs split: if_splits)

text \<open>C22. The server replies to every message it receives, whatever its bytes, unless the message is a
  well-formed request for a registered method whose business function has undefined behaviour on
  its arguments; and it never lets an exception out of \<open>handle_request\<close>.\<close>

theorem handle_request_total:
  "(\<exists>reply. handle_request C data = Ret reply) \<longleftrightarrow>
     \<not> (\<exists>r u. parse_Request C data = Some r \<and>
        (req_type r = MET_ADD \<and> (\<exists>q. parse_add C (req_body r) = Some q \<and> invoke_add q = UB u) \<or>
         req_type r = MET_DIV \<and> (\<exists>q. parse_div C (req_body r) = Some q \<and> invoke_div q = UB u) \<or>
         req_type r = MET_CALC_MATRIX \<and>
           (\<exists>q. parse_calc C (req_body r) = Some q \<and> invoke_calc q = UB u)))"
proof (cases "parse_Request C data")
  case None
  then show ?thesis by (simp add: handle_request_def)
next
  case (Some r)
  have "(\<exists>reply. handle_request C data = Ret reply) \<longleftrightarrow> \<not> (\<exists>u. dispatch C r = UB u)"
    using dispatch_no_throw [of C r] by (cases "dispatch C r") (auto simp: handle_request_def Some)
  also have "(\<exists>u. dispatch C r = UB u) \<longleftrightarrow> (\<exists>u.
        req_type r = MET_ADD \<and> (\<exists>q. parse_add C (req_body r) = Some q \<and> invoke_add q = UB u) \<or>
        req_type r = MET_DIV \<and> (\<exists>q. parse_div C (req_body r) = Some q \<and> invoke_div q = UB u) \<or>
        req_type r = MET_CALC_MATRIX \<and>
          (\<exists>q. parse_calc C (req_body r) = Some q \<and> invoke_calc q = UB u))"
    by (auto simp: dispatch_def dispatch_one_UB traits_defs)
  finally show ?thesis by (simp add: Some)
qed

text \<open>C26. A remote division by zero is not answered with \<open>STATUS_INVOKE_ERROR\<close>: the request reaches the
  machine division and the server has undefined behaviour, for every dividend and request id.\<close>

theorem remote_division_by_zero:
  assumes "codec_ok C"
  shows "handle_request C (ser_Request C \<lparr>req_id = i, req_type = MET_DIV,
    req_body = ser_div C (make_div_request l 0)\<rparr>) = UB Division_by_zero"
  using div_served.handle_ub [OF assms, of "make_div_request l 0" Division_by_zero i]
  by (simp add: traits_defs invoke_div_def make_div_request_def impl_div_def)

theorem remote_division_by_zero_witness:
  "handle_request sample_codec (ser_Request sample_codec (sample_div_request 5 0)) =
     UB Division_by_zero"
  using remote_division_by_zero [OF sample_codec_ok] by (simp add: sample_div_request_def)

end
