(* ===== verification/ClientStub.thy ===== *)
theory ClientStub
  imports ServerStub
begin

text \<open>
  The client side of the protocol layer, \<open>client_stub::call\<close> in \<open>rpc/detail/client_stub.hpp\<close>, cut where
  the call blocks: the request bytes it sends, and what it makes of the response bytes it waits for.
  What it shows: a call of each of the three methods gets back exactly what the business function
  computes, and every error status of the server arrives as an exception with the server's message.
\<close>

definition call_request :: "('q, 'v) rpc_method_traits \<Rightarrow> codec \<Rightarrow> 'q \<Rightarrow> u64 \<Rightarrow> Request" where
  "call_request T C q request_id =
     \<lparr>req_id = request_id, req_type = method_id T, req_body = ser_args T C q\<rparr>"

definition request_bytes :: "('q, 'v) rpc_method_traits \<Rightarrow> codec \<Rightarrow> 'q \<Rightarrow> u64 \<Rightarrow> bytes" where
  "request_bytes T C q request_id = ser_Request C (call_request T C q request_id)"

abbreviation runtime_error :: "string \<Rightarrow> 'a outcome" where
  "runtime_error msg \<equiv> Throw (Std_exception msg)"

definition check_response :: "codec \<Rightarrow> u64 \<Rightarrow> MethodType \<Rightarrow> bytes \<Rightarrow> Response outcome" where
  "check_response C request_id mtype response_bytes =
     (case parse_Response C response_bytes of
        None \<Rightarrow> runtime_error ''failed to parse rpc response''
      | Some response \<Rightarrow>
         if resp_id response \<noteq> request_id
         then runtime_error ''rpc response id does not match request id''
         else if resp_type response \<noteq> mtype
         then runtime_error ''rpc response method type does not match request type''
         else if resp_status response \<noteq> STATUS_OK
         then runtime_error (if resp_error_message response = [] then ''rpc request failed''
           else resp_error_message response)
         else Ret response)"

definition finish_call ::
    "('q, 'v) rpc_method_traits \<Rightarrow> codec \<Rightarrow> u64 \<Rightarrow> bytes \<Rightarrow> 'v outcome" where
  "finish_call T C request_id response_bytes =
     obind (check_response C request_id (method_id T) response_bytes) (parse_response T C)"

lemma check_response_Ret:
  "check_response C i mtype bs = Ret resp \<longleftrightarrow> parse_Response C bs = Some resp \<and>
     resp_id resp = i \<and> resp_type resp = mtype \<and> resp_status resp = STATUS_OK"
  by (auto simp: check_response_def split: option.splits if_splits)

context served_method
begin

lemma reply_parses:
  assumes "codec_ok C" "result_ok v"
  shows "parse_Response C (ser_Response C (empty_response\<lparr>resp_id := i, resp_type := method_id T,
      resp_status := STATUS_OK, resp_body := serialize_result T C v\<rparr>)) =
    Some (empty_response\<lparr>resp_id := i, resp_type := method_id T,
      resp_status := STATUS_OK, resp_body := serialize_result T C v\<rparr>)"
  using result_size [OF assms]
  by (intro codec_ok_envelope(2) [OF assms(1)]) (simp_all add: empty_response_def ascii_def)

lemma call_returns:
  assumes "codec_ok C" "args_ok q" "invoke T q = Ret v" "result_ok v"
  shows "\<exists>reply. handle_request C (request_bytes T C q i) = Ret reply \<and> finish_call T C i reply = Ret v"
  using handle_ok [OF assms(1-3), of i] reply_parses [OF assms(1,4), of i] assms
  by (simp add: request_bytes_def call_request_def finish_call_def check_response_def
      parse_response_def result_roundtrip)

end


section \<open>Properties\<close>

text \<open>An \<open>add\<close> call comes back with the sum, for every pair whose sum fits in an \<open>int\<close>: the request
  the client stub builds is answered by the server stub, and the client stub reads \<open>left + right\<close>
  out of the answer.\<close>

lemma add_call_returns:
  assumes "codec_ok C" and "in_int (sint l + sint r)"
  shows "\<exists>reply v. handle_request C (request_bytes add_traits C (make_add_request l r) i) = Ret reply \<and>
    finish_call add_traits C i reply = Ret v \<and> sint v = sint l + sint r"
  using add_served.call_returns [OF assms(1), of "make_add_request l r" "to_i32 (sint l + sint r)" i]
    assms(2)
  by (fastforce simp: traits_defs invoke_add_def make_add_request_def impl_add_def)

text \<open>A \<open>div\<close> call comes back with the quotient truncated towards zero whenever the divisor is not
  zero and the pair is not \<open>INT_MIN / -1\<close>.\<close>

lemma div_call_returns:
  assumes "codec_ok C" and "r \<noteq> 0" and "\<not> (sint l = int_min \<and> sint r = - 1)"
  shows "\<exists>reply v. handle_request C (request_bytes div_traits C (make_div_request l r) i) = Ret reply \<and>
    finish_call div_traits C i reply = Ret v \<and> sint v = sint l sdiv sint r"
proof -
  from assms(2) have "sint r \<noteq> 0" by (metis to_i32_0 to_i32_sint)
  with assms(3) have fits: "in_int (sint l sdiv sint r)"
    by (simp add: sdiv_in_int)
  with assms(2) have "impl_div l r = Ret (to_i32 (sint l sdiv sint r))"
    by (simp add: impl_div_def int_result_def)
  with div_served.call_returns [OF assms(1), of "make_div_request l r" _ i] fits show ?thesis
    by (fastforce simp: traits_defs invoke_div_def make_div_request_def)
qed

text \<open>C19. A \<open>calc_matrix\<close> call on square matrices comes back with \<open>left * right^times\<close> over the
  integers, whenever \<open>calc_matrix\<close> itself returns and the matrices fit in a message.\<close>

theorem calc_call_returns:
  assumes "codec_ok C" and "square (length L) L" and "calc_matrix L R k = Ret X"
    and "cells L + cells R < 2 ^ 25" and "cells X < 2 ^ 25"
  shows "\<exists>reply. handle_request C (request_bytes calc_traits C (make_calc_request L R k) i) = Ret reply \<and>
    finish_call calc_traits C i reply = Ret X \<and>
    ints_of X = mat_mult (length L) (ints_of L) (mat_pow (length L) (ints_of R) (nat (sint k)))"
proof -
  have "calc_args_ok (make_calc_request L R k)"
    using assms(4) by (simp add: calc_args_ok_def make_calc_request_def fill_proto_matrix_map cells_def)
  moreover have "ints_of X =
      mat_mult (length L) (ints_of L) (mat_pow (length L) (ints_of R) (nat (sint k)))"
    using calc_loop_ints [of R "nat (sint k)" L X] assms(2,3)
    by (auto simp: calc_matrix_def mat_mult_one split: if_splits)
  ultimately show ?thesis
    using calc_served.call_returns [OF assms(1), of "make_calc_request L R k" X i] assms(3,5)
    by (simp add: traits_defs calc_result_ok_def)
qed

theorem calc_call_returns_witness:
  "\<exists>reply. handle_request sample_codec (request_bytes calc_traits sample_codec
       (make_calc_request [[1, 0], [0, 1]] [[1, 1], [1, 0]] 5) 9) = Ret reply \<and>
     finish_call calc_traits sample_codec 9 reply = Ret [[8, 5], [5, 3]]"
proof -
  have X: "calc_matrix [[1, 0], [0, 1]] [[1, 1], [1, 0]] 5 = Ret [[8, 5], [5, 3]]" by code_simp
  have sq: "square (length [[1, 0], [0, 1 :: i32]]) [[1, 0], [0, 1 :: i32]]" by code_simp
  have small: "cells [[1, 0], [0, 1]] + cells [[1, 1], [1, 0]] < 2 ^ 25" "cells [[8, 5], [5, 3]] < 2 ^ 25"
    by (simp_all add: cells_def weight_def)
  from calc_call_returns [OF sample_codec_ok sq X small, of 9] show ?thesis by blast
qed

lemma dispatch_reply_parses:
  assumes "codec_ok C" "dispatch C r = Ret resp" "length (resp_body resp) < 2 ^ 30"
  shows "parse_Response C (ser_Response C resp) = Some resp"
  using dispatch_facts [OF assms(2)] assms(3)
  by (intro codec_ok_envelope(2) [OF assms(1)]) (auto simp: error_message_ok_def ascii_def split: if_splits)

text \<open>C23. Every error status of the server arrives at the caller as an exception that carries the
  server's message: the stub of any method, given the answer to its own request, throws it and
  never returns a value.\<close>

theorem error_status_throws:
  assumes "codec_ok C" and "length (req_body r) < 2 ^ 30" and "dispatch C r = Ret resp"
    and "resp_status resp \<noteq> STATUS_OK" and "method_id T = req_type r"
  shows "\<exists>reply. handle_request C (ser_Request C r) = Ret reply \<and>
    finish_call T C (req_id r) reply = runtime_error (resp_error_message resp) \<and>
    resp_error_message resp \<in> {''failed to parse rpc request body'', ''rpc method not found''}"
proof -
  from dispatch_facts [OF assms(3)] assms(4) have resp: "resp_id resp = req_id r"
    "resp_type resp = req_type r" "resp_body resp = []" and
    msg: "resp_error_message resp \<in> {''failed to parse rpc request body'', ''rpc method not found''}"
    by (auto simp: error_message_ok_def)
  then have "parse_Response C (ser_Response C resp) = Some resp"
    by (intro dispatch_reply_parses [OF assms(1,3)]) simp
  then have "finish_call T C (req_id r) (ser_Response C resp) = runtime_error (resp_error_message resp)"
    using resp msg assms(4,5) by (auto simp: finish_call_def check_response_def)
  moreover have "handle_request C (ser_Request C r) = Ret (ser_Response C resp)"
    using assms by (simp add: handle_request_def codec_ok_envelope(1) serialize_response_def)
  ultimately show ?thesis using msg by blast
qed

theorem error_status_throws_witness:
  "\<exists>reply. handle_request sample_codec (ser_Request sample_codec
       \<lparr>req_id = 4, req_type = 17, req_body = []\<rparr>) = Ret reply \<and>
     finish_call (add_traits\<lparr>method_id := 17\<rparr>) sample_codec 4 reply =
       runtime_error ''rpc method not found''"
proof -
  let ?r = "\<lparr>req_id = 4, req_type = 17, req_body = []\<rparr>"
  have "dispatch sample_codec ?r =
      Ret (make_error_response 4 17 STATUS_METHOD_NOT_FOUND ''rpc method not found'')"
    by (simp add: dispatch_def method_defs)
  from error_status_throws [OF sample_codec_ok _ this, of "add_traits\<lparr>method_id := 17\<rparr>"]
  show ?thesis by (auto simp: make_error_response_def status_defs)
qed

end
