(* ===== verification/TcpClient.thy ===== *)
theory TcpClient
  imports Session
begin

text \<open>
  \<open>tcp_client\<close> of \<open>rpc/detail/network.hpp\<close> and \<open>rpc/src/network.cpp\<close>: the connection, the blocking
  \<open>send_and_wait\<close> (cut into the part before the wait and the part after it) and the background
  \<open>io_context\<close>. What it shows: an answer is always a message one of the client's connections
  delivered, and once the \<open>io_context\<close> has stopped, as it does when a connection is lost, no later
  connection of the same client ever answers.
\<close>

section \<open>State\<close>

record tcp_client =
  current :: "session option"       \<comment> \<open>\<open>session_\<close>\<close>
  others :: "session list"          \<comment> \<open>earlier sessions, kept alive by their own operations\<close>
  response_buffer :: bytes
  response_received :: bool
  message_handler :: bool           \<comment> \<open>whether \<open>message_handler_\<close> holds a function\<close>
  handled :: "bytes list"           \<comment> \<open>history: calls of \<open>message_handler_\<close>\<close>
  io_stopped :: bool                \<comment> \<open>\<open>io_context_.stopped()\<close>\<close>
  io_threads :: nat                 \<comment> \<open>threads inside \<open>io_context_.run()\<close>\<close>

definition new_client :: tcp_client where
  "new_client = \<lparr>current = None, others = [], response_buffer = [], response_received = False,
     message_handler = False, handled = [], io_stopped = False, io_threads = 0\<rparr>"


section \<open>Operations\<close>

text \<open>The callback \<open>connect\<close> gives to its session.\<close>

definition on_reply :: "bytes \<Rightarrow> tcp_client \<Rightarrow> tcp_client" where
  "on_reply data c =
     (let c = c\<lparr>response_buffer := data, response_received := True\<rparr>
      in if message_handler c then c\<lparr>handled := handled c @ [data]\<rparr> else c)"

text \<open>\<open>run\<close> on a stopped \<open>io_context\<close> returns at once; nothing in the program restarts one.\<close>

definition run :: "tcp_client \<Rightarrow> tcp_client" where
  "run c = (if io_stopped c then c else c\<lparr>io_threads := Suc (io_threads c)\<rparr>)"

definition stop :: "tcp_client \<Rightarrow> tcp_client" where
  "stop c = c\<lparr>io_stopped := True, io_threads := 0\<rparr>"

definition drop_session :: "tcp_client \<Rightarrow> tcp_client" where
  "drop_session c = (case current c of None \<Rightarrow> c
     | Some s \<Rightarrow> c\<lparr>others := others c @ [s], current := None\<rparr>)"

definition connect :: "bool \<Rightarrow> tcp_client \<Rightarrow> bool \<times> tcp_client" where
  "connect reachable c =
     (if reachable
      then (True, run ((drop_session c)\<lparr>current := Some (start (\<lambda>data. []) True new_session)\<rparr>))
      else (False, c))"

definition set_message_handler :: "bool \<Rightarrow> tcp_client \<Rightarrow> tcp_client" where
  "set_message_handler handler c = c\<lparr>message_handler := handler\<rparr>"

definition is_connected :: "tcp_client \<Rightarrow> bool" where
  "is_connected c = (case current c of None \<Rightarrow> False | Some s \<Rightarrow> is_open s)"

definition async_send :: "bytes \<Rightarrow> tcp_client \<Rightarrow> tcp_client" where
  "async_send data c = (case current c of None \<Rightarrow> c
     | Some s \<Rightarrow> if is_open s then c\<lparr>current := Some (async_write data s)\<rparr> else c)"

definition disconnect :: "tcp_client \<Rightarrow> tcp_client" where
  "disconnect c = stop (case current c of None \<Rightarrow> c
     | Some s \<Rightarrow> drop_session (c\<lparr>current := Some (close False s)\<rparr>))"

definition client_destroy :: "tcp_client \<Rightarrow> tcp_client" where
  "client_destroy c = disconnect c"

text \<open>\<open>send_and_wait\<close> up to the wait (no result: it returns false at once), and what the wait gives:
  the answer if one was received, nothing if the time is over without one.\<close>

definition send_begin :: "bytes \<Rightarrow> tcp_client \<Rightarrow> tcp_client option" where
  "send_begin request c = (case current c of None \<Rightarrow> None
     | Some s \<Rightarrow> if \<not> is_open s then None
       else Some (c\<lparr>response_received := False, response_buffer := [],
         current := Some (async_write request s)\<rparr>))"

definition send_end :: "tcp_client \<Rightarrow> bytes option" where
  "send_end c = (if response_received c then Some (response_buffer c) else None)"


section \<open>Interleaving\<close>

text \<open>A session of the client went from \<open>s\<close> to \<open>t\<close>: if it called its message callback, so be it.\<close>

definition session_ran :: "session \<Rightarrow> session \<Rightarrow> tcp_client \<Rightarrow> tcp_client" where
  "session_ran s t c =
     (if length (delivered s) < length (delivered t) then on_reply (last (delivered t)) c else c)"

definition running :: "tcp_client \<Rightarrow> bool" where
  "running c \<longleftrightarrow> 0 < io_threads c \<and> \<not> io_stopped c"

text \<open>Steps of the connection: handlers only run while a thread runs the \<open>io_context\<close>.\<close>

inductive client_trans :: "tcp_client \<Rightarrow> label \<Rightarrow> tcp_client \<Rightarrow> bool" where
  session_runs: "running c \<Longrightarrow> current c = Some s \<Longrightarrow> session_trans s x t \<Longrightarrow> x \<noteq> App \<Longrightarrow>
    client_trans c x (session_ran s t (c\<lparr>current := Some t\<rparr>))"
| bytes_wait: "\<not> running c \<Longrightarrow> current c = Some s \<Longrightarrow> session_trans s (Received bs) t \<Longrightarrow>
    client_trans c (Received bs) (c\<lparr>current := Some t\<rparr>)"

definition has_work :: "session \<Rightarrow> bool" where
  "has_work s \<longleftrightarrow> reading s \<noteq> No_read \<or> writing s \<noteq> No_write \<or> posted s \<noteq> []"

definition all_sessions :: "tcp_client \<Rightarrow> session list" where
  "all_sessions c = others c @ (case current c of None \<Rightarrow> [] | Some s \<Rightarrow> [s])"

text \<open>All steps: the connection, the sessions left behind, the end of \<open>run\<close> when no work is left,
  and the calls of the user's threads.\<close>

inductive client_step :: "tcp_client \<Rightarrow> tcp_client \<Rightarrow> bool" where
  connection: "client_trans c x c' \<Longrightarrow> client_step c c'"
| left_behind: "running c \<Longrightarrow> i < length (others c) \<Longrightarrow> session_trans (others c ! i) x t \<Longrightarrow> x \<noteq> App \<Longrightarrow>
    client_step c (session_ran (others c ! i) t (c\<lparr>others := (others c)[i := t]\<rparr>))"
| out_of_work: "running c \<Longrightarrow> \<forall>s \<in> set (all_sessions c). \<not> has_work s \<Longrightarrow> client_step c (stop c)"
| user_connect: "client_step c (snd (connect reachable c))"
| user_handler: "client_step c (set_message_handler h c)"
| user_async_send: "client_step c (async_send data c)"
| user_disconnect: "client_step c (disconnect c)"
| user_send: "send_begin request c = Some c' \<Longrightarrow> client_step c c'"
| user_run: "client_step c (run c)"
| user_stop: "client_step c (stop c)"

definition client_init :: "tcp_client \<Rightarrow> bool" where
  "client_init c \<longleftrightarrow> c = new_client"


section \<open>The invariant\<close>

definition answer_known :: "tcp_client \<Rightarrow> bool" where
  "answer_known c \<longleftrightarrow> (response_received c \<longrightarrow>
     (\<exists>s \<in> set (all_sessions c). response_buffer c \<in> set (delivered s)))"

definition client_inv :: "tcp_client \<Rightarrow> bool" where
  "client_inv c \<longleftrightarrow> (\<forall>s \<in> set (all_sessions c). session_inv s) \<and> answer_known c"

lemma session_inv_new: "session_inv (start f e new_session)"
  using session.inv_init by (auto simp: session_init_def)

lemma session_inv_trans: "session_inv s \<Longrightarrow> session_trans s x t \<Longrightarrow> session_inv t"
  using session.inv_step by (auto simp: session_step_def)

lemma session_inv_write: "session_inv s \<Longrightarrow> session_inv (async_write data s)"
  using session_inv_trans session_trans.app_write by blast

lemma session_inv_close: "session_inv s \<Longrightarrow> session_inv (close False s)"
  using session_inv_trans session_trans.app_close by blast

text \<open>A step delivers at most one message, at the end of the history.\<close>

lemma delivered_trans:
  "session_trans s x t \<Longrightarrow> delivered t = delivered s \<or> (\<exists>m. delivered t = delivered s @ [m])"
proof (induction rule: session_trans.induct)
  case (read_handled s k ec)
  then show ?case by (cases k; cases ec) (auto simp: session_defs split: option.splits)
next
  case (write_handled s ec)
  then show ?case by (cases ec) (auto simp: session_defs split: list.splits)
next
  case (task_runs s task rest)
  then show ?case by (cases task) (auto simp: session_defs split: list.splits)
qed (auto simp: session_defs)

lemma session_ran_sessions [simp]:
  "current (session_ran s t c) = current c" "others (session_ran s t c) = others c"
  "io_stopped (session_ran s t c) = io_stopped c" "io_threads (session_ran s t c) = io_threads c"
  "all_sessions (session_ran s t c) = all_sessions c"
  by (simp_all add: session_ran_def on_reply_def all_sessions_def Let_def)

text \<open>Replacing a session by its successor keeps the invariant.\<close>

definition replaced :: "session \<Rightarrow> session \<Rightarrow> session list \<Rightarrow> session list \<Rightarrow> bool" where
  "replaced s t ss ts \<longleftrightarrow> t \<in> set ts \<and> set ts \<subseteq> insert t (set ss) \<and> set ss \<subseteq> insert s (set ts)"

lemma replaced_current:
  "current c = Some s \<Longrightarrow> replaced s t (all_sessions c) (all_sessions (c\<lparr>current := Some t\<rparr>))"
  by (auto simp: replaced_def all_sessions_def)

lemma replaced_other:
  assumes "i < length (others c)"
  shows "replaced (others c ! i) t (all_sessions c) (all_sessions (c\<lparr>others := (others c)[i := t]\<rparr>))"
proof -
  have "set (others c) \<subseteq> insert (others c ! i) (set ((others c)[i := t]))"
  proof
    fix s assume "s \<in> set (others c)"
    then obtain j where "j < length (others c)" "s = others c ! j" by (metis in_set_conv_nth)
    then show "s \<in> insert (others c ! i) (set ((others c)[i := t]))"
      by (cases "j = i") (auto simp: in_set_conv_nth nth_list_update intro!: exI [of _ j])
  qed
  moreover have "t \<in> set ((others c)[i := t])" using assms by (rule set_update_memI)
  moreover have "set ((others c)[i := t]) \<subseteq> insert t (set (others c))"
    by (rule set_update_subset_insert)
  ultimately show ?thesis by (auto simp: replaced_def all_sessions_def)
qed

lemma client_inv_ran:
  assumes "client_inv c" "session_inv t" "set (delivered s) \<subseteq> set (delivered t)"
    and "replaced s t (all_sessions c) (all_sessions c')"
    and "response_received c' = response_received c" "response_buffer c' = response_buffer c"
  shows "client_inv (session_ran s t c')"
proof -
  have "answer_known (session_ran s t c')"
  proof (cases "length (delivered s) < length (delivered t)")
    case True
    then have "last (delivered t) \<in> set (delivered t)" by (intro last_in_set) auto
    with True assms(4) show ?thesis
      by (auto simp: answer_known_def session_ran_def on_reply_def all_sessions_def Let_def replaced_def)
  next
    case False
    have "\<exists>s' \<in> set (all_sessions c'). response_buffer c \<in> set (delivered s')"
      if recv: "response_received c"
    proof -
      obtain s' where s': "s' \<in> set (all_sessions c)" "response_buffer c \<in> set (delivered s')"
        using assms(1) recv by (auto simp: client_inv_def answer_known_def)
      with assms(3,4) show ?thesis by (cases "s' = s") (auto simp: replaced_def)
    qed
    with False assms(5,6) show ?thesis by (simp add: answer_known_def session_ran_def)
  qed
  with assms(1,2,4) show ?thesis by (auto simp: client_inv_def replaced_def)
qed

lemma client_inv_trans:
  assumes "session_trans s x t" "client_inv c" "s \<in> set (all_sessions c)"
    and "replaced s t (all_sessions c) (all_sessions c')"
    and "response_received c' = response_received c" "response_buffer c' = response_buffer c"
  shows "client_inv (session_ran s t c')"
proof (rule client_inv_ran [OF assms(2) _ _ assms(4-6)])
  show "session_inv t" using assms(1-3) session_inv_trans by (auto simp: client_inv_def)
  show "set (delivered s) \<subseteq> set (delivered t)" using delivered_trans [OF assms(1)] by auto
qed

lemma session_ran_same: "delivered t = delivered s \<Longrightarrow> session_ran s t c = c"
  by (simp add: session_ran_def)

text \<open>An application call on the current session.\<close>

lemma client_inv_app:
  assumes "client_inv c" "current c = Some s" "session_inv t" "delivered t = delivered s"
  shows "client_inv (c\<lparr>current := Some t\<rparr>)"
  using client_inv_ran [OF assms(1,3) _ replaced_current [OF assms(2)]] assms(4)
  by (simp add: session_ran_same)

lemma client_inv_drop: "client_inv c \<Longrightarrow> client_inv (drop_session c)"
  by (auto simp: client_inv_def drop_session_def answer_known_def all_sessions_def
      split: option.splits)

lemma client_inv_new:
  "client_inv c \<Longrightarrow> current c = None \<Longrightarrow> session_inv s \<Longrightarrow> client_inv (c\<lparr>current := Some s\<rparr>)"
  by (auto simp: client_inv_def answer_known_def all_sessions_def)

lemma client_inv_flags [simp]:
  "client_inv (c\<lparr>io_stopped := b\<rparr>) \<longleftrightarrow> client_inv c"
  "client_inv (c\<lparr>io_threads := n\<rparr>) \<longleftrightarrow> client_inv c"
  "client_inv (c\<lparr>message_handler := b\<rparr>) \<longleftrightarrow> client_inv c"
  by (simp_all add: client_inv_def answer_known_def all_sessions_def)

lemma client_inv_run [simp]: "client_inv c \<Longrightarrow> client_inv (run c)"
  by (simp add: run_def)

lemma client_inv_stop [simp]: "client_inv (stop c) \<longleftrightarrow> client_inv c"
  by (simp add: stop_def)

lemma drop_session_current [simp]: "current (drop_session c) = None"
  by (simp add: drop_session_def split: option.splits)

lemma client_inv_connect: "client_inv c \<Longrightarrow> client_inv (snd (connect reachable c))"
  by (simp add: connect_def client_inv_new client_inv_drop session_inv_new)

lemma current_session_inv: "client_inv c \<Longrightarrow> current c = Some s \<Longrightarrow> session_inv s"
  by (simp add: client_inv_def all_sessions_def)

lemma client_inv_disconnect: "client_inv c \<Longrightarrow> client_inv (disconnect c)"
  by (auto simp: disconnect_def close_def split: option.splits
      intro!: client_inv_drop client_inv_app [unfolded close_def]
        session_inv_close [unfolded close_def, simplified] dest: current_session_inv)

lemma client_inv_send:
  assumes "client_inv c" "send_begin request c = Some c'"
  shows "client_inv c'"
proof -
  obtain s where s: "current c = Some s"
    and c': "c' = c\<lparr>response_received := False, response_buffer := [],
      current := Some (async_write request s)\<rparr>"
    using assms(2) by (auto simp: send_begin_def split: option.splits if_splits)
  have "session_inv (async_write request s)"
    using session_inv_write current_session_inv [OF assms(1) s] .
  with assms(1) show ?thesis by (auto simp: c' client_inv_def all_sessions_def answer_known_def)
qed

lemma client_inv_async_send: "client_inv c \<Longrightarrow> client_inv (async_send data c)"
  by (auto simp: async_send_def async_write_def split: option.splits
      intro!: client_inv_app session_inv_write [unfolded async_write_def] dest: current_session_inv)

lemma client_inv_client_trans: "client_trans c x c' \<Longrightarrow> client_inv c \<Longrightarrow> client_inv c'"
proof (induction rule: client_trans.induct)
  case (session_runs c s x t)
  then show ?case
    by (intro client_inv_trans [OF session_runs.hyps(3) _ _ replaced_current])
       (auto simp: all_sessions_def)
next
  case (bytes_wait c s bs t)
  have "session_inv t" using bytes_wait session_inv_trans current_session_inv by blast
  moreover have "delivered t = delivered s"
    using bytes_wait.hyps(3) by (auto elim: received_cases)
  ultimately show ?case using client_inv_app [OF bytes_wait.prems bytes_wait.hyps(2)] by simp
qed

lemma client_inv_step: "client_step c c' \<Longrightarrow> client_inv c \<Longrightarrow> client_inv c'"
proof (induction rule: client_step.induct)
  case (left_behind c i x t)
  then show ?case
    by (intro client_inv_trans [OF left_behind.hyps(3) _ _ replaced_other])
       (auto simp: all_sessions_def)
qed (auto intro: client_inv_client_trans client_inv_connect client_inv_async_send
      client_inv_disconnect client_inv_send simp: set_message_handler_def)

interpretation client: invariant_system client_init client_step client_inv
proof
  show "client_inv c" if "client_init c" for c
    using that by (simp add: client_init_def client_inv_def answer_known_def all_sessions_def
        new_client_def)
  show "client_inv c'" if "client_inv c" "client_step c c'" for c c'
    using that by (blast intro: client_inv_step)
qed


section \<open>A stopped io_context\<close>

lemma drop_session_flags [simp]:
  "io_stopped (drop_session c) = io_stopped c"
  "response_received (drop_session c) = response_received c"
  by (simp_all add: drop_session_def split: option.splits)

lemma run_flags [simp]:
  "io_stopped (run c) = io_stopped c" "response_received (run c) = response_received c"
  "current (run c) = current c"
  by (simp_all add: run_def)

lemma stop_flags [simp]:
  "io_stopped (stop c)" "response_received (stop c) = response_received c"
  by (simp_all add: stop_def)

lemma not_running: "io_stopped c \<Longrightarrow> \<not> running c"
  by (simp add: running_def)

lemma stopped_step:
  assumes "client_step c c'" "io_stopped c"
  shows "io_stopped c' \<and> (response_received c' \<longrightarrow> response_received c)"
  using assms
proof (induction rule: client_step.induct)
  case (connection c x c')
  then show ?case by (cases rule: client_trans.cases) (auto simp: not_running)
next
  case (user_send request c c')
  then show ?case by (auto simp: send_begin_def split: option.splits if_splits)
next
  case (user_connect c reachable)
  then show ?case by (cases reachable) (simp_all add: connect_def)
next
  case (user_disconnect c)
  then show ?case by (auto simp: disconnect_def split: option.splits)
qed (auto simp: not_running set_message_handler_def async_send_def split: option.splits)

lemma stopped_run:
  "client_step\<^sup>*\<^sup>* c c' \<Longrightarrow> io_stopped c \<Longrightarrow> io_stopped c' \<and> (response_received c' \<longrightarrow> response_received c)"
  by (induction rule: rtranclp_induct) (auto dest: stopped_step)


section \<open>Properties\<close>

text \<open>The run of a client that connects and receives one message: for the witnesses.\<close>

definition connected_client :: tcp_client where
  "connected_client = snd (connect True new_client)"

lemma connected_client_run: "client_step\<^sup>*\<^sup>* new_client connected_client"
  unfolding connected_client_def by (rule r_into_rtranclp) (rule client_step.user_connect)

lemmas client_defs = connected_client_def connect_def new_client_def run_def drop_session_def
  start_def do_read_header_def new_session_def running_def

text \<open>A run of the current session is a run of the client, which sees the message it delivers.\<close>

definition client_io :: "tcp_client \<Rightarrow> tcp_client \<Rightarrow> bool" where
  "client_io c c' \<longleftrightarrow> client_trans c Internal c'"

lemma delivered_run: "internal_step\<^sup>*\<^sup>* s t \<Longrightarrow> prefix (delivered s) (delivered t)"
  by (induction rule: rtranclp_induct)
     (auto simp: internal_step_def prefix_def dest!: delivered_trans)

lemma session_ran_current:
  "(session_ran s t c)\<lparr>current := u\<rparr> = session_ran s t (c\<lparr>current := u\<rparr>)"
  by (simp add: session_ran_def on_reply_def Let_def)

lemma session_ran_trans:
  assumes "prefix (delivered s) (delivered t)" "prefix (delivered t) (delivered u)"
    and "length (delivered u) \<le> Suc (length (delivered s))"
  shows "session_ran t u (session_ran s t c) = session_ran s u c"
proof (cases "delivered t = delivered s")
  case False
  with assms have "delivered u = delivered t"
    by (auto simp: prefix_def neq_Nil_conv)
  then show ?thesis by (simp add: session_ran_def)
qed (simp add: session_ran_def)

lemma current_run:
  assumes "internal_step\<^sup>*\<^sup>* s t" "current c = Some s" "running c"
    and "length (delivered t) \<le> Suc (length (delivered s))"
  shows "client_io\<^sup>*\<^sup>* c (session_ran s t (c\<lparr>current := Some t\<rparr>))"
  using assms
proof (induction rule: rtranclp_induct)
  case base
  then have "c\<lparr>current := Some s\<rparr> = c" by simp
  then show ?case by (simp add: session_ran_same)
next
  case (step t u)
  have pre: "prefix (delivered s) (delivered t)" "prefix (delivered t) (delivered u)"
    using delivered_run [OF step(1)] delivered_run [of t u] step(2) by auto
  let ?ct = "session_ran s t (c\<lparr>current := Some t\<rparr>)"
  have "client_trans ?ct Internal (session_ran t u (?ct\<lparr>current := Some u\<rparr>))"
    using step(2) step.prems(2)
    by (intro client_trans.session_runs) (simp_all add: running_def internal_step_def)
  then have "client_io ?ct (session_ran s u (c\<lparr>current := Some u\<rparr>))"
    using session_ran_trans [OF pre step.prems(3)] by (simp add: client_io_def session_ran_current)
  moreover have "length (delivered t) \<le> Suc (length (delivered s))"
    using pre(2) step.prems(3) by (auto dest: prefix_length_le)
  ultimately show ?case using step.IH step.prems by (simp add: rtranclp.rtrancl_into_rtrancl)
qed

lemma client_io_steps: "client_io\<^sup>*\<^sup>* c c' \<Longrightarrow> client_step\<^sup>*\<^sup>* c c'"
  by (erule rtranclp_mono [THEN predicate2D, rotated])
     (auto simp: client_io_def intro: client_step.connection)

text \<open>A message that arrives in one piece at an idle client becomes its answer.\<close>

lemma answer_run:
  assumes "running c" "current c = Some s" "sock_open s" "reading s = Reading Header"
    and "length (read_buffer s) = 4" "rx s = frame m" "on_message s = Some (\<lambda>data. [])" "deliverable m"
  shows "client_io\<^sup>*\<^sup>* c (on_reply m (c\<lparr>current := Some (after_receive m [] [] s)\<rparr>))"
proof -
  have "internal_step\<^sup>*\<^sup>* s (after_receive m [] [] s)"
    using receive_run [OF assms(3,4,5,7,8), of "[]"] assms(6) by simp
  from current_run [OF this assms(2,1)] show ?thesis
    by (simp add: after_receive_def session_ran_def)
qed

text \<open>What a connection of the client had delivered; the list of connections only grows at its end.\<close>

definition delivered_by :: "tcp_client \<Rightarrow> nat \<Rightarrow> nat" where
  "delivered_by c i = (if i < length (all_sessions c) then length (delivered (all_sessions c ! i)) else 0)"

definition grows :: "tcp_client \<Rightarrow> tcp_client \<Rightarrow> bool" where
  "grows c c' \<longleftrightarrow> length (all_sessions c) \<le> length (all_sessions c') \<and>
     (\<forall>i<length (all_sessions c). prefix (delivered (all_sessions c ! i)) (delivered (all_sessions c' ! i)))"

text \<open>The answer in the buffer, if there is one, was delivered after \<open>c\<close>.\<close>

definition fresh_answer :: "tcp_client \<Rightarrow> tcp_client \<Rightarrow> bool" where
  "fresh_answer c c' \<longleftrightarrow> (response_received c' \<longrightarrow> (\<exists>i<length (all_sessions c').
     response_buffer c' \<in> set (drop (delivered_by c i) (delivered (all_sessions c' ! i)))))"

lemma grows_refl [simp]: "grows c c"
  by (simp add: grows_def)

lemma grows_trans: "grows c c' \<Longrightarrow> grows c' c'' \<Longrightarrow> grows c c''"
  unfolding grows_def by (meson order.trans order.strict_trans2 prefix_order.trans)

lemma fresh_kept:
  assumes "fresh_answer c c'" "grows c' c''"
    and "response_received c'' \<longrightarrow> response_received c' \<and> response_buffer c'' = response_buffer c'"
  shows "fresh_answer c c''"
  unfolding fresh_answer_def
proof
  assume "response_received c''"
  with assms(1,3) obtain i where i: "i < length (all_sessions c')"
    "response_buffer c'' \<in> set (drop (delivered_by c i) (delivered (all_sessions c' ! i)))"
    by (auto simp: fresh_answer_def)
  with assms(2) have "i < length (all_sessions c'')"
    "prefix (delivered (all_sessions c' ! i)) (delivered (all_sessions c'' ! i))" by (auto simp: grows_def)
  with i(2) show "\<exists>i<length (all_sessions c''). response_buffer c'' \<in> set (drop (delivered_by c i) (delivered (all_sessions c'' ! i)))"
    by (intro exI [of _ i]) (auto simp: prefix_def)
qed

text \<open>A step of one of the connections.\<close>

lemma session_grows:
  assumes "all_sessions c = xs @ s # ys" "all_sessions c' = xs @ t # ys" "session_trans s x t"
  shows "grows c (session_ran s t c')"
proof -
  have "prefix (delivered s) (delivered t)" using delivered_trans [OF assms(3)] by auto
  then show ?thesis by (auto simp: grows_def assms(1,2) nth_append nth_Cons split: nat.split)
qed

lemma session_fresh:
  assumes "grows c0 c" "fresh_answer c0 c"
    and "all_sessions c = xs @ s # ys" "all_sessions c' = xs @ t # ys" "session_trans s x t"
    and "response_received c' = response_received c" "response_buffer c' = response_buffer c"
  shows "fresh_answer c0 (session_ran s t c')"
proof (cases "length (delivered s) < length (delivered t)")
  case True
  let ?c = "session_ran s t c'"
  have "delivered_by c0 (length xs) \<le> length (delivered s)"
  proof (cases "length xs < length (all_sessions c0)")
    case True
    with assms(1,3) have "prefix (delivered (all_sessions c0 ! length xs)) (delivered s)"
      by (auto simp: grows_def dest!: spec [of _ "length xs"])
    with True show ?thesis by (simp add: delivered_by_def prefix_length_le)
  qed (simp add: delivered_by_def)
  with True delivered_trans [OF assms(5)] have
    "last (delivered t) \<in> set (drop (delivered_by c0 (length xs)) (delivered t))" by auto
  moreover have "response_buffer ?c = last (delivered t)" "all_sessions ?c = xs @ t # ys"
    using True assms(4) by (simp_all add: session_ran_def on_reply_def Let_def all_sessions_def)
  ultimately show ?thesis unfolding fresh_answer_def by (intro impI exI [of _ "length xs"]) simp
next
  case False
  then have "delivered t = delivered s" using delivered_trans [OF assms(5)] by auto
  then have "session_ran s t c' = c'" by (rule session_ran_same)
  moreover from this session_grows [OF assms(3-5)] have "grows c c'" by simp
  ultimately show ?thesis using fresh_kept [OF assms(2)] assms(6,7) by simp
qed

text \<open>A call of the user's threads delivers nothing.\<close>

lemma call_grows:
  assumes "map delivered (all_sessions c') = map delivered (all_sessions c) @ ds"
  shows "grows c c'"
proof -
  have len: "length (all_sessions c') = length (all_sessions c) + length ds"
    using arg_cong [OF assms, of length] by simp
  have "delivered (all_sessions c' ! i) = delivered (all_sessions c ! i)" if "i < length (all_sessions c)" for i
    using arg_cong [OF assms, of "\<lambda>xs. xs ! i"] that len by (simp add: nth_append)
  with len show ?thesis by (simp add: grows_def)
qed

lemma drop_sessions [simp]: "all_sessions (drop_session c) = all_sessions c"
  by (simp add: drop_session_def all_sessions_def split: option.splits)

lemma all_current [simp]: "current c = None \<Longrightarrow> all_sessions (c\<lparr>current := Some s\<rparr>) = all_sessions c @ [s]"
  by (simp add: all_sessions_def)

lemma flag_sessions [simp]:
  "all_sessions (run c) = all_sessions c" "all_sessions (stop c) = all_sessions c"
  "response_buffer (run c) = response_buffer c" "response_buffer (stop c) = response_buffer c"
  "response_buffer (drop_session c) = response_buffer c"
  by (simp_all add: run_def stop_def all_sessions_def drop_session_def split: option.splits)

definition quiet_call :: "tcp_client \<Rightarrow> tcp_client \<Rightarrow> bool" where
  "quiet_call c c' \<longleftrightarrow> (\<exists>ds. map delivered (all_sessions c') = map delivered (all_sessions c) @ ds) \<and>
     (response_received c' \<longrightarrow> response_received c \<and> response_buffer c' = response_buffer c)"

lemma quiet_fresh:
  "quiet_call c c' \<Longrightarrow> grows c0 c \<Longrightarrow> fresh_answer c0 c \<Longrightarrow> grows c0 c' \<and> fresh_answer c0 c'"
  unfolding quiet_call_def by (meson call_grows grows_trans fresh_kept)

lemma fresh_step:
  assumes "client_step c c'" "grows c0 c" "fresh_answer c0 c"
  shows "grows c0 c' \<and> fresh_answer c0 c'"
  using assms
proof (induction rule: client_step.induct)
  case (connection c x c')
  then show ?case
  proof (induction rule: client_trans.induct)
    case (session_runs c s x t)
    have all: "all_sessions c = others c @ s # []" "all_sessions (c\<lparr>current := Some t\<rparr>) = others c @ t # []"
      using session_runs.hyps(2) by (simp_all add: all_sessions_def)
    from session_grows [OF all session_runs.hyps(3)] session_fresh [OF session_runs.prems all session_runs.hyps(3)]
    show ?case using session_runs.prems(1) grows_trans by simp
  next
    case (bytes_wait c s bs t)
    then have "quiet_call c (c\<lparr>current := Some t\<rparr>)"
      by (auto elim!: received_cases simp: quiet_call_def all_sessions_def)
    with bytes_wait.prems show ?case by (blast intro: quiet_fresh [THEN conjunct1] quiet_fresh [THEN conjunct2])
  qed
next
  case (left_behind c i x t)
  let ?zs = "case current c of None \<Rightarrow> [] | Some s \<Rightarrow> [s]"
  have all: "all_sessions c = take i (others c) @ others c ! i # (drop (Suc i) (others c) @ ?zs)"
    "all_sessions (c\<lparr>others := (others c)[i := t]\<rparr>) = take i (others c) @ t # (drop (Suc i) (others c) @ ?zs)"
    using left_behind.hyps(2) by (simp_all add: all_sessions_def id_take_nth_drop [symmetric] upd_conv_take_nth_drop)
  from session_grows [OF all left_behind.hyps(3)] session_fresh [OF left_behind.prems all left_behind.hyps(3)]
  show ?case using left_behind.prems(1) grows_trans by simp
next
  case (user_connect c reachable)
  have "quiet_call c (snd (connect reachable c))" by (simp add: quiet_call_def connect_def)
  with user_connect.prems show ?case using quiet_fresh by blast
next
  case (user_disconnect c)
  have "quiet_call c (disconnect c)"
  proof (cases "current c")
    case (Some s)
    then have "map delivered (all_sessions (c\<lparr>current := Some (close False s)\<rparr>)) = map delivered (all_sessions c)"
      by (simp add: all_sessions_def close_def)
    with Some show ?thesis by (simp add: quiet_call_def disconnect_def)
  qed (simp add: quiet_call_def disconnect_def)
  with user_disconnect.prems show ?case using quiet_fresh by blast
next
  case (user_async_send c data)
  have "quiet_call c (async_send data c)"
    by (auto simp: quiet_call_def async_send_def async_write_def all_sessions_def split: option.splits)
  with user_async_send.prems show ?case using quiet_fresh by blast
next
  case (user_send request c c')
  then have "quiet_call c c'"
    by (auto simp: quiet_call_def send_begin_def async_write_def all_sessions_def split: option.splits if_splits)
  with user_send.prems show ?case using quiet_fresh by blast
next
  case (user_handler c h)
  have "quiet_call c (set_message_handler h c)"
    by (simp add: quiet_call_def set_message_handler_def all_sessions_def)
  with user_handler.prems show ?case using quiet_fresh by blast
next
  case (out_of_work c)
  have "quiet_call c (stop c)" by (simp add: quiet_call_def)
  with out_of_work.prems show ?case using quiet_fresh by blast
next
  case (user_run c)
  have "quiet_call c (run c)" by (simp add: quiet_call_def)
  with user_run.prems show ?case using quiet_fresh by blast
next
  case (user_stop c)
  have "quiet_call c (stop c)" by (simp add: quiet_call_def)
  with user_stop.prems show ?case using quiet_fresh by blast
qed

text \<open>C32. What a caller of \<open>send_and_wait\<close> gets is neither made up nor old: it is a message that one of
  the connections of this client delivered after the call began, whatever was received before and
  whatever the other threads of the user do; and that connection keeps the contract of \<open>Session\<close>. (It
  need not be the answer to this request: see \<open>late_answer_breaks_next_call\<close>.)\<close>

theorem client_answer_delivered:
  assumes "client_init c0" and "client_step\<^sup>*\<^sup>* c0 c" and "send_begin request c = Some c1"
    and "client_step\<^sup>*\<^sup>* c1 c2" and "send_end c2 = Some answer"
  shows "\<exists>i<length (all_sessions c2). let s = all_sessions c2 ! i in
    answer \<in> set (drop (delivered_by c i) (delivered s)) \<and>
    prefix (delivered s) (fst (decode_stream (arrived s)))"
proof -
  have sent: "\<not> response_received c1" "map delivered (all_sessions c1) = map delivered (all_sessions c) @ []"
    using assms(3) by (auto simp: send_begin_def async_write_def all_sessions_def split: option.splits if_splits)
  have "grows c c2 \<and> fresh_answer c c2" using assms(4)
  proof (induction rule: rtranclp_induct)
    case base
    with sent(1) call_grows [OF sent(2)] show ?case by (simp add: fresh_answer_def)
  next
    case (step y z)
    with fresh_step show ?case by blast
  qed
  then have "fresh_answer c c2" ..
  with assms(5) obtain i where i: "i < length (all_sessions c2)"
    "answer \<in> set (drop (delivered_by c i) (delivered (all_sessions c2 ! i)))"
    by (auto simp: fresh_answer_def send_end_def split: if_splits)
  have "client_step\<^sup>*\<^sup>* c0 c2"
    using assms(2-4) client_step.user_send by (meson rtranclp.rtrancl_into_rtrancl rtranclp_trans)
  with client.inv_reachable [OF assms(1)] have "client_inv c2" by blast
  with i(1) have "session_inv (all_sessions c2 ! i)" by (simp add: client_inv_def)
  with i session_inv_contract show ?thesis by (auto simp: Let_def)
qed

text \<open>A call and its answer.\<close>

theorem client_answer_delivered_witness:
  "\<exists>c1 c2. send_begin [1] connected_client = Some c1 \<and> client_step\<^sup>*\<^sup>* c1 c2 \<and> send_end c2 = Some [9] \<and>
     [9] \<in> set (delivered (all_sessions c2 ! 0))"
proof -
  let ?s = "async_write [1] (start (\<lambda>data. []) True new_session)"
  let ?c = "connected_client\<lparr>response_received := False, response_buffer := [], current := Some ?s\<rparr>"
  let ?r = "?s\<lparr>rx := rx ?s @ frame [9], arrived := arrived ?s @ frame [9]\<rparr>"
  let ?c1 = "?c\<lparr>current := Some ?r\<rparr>"
  let ?c2 = "on_reply [9] (?c1\<lparr>current := Some (after_receive [9] [] [] ?r)\<rparr>)"
  have began: "send_begin [1] connected_client = Some ?c"
    by (simp add: send_begin_def client_defs is_open_def)
  have "session_trans ?s (Received (frame [9])) ?r"
    by (rule session_trans.bytes_arrive) (simp add: start_def do_read_header_def new_session_def async_write_def)
  then have "client_trans ?c (Received (frame [9])) (session_ran ?s ?r ?c1)"
    by (rule client_trans.session_runs [rotated 2]) (simp_all add: client_defs)
  then have "client_step ?c ?c1"
    by (auto simp: session_ran_def intro: client_step.connection)
  moreover have "client_step\<^sup>*\<^sup>* ?c1 ?c2"
    by (intro client_io_steps answer_run)
       (simp_all add: client_defs async_write_def deliverable_def max_body_def)
  ultimately have run: "client_step\<^sup>*\<^sup>* ?c ?c2" by (rule rtranclp_head)
  have got: "send_end ?c2 = Some [9]" by (simp add: send_end_def on_reply_def Let_def)
  have one: "length (all_sessions ?c2) = 1"
    by (simp add: on_reply_def Let_def all_sessions_def client_defs)
  have "client_init new_client" by (simp add: client_init_def)
  from client_answer_delivered [OF this connected_client_run began run got] one
  have "[9] \<in> set (delivered (all_sessions ?c2 ! 0))" by (auto simp: Let_def dest: in_set_dropD)
  with began run got show ?thesis by blast
qed

text \<open>C33. A client whose connection was lost never gets an answer again. When the idle connection of
  a running client fails, the \<open>io_context\<close> runs out of work and stops; a later \<open>connect\<close> succeeds and
  \<open>is_connected\<close> says so, but every \<open>send_and_wait\<close> after it times out, because nothing restarts the
  \<open>io_context\<close>.\<close>

theorem reconnect_never_answers:
  assumes "running c" and "others c = []" and "current c = Some s"
    and "reading s = Reading k" and "writing s = No_write" and "posted s = []"
  shows "\<exists>c1. client_step\<^sup>*\<^sup>* c c1 \<and> \<not> is_connected c1 \<and>
    (let (ok, c2) = connect True c1 in ok \<and> is_connected c2 \<and>
      (\<forall>c3 request c4 c5. client_step\<^sup>*\<^sup>* c2 c3 \<and> send_begin request c3 = Some c4 \<and>
        client_step\<^sup>*\<^sup>* c4 c5 \<longrightarrow> send_end c5 = None))"
proof -
  let ?s1 = "s\<lparr>reading := Read_done k (Some (Io_error 0))\<rparr>"
  let ?s2 = "read_handler k (Some (Io_error 0)) ?s1"
  let ?c1 = "c\<lparr>current := Some ?s2\<rparr>"
  have s2: "delivered ?s2 = delivered s" "\<not> sock_open ?s2" "reading ?s2 = No_read"
    "writing ?s2 = No_write" "posted ?s2 = []"
    using assms(5,6) by (cases k; simp add: session_defs)+
  have "client_trans c Internal (c\<lparr>current := Some ?s1\<rparr>)"
    using client_trans.session_runs [OF assms(1,3) session_trans.read_fails [OF assms(4), of 0]]
    by (simp add: session_ran_def)
  moreover have "session_trans ?s1 Internal ?s2" by (rule session_trans.read_handled) simp
  then have "client_trans (c\<lparr>current := Some ?s1\<rparr>) Internal ?c1"
    using client_trans.session_runs [of "c\<lparr>current := Some ?s1\<rparr>" ?s1 Internal ?s2] assms(1) s2(1)
    by (simp add: running_def session_ran_def)
  moreover have "client_step ?c1 (stop ?c1)"
    using assms(1,2) s2 by (intro client_step.out_of_work)
      (simp_all add: running_def all_sessions_def has_work_def)
  ultimately have "client_step\<^sup>*\<^sup>* c (stop ?c1)"
    by (meson client_step.connection rtranclp.intros)
  moreover have "\<not> is_connected (stop ?c1)"
    using s2(2) by (simp add: is_connected_def is_open_def stop_def)
  moreover obtain c2 where c2: "connect True (stop ?c1) = (True, c2)" "is_connected c2" "io_stopped c2"
    by (simp add: connect_def is_connected_def is_open_def start_def do_read_header_def new_session_def)
  moreover have "send_end c5 = None"
    if run: "client_step\<^sup>*\<^sup>* c2 c3" "send_begin request c3 = Some c4" "client_step\<^sup>*\<^sup>* c4 c5"
    for c3 request c4 c5
  proof -
    have "io_stopped c3" using stopped_run [OF run(1) c2(3)] by simp
    with run(2) have "io_stopped c4" "\<not> response_received c4"
      by (auto simp: send_begin_def split: option.splits if_splits)
    with stopped_run [OF run(3)] show ?thesis by (simp add: send_end_def)
  qed
  ultimately show ?thesis by (intro exI [of _ "stop ?c1"]) auto
qed

theorem reconnect_never_answers_witness:
  "\<exists>c1. client_step\<^sup>*\<^sup>* connected_client c1 \<and> \<not> is_connected c1 \<and> fst (connect True c1) \<and>
     (\<forall>c4 c5. send_begin [1] (snd (connect True c1)) = Some c4 \<and> client_step\<^sup>*\<^sup>* c4 c5 \<longrightarrow>
       send_end c5 = None)"
proof -
  have "running connected_client" "others connected_client = []"
    "current connected_client = Some (start (\<lambda>data. []) True new_session)"
    "reading (start (\<lambda>data. []) True new_session) = Reading Header"
    "writing (start (\<lambda>data. []) True new_session) = No_write"
    "posted (start (\<lambda>data. []) True new_session) = []"
    by (simp_all add: client_defs)
  from reconnect_never_answers [OF this] obtain c1 where c1: "client_step\<^sup>*\<^sup>* connected_client c1"
    "\<not> is_connected c1" and later: "let (ok, c2) = connect True c1 in ok \<and> is_connected c2 \<and>
      (\<forall>c3 request c4 c5. client_step\<^sup>*\<^sup>* c2 c3 \<and> send_begin request c3 = Some c4 \<and>
        client_step\<^sup>*\<^sup>* c4 c5 \<longrightarrow> send_end c5 = None)" by blast
  then show ?thesis by (intro exI [of _ c1]) (auto simp: case_prod_beta)
qed

end
