(* ===== verification/TcpServer.thy ===== *)
theory TcpServer
  imports Session
begin

text \<open>
  \<open>tcp_server\<close> and \<open>connection_handle\<close> of \<open>rpc/detail/network.hpp\<close> and \<open>rpc/src/network.cpp\<close>: the
  accept loop, the list of sessions, the request handler the sessions call, and the handle through
  which the layer above reaches a session that may be gone. What it shows: the list holds every open
  connection, a closed one stays in it only while its failing read is on the way, and each connection
  keeps the contract of \<open>Session\<close> whatever happens on the others.
\<close>

section \<open>State\<close>

text \<open>Sessions are named by numbers: \<open>sessions_\<close> is the list of names, and \<open>conns\<close> the session
  objects that were made. A \<open>connection_handle\<close> is the name its \<open>weak_ptr\<close> refers to, if any. The
  request handler is given a message and a handle; its result is the list of the calls it makes, on this
  handle or on any other it may have kept.\<close>

type_synonym connection_handle = "nat option"

datatype handle_call = Reply_on connection_handle bytes | Close_on connection_handle

record tcp_server =
  sessions :: "nat list"                              \<comment> \<open>\<open>sessions_\<close>\<close>
  request_handler :: "(bytes \<Rightarrow> connection_handle \<Rightarrow> handle_call list) option" \<comment> \<open>\<open>request_handler_\<close>\<close>
  accepting :: bool                                   \<comment> \<open>an \<open>async_accept\<close> is outstanding\<close>
  stopped :: bool                                     \<comment> \<open>\<open>io_context_.stop()\<close> was called\<close>
  conns :: "nat \<Rightarrow> session option"                     \<comment> \<open>all sessions ever made\<close>
  handles :: "nat \<Rightarrow> connection_handle"                \<comment> \<open>\<open>connection\<close> in the callback of each session\<close>
  next_conn :: nat

definition new_server :: tcp_server where
  "new_server = \<lparr>sessions = [], request_handler = None, accepting = False, stopped = False,
     conns = (\<lambda>i. None), handles = (\<lambda>i. None), next_conn = 0\<rparr>"


section \<open>Operations of the server\<close>

definition set_request_handler ::
    "(bytes \<Rightarrow> connection_handle \<Rightarrow> handle_call list) option \<Rightarrow> tcp_server \<Rightarrow> tcp_server" where
  "set_request_handler handler srv = srv\<lparr>request_handler := handler\<rparr>"

text \<open>A plain message handler is wrapped so that it never touches the connection.\<close>

definition server_set_message_handler :: "tcp_server \<Rightarrow> tcp_server" where
  "server_set_message_handler srv = srv\<lparr>request_handler := Some (\<lambda>data connection. [])\<rparr>"

definition do_accept :: "tcp_server \<Rightarrow> tcp_server" where
  "do_accept srv = srv\<lparr>accepting := True\<rparr>"

definition run_server :: "tcp_server \<Rightarrow> tcp_server" where
  "run_server srv = do_accept srv"

definition server_stop :: "tcp_server \<Rightarrow> tcp_server" where
  "server_stop srv = srv\<lparr>stopped := True\<rparr>"

definition server_destroy :: "tcp_server \<Rightarrow> tcp_server" where
  "server_destroy srv = server_stop srv"

definition active_connections :: "tcp_server \<Rightarrow> nat" where
  "active_connections srv = length (sessions srv)"

definition conn_open :: "tcp_server \<Rightarrow> nat \<Rightarrow> bool" where
  "conn_open srv i = (case conns srv i of None \<Rightarrow> False | Some s \<Rightarrow> is_open s)"

definition cleanup_sessions :: "tcp_server \<Rightarrow> tcp_server" where
  "cleanup_sessions srv = srv\<lparr>sessions := filter (conn_open srv) (sessions srv)\<rparr>"


section \<open>Connection handles\<close>

text \<open>A session object lives as long as \<open>sessions_\<close> or one of its own outstanding operations refers
  to it; the handle's \<open>weak_ptr\<close> locks just then.\<close>

definition outstanding :: "session \<Rightarrow> bool" where
  "outstanding s \<longleftrightarrow> reading s \<noteq> No_read \<or> writing s \<noteq> No_write \<or> posted s \<noteq> []"

definition lock :: "nat option \<Rightarrow> tcp_server \<Rightarrow> (nat \<times> session) option" where
  "lock h srv = (case h of None \<Rightarrow> None
     | Some i \<Rightarrow> (case conns srv i of None \<Rightarrow> None
       | Some s \<Rightarrow> if i \<in> set (sessions srv) \<or> outstanding s then Some (i, s) else None))"

definition handle_reply :: "nat option \<Rightarrow> bytes \<Rightarrow> tcp_server \<Rightarrow> tcp_server" where
  "handle_reply h data srv = (case lock h srv of None \<Rightarrow> srv
     | Some (i, s) \<Rightarrow> srv\<lparr>conns := (conns srv)(i \<mapsto> async_write data s)\<rparr>)"

definition handle_close :: "nat option \<Rightarrow> tcp_server \<Rightarrow> tcp_server" where
  "handle_close h srv = (case lock h srv of None \<Rightarrow> srv
     | Some (i, s) \<Rightarrow> srv\<lparr>conns := (conns srv)(i \<mapsto> close False s)\<rparr>)"

definition handle_is_open :: "nat option \<Rightarrow> tcp_server \<Rightarrow> bool" where
  "handle_is_open h srv = (case lock h srv of None \<Rightarrow> False | Some (i, s) \<Rightarrow> is_open s)"

definition handle_remote_endpoint ::
    "(session \<Rightarrow> (string \<times> nat) option) \<Rightarrow> nat option \<Rightarrow> tcp_server \<Rightarrow> string" where
  "handle_remote_endpoint peer h srv = (case lock h srv of None \<Rightarrow> ''unknown''
     | Some (i, s) \<Rightarrow> remote_endpoint (peer s))"


section \<open>The callbacks of a session\<close>

text \<open>The message callback of session \<open>i\<close>: it reads \<open>request_handler_\<close> when it is called and passes the
  handle it was made with.\<close>

definition on_request :: "tcp_server \<Rightarrow> nat \<Rightarrow> bytes \<Rightarrow> handle_call list" where
  "on_request srv i data = (case request_handler srv of
       None \<Rightarrow> []
     | Some handler \<Rightarrow> handler data (handles srv i))"

text \<open>The calls of the handler take effect on the session their handle refers to. Those on the session
  that runs the handler are made inside its strand; the others come from outside.\<close>

fun handle_of :: "handle_call \<Rightarrow> connection_handle" where
  "handle_of (Reply_on h data) = h"
| "handle_of (Close_on h) = h"

fun action_of :: "handle_call \<Rightarrow> cb_action" where
  "action_of (Reply_on h data) = Reply data"
| "action_of (Close_on h) = Close_conn"

fun perform_call :: "handle_call \<Rightarrow> tcp_server \<Rightarrow> tcp_server" where
  "perform_call (Reply_on h data) srv = handle_reply h data srv"
| "perform_call (Close_on h) srv = handle_close h srv"

definition own_calls :: "nat \<Rightarrow> handle_call list \<Rightarrow> cb_action list" where
  "own_calls i cs = map action_of (filter (\<lambda>c. handle_of c = Some i) cs)"

definition foreign_calls :: "nat \<Rightarrow> handle_call list \<Rightarrow> handle_call list" where
  "foreign_calls i cs = filter (\<lambda>c. handle_of c \<noteq> Some i) cs"

definition callback :: "tcp_server \<Rightarrow> nat \<Rightarrow> bytes \<Rightarrow> cb_action list" where
  "callback srv i data = own_calls i (on_request srv i data)"

definition accept_handler :: "bool \<Rightarrow> tcp_server \<Rightarrow> tcp_server" where
  "accept_handler ec srv =
     (let srv = srv\<lparr>accepting := False\<rparr>;
          srv = (if \<not> ec
            then let i = next_conn srv; connection = Some i;
                srv = srv\<lparr>handles := (handles srv)(i := connection)\<rparr>;
                s = start (callback srv i) True new_session
              in srv\<lparr>conns := (conns srv)(i \<mapsto> s), next_conn := Suc i, sessions := sessions srv @ [i]\<rparr>
            else srv)
      in do_accept srv)"

text \<open>A handler of session \<open>i\<close> took it to \<open>t\<close>; if it called \<open>on_error_\<close>, the server cleans up; if it
  called \<open>on_message_\<close>, so it did with the calls on other sessions.\<close>

definition conn_ran :: "nat \<Rightarrow> session \<Rightarrow> session \<Rightarrow> tcp_server \<Rightarrow> tcp_server" where
  "conn_ran i s t srv =
     (let srv = srv\<lparr>conns := (conns srv)(i \<mapsto> t)\<rparr>
      in if length (reported s) < length (reported t) then cleanup_sessions srv else srv)"

definition conn_stepped :: "nat \<Rightarrow> session \<Rightarrow> session \<Rightarrow> tcp_server \<Rightarrow> tcp_server" where
  "conn_stepped i s t srv =
     (if length (delivered s) < length (delivered t)
      then fold perform_call (foreign_calls i (on_request srv i (last (delivered t)))) (conn_ran i s t srv)
      else conn_ran i s t srv)"


section \<open>Interleaving\<close>

text \<open>Steps of a running server: the accept handler, the steps of its sessions (in each of which the
  callback is the one above), and calls from outside. Once stopped, no handler runs.\<close>

inductive server_step :: "tcp_server \<Rightarrow> tcp_server \<Rightarrow> bool" where
  accepted_one: "\<not> stopped srv \<Longrightarrow> accepting srv \<Longrightarrow> server_step srv (accept_handler ec srv)"
| session_runs: "\<not> stopped srv \<Longrightarrow> conns srv i = Some s \<Longrightarrow>
    session_trans (s\<lparr>on_message := Some (callback srv i)\<rparr>) x t \<Longrightarrow> x \<noteq> App \<Longrightarrow>
    server_step srv (conn_stepped i s t srv)"
| bytes_wait: "stopped srv \<Longrightarrow> conns srv i = Some s \<Longrightarrow> session_trans s (Received bs) t \<Longrightarrow>
    server_step srv (srv\<lparr>conns := (conns srv)(i \<mapsto> t)\<rparr>)"
| outside_reply: "server_step srv (handle_reply h data srv)"
| outside_close: "server_step srv (handle_close h srv)"
| outside_handler: "server_step srv (set_request_handler handler srv)"
| outside_message_handler: "server_step srv (server_set_message_handler srv)"
| outside_run: "\<not> accepting srv \<Longrightarrow> server_step srv (run_server srv)"
| outside_stop: "server_step srv (server_stop srv)"

definition server_init :: "tcp_server \<Rightarrow> bool" where
  "server_init srv \<longleftrightarrow> srv = new_server"


section \<open>The invariant\<close>

text \<open>Of one session in the server: the contract of \<open>Session\<close>; an error handler; and a session that
  no longer reads has been closed and has reported why.\<close>

definition conn_inv :: "session \<Rightarrow> bool" where
  "conn_inv s \<longleftrightarrow> session_inv s \<and> on_error s \<and> (reading s = No_read \<longrightarrow> reported s \<noteq> []) \<and>
     (reported s \<noteq> [] \<longrightarrow> \<not> sock_open s)"

definition conn_listed :: "nat list \<Rightarrow> nat \<Rightarrow> nat \<Rightarrow> session \<Rightarrow> bool" where
  "conn_listed names n i s \<longleftrightarrow> conn_inv s \<and> i < n \<and> (sock_open s \<longrightarrow> i \<in> set names) \<and>
     (i \<in> set names \<longrightarrow> reported s = [])"

definition server_inv :: "tcp_server \<Rightarrow> bool" where
  "server_inv srv \<longleftrightarrow> distinct (sessions srv) \<and> set (sessions srv) \<subseteq> dom (conns srv) \<and>
     (\<forall>i s. conns srv i = Some s \<longrightarrow> conn_listed (sessions srv) (next_conn srv) i s)"

lemma conn_inv_start: "conn_inv (start f True new_session)"
proof -
  have "session_init (start f True new_session)" by (auto simp: session_init_def)
  then show ?thesis
    using session.inv_init by (auto simp: conn_inv_def start_def do_read_header_def new_session_def)
qed

lemma session_inv_callback: "session_inv s \<Longrightarrow> session_inv (s\<lparr>on_message := Some f\<rparr>)"
  unfolding session_inv_def
proof (elim conjE, intro conjI)
  show "reader_inv s \<Longrightarrow> reader_inv (s\<lparr>on_message := Some f\<rparr>)"
    by (auto simp: reader_inv_def split: read_op.splits read_kind.splits option.splits)
  show "writer_inv s \<Longrightarrow> writer_inv (s\<lparr>on_message := Some f\<rparr>)"
    by (auto simp: writer_inv_def split: write_op.splits option.splits)
  show "header_inv s \<Longrightarrow> header_inv (s\<lparr>on_message := Some f\<rparr>)"
    by (simp add: header_inv_def)
qed

text \<open>What one step of a session does to its reports, its socket and its reads.\<close>

lemma session_trans_reports:
  assumes "session_trans s x t" and "on_error s"
    and "reading s = No_read \<longrightarrow> reported s \<noteq> []" "reported s \<noteq> [] \<longrightarrow> \<not> sock_open s"
  shows "on_error t \<and> (reading t = No_read \<longrightarrow> reported t \<noteq> []) \<and>
    (reported t \<noteq> [] \<longrightarrow> \<not> sock_open t) \<and> (sock_open t \<longrightarrow> sock_open s) \<and>
    (reported t = reported s \<or> length (reported s) < length (reported t))"
  using assms
proof (induction rule: session_trans.induct)
  case (read_handled s k ec)
  then show ?case
    by (cases k; cases ec) (auto simp: session_defs split: option.splits)
next
  case (write_handled s ec)
  then show ?case by (cases ec) (auto simp: session_defs split: list.splits)
next
  case (task_runs s task rest)
  then show ?case by (cases task) (auto simp: session_defs split: list.splits)
qed (auto simp: session_defs)

lemma conn_inv_trans:
  assumes "session_trans s x t" "conn_inv s"
  shows "conn_inv t"
  using assms session_trans_reports [OF assms(1)] session.inv_step [of s t]
  by (auto simp: conn_inv_def session_step_def)

lemma conn_inv_callback: "conn_inv s \<Longrightarrow> conn_inv (s\<lparr>on_message := Some f\<rparr>)"
  by (simp add: conn_inv_def session_inv_callback)

lemma conn_inv_async_write: "conn_inv s \<Longrightarrow> conn_inv (async_write data s)"
  using conn_inv_trans session_trans.app_write by blast

lemma conn_inv_close: "conn_inv s \<Longrightarrow> conn_inv (close False s)"
  using conn_inv_trans session_trans.app_close by blast

lemma server_inv_conn: "server_inv srv \<Longrightarrow> conns srv i = Some s \<Longrightarrow> conn_inv s"
  by (simp add: server_inv_def conn_listed_def)

text \<open>Replacing one session by one that is not more open and reports nothing keeps the invariant.\<close>

lemma server_inv_update:
  assumes "server_inv srv" "conns srv i = Some s" "conn_inv t" "sock_open t \<longrightarrow> sock_open s"
    and "reported t = reported s"
  shows "server_inv (srv\<lparr>conns := (conns srv)(i \<mapsto> t)\<rparr>)"
proof -
  have "conn_listed (sessions srv) (next_conn srv) i s"
    using assms(1,2) by (simp add: server_inv_def)
  then have "conn_listed (sessions srv) (next_conn srv) i t"
    using assms(3-5) by (simp add: conn_listed_def)
  with assms(1) show ?thesis by (simp add: server_inv_def subset_insertI2)
qed

lemma server_inv_ran:
  assumes "server_inv srv" "conns srv i = Some s" "conn_inv t" "sock_open t \<longrightarrow> sock_open s"
    and "reported t = reported s \<or> length (reported s) < length (reported t)"
  shows "server_inv (conn_ran i s t srv)"
proof (cases "length (reported s) < length (reported t)")
  case True
  let ?srv = "srv\<lparr>conns := (conns srv)(i \<mapsto> t)\<rparr>"
  have closed: "\<not> sock_open t" using True assms(3) by (auto simp: conn_inv_def)
  have "conn_listed (filter (conn_open ?srv) (sessions srv)) (next_conn srv) j s'"
    if s': "conns ?srv j = Some s'" for j s'
  proof (cases "j = i")
    case True
    have "i < next_conn srv" using assms(1,2) by (simp add: server_inv_def conn_listed_def)
    with True s' closed assms(3) show ?thesis
      by (simp add: conn_listed_def conn_open_def is_open_def)
  next
    case False
    with s' have "conns srv j = Some s'" by simp
    with assms(1) have "conn_listed (sessions srv) (next_conn srv) j s'" by (simp add: server_inv_def)
    with s' show ?thesis by (simp add: conn_listed_def conn_open_def is_open_def)
  qed
  moreover have "distinct (filter (conn_open ?srv) (sessions srv))"
    "set (filter (conn_open ?srv) (sessions srv)) \<subseteq> dom (conns ?srv)"
    using assms(1) by (auto simp: server_inv_def)
  ultimately show ?thesis using True
    by (simp add: server_inv_def conn_ran_def cleanup_sessions_def Let_def)
next
  case False
  with assms show ?thesis by (auto simp: conn_ran_def intro: server_inv_update)
qed

lemma lock_Some: "lock h srv = Some (i, s) \<Longrightarrow> conns srv i = Some s"
  by (auto simp: lock_def split: option.splits if_splits)

lemma server_inv_add:
  assumes "server_inv srv" "conn_inv s" "reported s = []"
  shows "server_inv (srv\<lparr>conns := (conns srv)(next_conn srv \<mapsto> s), next_conn := Suc (next_conn srv),
    sessions := sessions srv @ [next_conn srv]\<rparr>)"
proof -
  have listed: "conn_listed (sessions srv) (next_conn srv) i s'" if "conns srv i = Some s'" for i s'
    using assms(1) that by (simp add: server_inv_def)
  have "next_conn srv \<notin> set (sessions srv)"
  proof
    assume "next_conn srv \<in> set (sessions srv)"
    then obtain s' where "conns srv (next_conn srv) = Some s'"
      using assms(1) by (auto simp: server_inv_def)
    from listed [OF this] show False by (simp add: conn_listed_def)
  qed
  moreover have "conn_listed (sessions srv @ [next_conn srv]) (Suc (next_conn srv)) i s'"
    if "conns srv i = Some s'" for i s'
    using listed [OF that] by (auto simp: conn_listed_def)
  moreover have "conn_listed (sessions srv @ [next_conn srv]) (Suc (next_conn srv)) (next_conn srv) s"
    using assms(2,3) by (simp add: conn_listed_def)
  ultimately show ?thesis using assms(1) by (auto simp: server_inv_def)
qed

lemma server_inv_flags [simp]:
  "server_inv (srv\<lparr>accepting := b\<rparr>) \<longleftrightarrow> server_inv srv"
  "server_inv (srv\<lparr>stopped := b\<rparr>) \<longleftrightarrow> server_inv srv"
  "server_inv (srv\<lparr>request_handler := h\<rparr>) \<longleftrightarrow> server_inv srv"
  "server_inv (srv\<lparr>handles := hs\<rparr>) \<longleftrightarrow> server_inv srv"
  by (simp_all add: server_inv_def)

lemma server_inv_accept:
  assumes "server_inv srv" shows "server_inv (accept_handler ec srv)"
proof (cases ec)
  case True
  with assms show ?thesis by (simp add: accept_handler_def do_accept_def)
next
  case False
  let ?srv = "srv\<lparr>accepting := False, handles := (handles srv)(next_conn srv := Some (next_conn srv))\<rparr>"
  let ?s = "start (callback ?srv (next_conn srv)) True new_session"
  have "conn_inv ?s" "reported ?s = []"
    by (rule conn_inv_start) (simp add: start_def do_read_header_def new_session_def)
  moreover have "server_inv ?srv" using assms by simp
  ultimately have "server_inv (?srv\<lparr>conns := (conns ?srv)(next_conn ?srv \<mapsto> ?s),
      next_conn := Suc (next_conn ?srv), sessions := sessions ?srv @ [next_conn ?srv]\<rparr>)"
    by (intro server_inv_add)
  with False show ?thesis by (simp add: accept_handler_def do_accept_def Let_def server_inv_def)
qed

lemma server_inv_reply: "server_inv srv \<Longrightarrow> server_inv (handle_reply h data srv)"
proof (cases "lock h srv")
  case (Some p)
  moreover assume inv: "server_inv srv"
  moreover obtain i s where p: "p = (i, s)" by (cases p)
  moreover have "conns srv i = Some s" using Some p by (simp add: lock_Some)
  moreover have "conn_inv (async_write data s)"
    using calculation(4) inv by (intro conn_inv_async_write server_inv_conn)
  ultimately show ?thesis
    by (simp add: handle_reply_def) (rule server_inv_update, simp_all add: async_write_def)
qed (simp add: handle_reply_def)

lemma server_inv_close: "server_inv srv \<Longrightarrow> server_inv (handle_close h srv)"
proof (cases "lock h srv")
  case (Some p)
  moreover assume inv: "server_inv srv"
  moreover obtain i s where p: "p = (i, s)" by (cases p)
  moreover have "conns srv i = Some s" using Some p by (simp add: lock_Some)
  moreover have "conn_inv (close False s)"
    using calculation(4) inv by (intro conn_inv_close server_inv_conn)
  ultimately show ?thesis
    by (simp add: handle_close_def) (rule server_inv_update, simp_all add: close_def)
qed (simp add: handle_close_def)

lemma server_inv_calls: "server_inv srv \<Longrightarrow> server_inv (fold perform_call cs srv)"
proof (induction cs arbitrary: srv)
  case (Cons c cs)
  then show ?case by (cases c) (simp_all add: server_inv_reply server_inv_close)
qed simp

lemma server_inv_step: "server_step srv srv' \<Longrightarrow> server_inv srv \<Longrightarrow> server_inv srv'"
proof (induction rule: server_step.induct)
  case (session_runs srv i s x t)
  let ?s = "s\<lparr>on_message := Some (callback srv i)\<rparr>"
  have inv: "conn_inv ?s"
    using server_inv_conn [OF session_runs.prems session_runs.hyps(2)] by (rule conn_inv_callback)
  then have "conn_inv t" by (rule conn_inv_trans [OF session_runs.hyps(3)])
  moreover have "(sock_open t \<longrightarrow> sock_open s) \<and>
      (reported t = reported s \<or> length (reported s) < length (reported t))"
    using session_trans_reports [OF session_runs.hyps(3)] inv by (simp add: conn_inv_def)
  ultimately have "server_inv (conn_ran i s t srv)" using session_runs.hyps(2) session_runs.prems
    by (intro server_inv_ran [of srv i s]) simp_all
  then show ?case by (simp add: conn_stepped_def server_inv_calls)
next
  case (bytes_wait srv i s bs t)
  then have inv: "conn_inv s" by (simp add: server_inv_conn)
  have "conn_inv t" by (rule conn_inv_trans [OF bytes_wait.hyps(3) inv])
  moreover from bytes_wait.hyps(3) have "sock_open t = sock_open s" "reported t = reported s"
    by (auto elim: received_cases)
  ultimately show ?case using bytes_wait by (auto intro: server_inv_update)
qed (simp_all add: server_inv_accept server_inv_reply server_inv_close set_request_handler_def
      server_set_message_handler_def run_server_def do_accept_def server_stop_def)

interpretation server: invariant_system server_init server_step server_inv
proof
  show "server_inv srv" if "server_init srv" for srv
    using that by (simp add: server_init_def server_inv_def new_server_def)
  show "server_inv srv'" if "server_inv srv" "server_step srv srv'" for srv srv'
    using that by (blast intro: server_inv_step)
qed


text \<open>A session object that no one refers to takes no step any more.\<close>

lemma dead_session:
  assumes "session_trans s x t" "\<not> outstanding s" "\<not> sock_open s"
  shows "x = App"
  using assms by (cases rule: session_trans.cases) (auto simp: outstanding_def)

lemma lock_None:
  "lock (Some i) srv = None \<longleftrightarrow>
     (\<forall>s. conns srv i = Some s \<longrightarrow> i \<notin> set (sessions srv) \<and> \<not> outstanding s)"
  by (auto simp: lock_def split: option.splits)

lemma lock_other: "lock (Some i) srv = None \<Longrightarrow> lock h srv = Some (j, s) \<Longrightarrow> i \<noteq> j"
  by (auto simp: lock_def split: option.splits if_splits)

text \<open>Calls through a handle do not reach a session that is gone.\<close>

definition gone :: "nat \<Rightarrow> tcp_server \<Rightarrow> tcp_server \<Rightarrow> bool" where
  "gone i srv srv' \<longleftrightarrow> next_conn srv' = next_conn srv \<and> lock (Some i) srv' = None \<and> conns srv' i = conns srv i"

lemma gone_reply: "lock (Some i) srv = None \<Longrightarrow> gone i srv (handle_reply h data srv)"
proof (cases "lock h srv")
  case (Some p)
  moreover assume "lock (Some i) srv = None"
  moreover obtain j s where "p = (j, s)" by (cases p)
  ultimately show ?thesis using lock_other [of i srv h j s] by (simp add: gone_def handle_reply_def lock_None)
qed (simp add: gone_def handle_reply_def)

lemma gone_close: "lock (Some i) srv = None \<Longrightarrow> gone i srv (handle_close h srv)"
proof (cases "lock h srv")
  case (Some p)
  moreover assume "lock (Some i) srv = None"
  moreover obtain j s where "p = (j, s)" by (cases p)
  ultimately show ?thesis using lock_other [of i srv h j s] by (simp add: gone_def handle_close_def lock_None)
qed (simp add: gone_def handle_close_def)

lemma gone_calls: "lock (Some i) srv = None \<Longrightarrow> gone i srv (fold perform_call cs srv)"
proof (induction cs arbitrary: srv)
  case (Cons c cs)
  then have "gone i srv (perform_call c srv)" by (cases c) (simp_all add: gone_reply gone_close)
  with Cons.IH [of "perform_call c srv"] show ?case by (simp add: gone_def)
qed (simp add: gone_def)

lemma dead_step:
  assumes "server_step srv srv'" "server_inv srv" "i < next_conn srv" "lock (Some i) srv = None"
  shows "i < next_conn srv' \<and> lock (Some i) srv' = None \<and> conns srv' i = conns srv i"
proof -
  have other: "i \<noteq> j" if "conns srv j = Some s" "session_trans (s\<lparr>on_message := f\<rparr>) x t" "x \<noteq> App"
    for j s x t f
  proof
    assume "i = j"
    with that(1) assms(4) have dead: "i \<notin> set (sessions srv)" "\<not> outstanding s"
      by (auto simp: lock_None)
    with that(1) \<open>i = j\<close> assms(2) have "\<not> sock_open s"
      by (auto simp: server_inv_def conn_listed_def)
    with dead_session [OF that(2)] dead(2) that(3) show False by (simp add: outstanding_def)
  qed
  from assms(1,3,4) other show ?thesis
  proof (induction rule: server_step.induct)
    case (session_runs srv j s x t)
    then have "i \<noteq> j" by blast
    with session_runs.prems have "gone i srv (conn_ran j s t srv)"
      by (auto simp: gone_def lock_None conn_ran_def cleanup_sessions_def Let_def)
    with gone_calls [of i "conn_ran j s t srv"] session_runs.prems(1) show ?case
      by (simp add: gone_def conn_stepped_def)
  next
    case (bytes_wait srv j s bs t)
    have "s\<lparr>on_message := on_message s\<rparr> = s" by simp
    with bytes_wait have "i \<noteq> j" by (metis label.distinct)
    with bytes_wait.prems show ?case by (auto simp: lock_None)
  next
    case (outside_reply srv h data)
    with gone_reply [of i srv h data] show ?case by (simp add: gone_def)
  next
    case (outside_close srv h)
    with gone_close [of i srv h] show ?case by (simp add: gone_def)
  qed (simp_all add: lock_None accept_handler_def do_accept_def set_request_handler_def
      server_set_message_handler_def run_server_def server_stop_def Let_def)
qed


section \<open>Properties\<close>

text \<open>A run of a server that accepts one connection and loses it: for the witnesses.\<close>

definition one_conn :: tcp_server where
  "one_conn = accept_handler False (run_server new_server)"

definition lost_conn :: tcp_server where
  "lost_conn = (let s = start (\<lambda>data. []) True new_session in
     conn_ran 0 (s\<lparr>reading := Read_done Header (Some (Io_error 1))\<rparr>)
       (header_handler (Some (Io_error 1)) (s\<lparr>reading := Read_done Header (Some (Io_error 1))\<rparr>))
       (conn_ran 0 s (s\<lparr>reading := Read_done Header (Some (Io_error 1))\<rparr>) one_conn))"

lemma callback_none [simp]: "request_handler srv = None \<Longrightarrow> callback srv i = (\<lambda>data. [])"
  by (simp add: callback_def own_calls_def on_request_def fun_eq_iff)

lemmas server_defs = accept_handler_def do_accept_def run_server_def new_server_def conn_ran_def
  cleanup_sessions_def conn_open_def is_open_def one_conn_def lost_conn_def start_def
  do_read_header_def new_session_def header_handler_def do_close_def report_def

lemma one_conn_run: "server_step\<^sup>*\<^sup>* new_server one_conn"
proof -
  have "server_step new_server (run_server new_server)"
    by (rule server_step.outside_run) (simp add: new_server_def)
  moreover have "server_step (run_server new_server) one_conn"
    unfolding one_conn_def
    by (rule server_step.accepted_one) (simp_all add: run_server_def do_accept_def new_server_def)
  ultimately show ?thesis by (meson rtranclp.intros)
qed

lemma one_conn_0: "conns one_conn 0 = Some (start (\<lambda>data. []) True new_session)"
  by (simp add: server_defs)

lemma lost_conn_run: "server_step\<^sup>*\<^sup>* one_conn lost_conn"
proof -
  let ?s = "start (\<lambda>data. []) True new_session"
  let ?f = "?s\<lparr>reading := Read_done Header (Some (Io_error 1))\<rparr>"
  let ?srv = "conn_ran 0 ?s ?f one_conn"
  have cb: "?s\<lparr>on_message := Some (\<lambda>data. [])\<rparr> = ?s"
    by (simp add: start_def do_read_header_def new_session_def)
  have h: "request_handler one_conn = None" "\<not> stopped one_conn"
    "request_handler ?srv = None" "\<not> stopped ?srv" "conns ?srv 0 = Some ?f"
    by (simp_all add: server_defs)
  have "session_trans ?s Internal ?f"
    by (rule session_trans.read_fails) (simp add: start_def do_read_header_def)
  then have "server_step one_conn (conn_stepped 0 ?s ?f one_conn)"
    using h by (intro server_step.session_runs [where x = Internal]) (simp_all add: one_conn_0 cb)
  moreover have "conn_stepped 0 ?s ?f one_conn = ?srv"
    by (simp add: conn_stepped_def start_def do_read_header_def)
  moreover have "session_trans ?f Internal (header_handler (Some (Io_error 1)) ?f)"
    using session_trans.read_handled [of ?f Header "Some (Io_error 1)"] by simp
  then have "server_step ?srv (conn_stepped 0 ?f (header_handler (Some (Io_error 1)) ?f) ?srv)"
    using h by (intro server_step.session_runs [where x = Internal])
       (simp_all add: start_def do_read_header_def new_session_def)
  moreover have "conn_stepped 0 ?f (header_handler (Some (Io_error 1)) ?f) ?srv = lost_conn"
    by (simp add: conn_stepped_def lost_conn_def Let_def header_handler_def report_def do_close_def)
  ultimately show ?thesis by (metis rtranclp.rtrancl_into_rtrancl rtranclp.rtrancl_refl)
qed

text \<open>C31. The session list of the server: no connection is listed twice; every open connection is
  listed, so \<open>active_connections\<close> is never below their number; and a listed connection that is closed
  has not reported its error yet and still has the read outstanding whose failure removes it, so
  no closed session is kept for good.\<close>

theorem server_tracks_connections:
  assumes "server_init srv0" and "server_step\<^sup>*\<^sup>* srv0 srv"
  shows "distinct (sessions srv) \<and> {i. conn_open srv i} \<subseteq> set (sessions srv) \<and>
    card {i. conn_open srv i} \<le> active_connections srv \<and>
    (\<forall>i \<in> set (sessions srv). \<exists>s. conns srv i = Some s \<and> reported s = [] \<and> reading s \<noteq> No_read)"
proof -
  from server.inv_reachable [OF assms] have inv: "server_inv srv" .
  then have open_listed: "{i. conn_open srv i} \<subseteq> set (sessions srv)"
    by (auto simp: server_inv_def conn_listed_def conn_open_def is_open_def split: option.splits)
  have "card {i. conn_open srv i} \<le> card (set (sessions srv))"
    by (rule card_mono [OF _ open_listed]) simp
  also have "\<dots> \<le> active_connections srv" by (simp add: active_connections_def card_length)
  finally have "card {i. conn_open srv i} \<le> active_connections srv" .
  moreover have "\<exists>s. conns srv i = Some s \<and> reported s = [] \<and> reading s \<noteq> No_read"
    if "i \<in> set (sessions srv)" for i
  proof -
    from that inv obtain s where s: "conns srv i = Some s" by (auto simp: server_inv_def)
    with inv have "conn_listed (sessions srv) (next_conn srv) i s" by (simp add: server_inv_def)
    with that s show ?thesis by (auto simp: conn_listed_def conn_inv_def)
  qed
  ultimately show ?thesis using inv open_listed by (simp add: server_inv_def)
qed

theorem server_tracks_connections_witness:
  "active_connections one_conn = 1 \<and> {i. conn_open one_conn i} \<subseteq> {0} \<and> conn_open one_conn 0"
proof -
  have "sessions one_conn = [0]" "conn_open one_conn 0" by (simp_all add: server_defs)
  moreover have "{i. conn_open one_conn i} \<subseteq> set (sessions one_conn)"
    using server_tracks_connections [OF _ one_conn_run] by (simp add: server_init_def)
  ultimately show ?thesis by (simp add: active_connections_def)
qed

text \<open>A handle is safe after its session is gone: once the \<open>weak_ptr\<close> no longer locks it never locks
  again, whatever the server does, so \<open>reply\<close> and \<open>close\<close> through it stay without effect and \<open>is_open\<close>
  stays false.\<close>

lemma destroyed_session_stays:
  assumes "server_init srv0" and "server_step\<^sup>*\<^sup>* srv0 srv"
    and "i < next_conn srv" and "lock (Some i) srv = None" and "server_step\<^sup>*\<^sup>* srv srv'"
  shows "lock (Some i) srv' = None \<and> conns srv' i = conns srv i \<and>
    handle_reply (Some i) data srv' = srv' \<and> handle_close (Some i) srv' = srv' \<and>
    \<not> handle_is_open (Some i) srv'"
proof -
  have "server_inv srv" by (rule server.inv_reachable [OF assms(1,2)])
  from assms(5) have "server_inv srv' \<and> i < next_conn srv' \<and> lock (Some i) srv' = None \<and>
    conns srv' i = conns srv i"
  proof (induction rule: rtranclp_induct)
    case base
    show ?case using assms(3,4) \<open>server_inv srv\<close> by simp
  next
    case (step t u)
    then show ?case using dead_step [of t u i] server_inv_step [of t u] by simp
  qed
  then show ?thesis by (simp add: handle_reply_def handle_close_def handle_is_open_def)
qed

end
