(* ===== verification/System.thy ===== *)
theory System
  imports Link ClientStub TcpClient TcpServer
begin

text \<open>
  A client stub and a server stub on one connection: \<open>client_stub::call\<close> from any number of threads,
  the two sessions, the bytes between them, and \<open>server_stub\<close> answering. What it shows: under every
  interleaving, with time-outs and lost connections, a call that returns returns the answer of the
  dispatcher to its own request; and a call on an idle connection can complete.
\<close>

section \<open>The stubs on their sessions\<close>

text \<open>The handler \<open>server_stub\<close> installs answers through the handle it is given. Where the request has
  undefined behaviour or an exception leaves the handler there is nothing to model; the theorems
  exclude the first and \<open>handle_request_total\<close> the second.\<close>

definition stub_request_handler :: "codec \<Rightarrow> bytes \<Rightarrow> connection_handle \<Rightarrow> handle_call list" where
  "stub_request_handler C data connection =
     (case handle_request C data of Ret reply \<Rightarrow> [Reply_on connection reply] | _ \<Rightarrow> [])"

definition server_stub :: "codec \<Rightarrow> tcp_server" where
  "server_stub C = set_request_handler (Some (stub_request_handler C)) new_server"

text \<open>What this is for a session that passes its own handle.\<close>

definition stub_handler :: "codec \<Rightarrow> bytes \<Rightarrow> cb_action list" where
  "stub_handler C data = (case handle_request C data of Ret reply \<Rightarrow> [Reply reply] | _ \<Rightarrow> [])"

lemma stub_callback:
  assumes "request_handler srv = Some (stub_request_handler C)" "handles srv i = Some i"
  shows "callback srv i = stub_handler C" "foreign_calls i (on_request srv i data) = []"
  using assms by (auto simp: fun_eq_iff callback_def own_calls_def foreign_calls_def on_request_def
      stub_request_handler_def stub_handler_def split: outcome.split)

record system =
  client :: tcp_client
  server :: session                 \<comment> \<open>the server's session of this connection\<close>
  to_server :: bytes
  to_client :: bytes
  next_request_id :: u64
  pending :: "Request list"         \<comment> \<open>calls inside \<open>send_and_wait\<close>\<close>
  requests :: "Request list"        \<comment> \<open>history: all calls\<close>
  results :: "(Request \<times> Response outcome) list" \<comment> \<open>history: finished calls and their outcome\<close>

abbreviation timed_out :: "Response outcome" where
  "timed_out \<equiv> runtime_error ''rpc request timed out or connection is closed''"

definition call_begin :: "codec \<Rightarrow> MethodType \<Rightarrow> bytes \<Rightarrow> system \<Rightarrow> system" where
  "call_begin C mtype body sys =
     (let r = \<lparr>req_id = next_request_id sys, req_type = mtype, req_body = body\<rparr>;
          sys = sys\<lparr>next_request_id := next_request_id sys + 1, requests := requests sys @ [r]\<rparr>
      in case send_begin (ser_Request C r) (client sys) of
           None \<Rightarrow> sys\<lparr>results := results sys @ [(r, timed_out)]\<rparr>
         | Some c \<Rightarrow> sys\<lparr>client := c, pending := pending sys @ [r]\<rparr>)"

definition call_end :: "codec \<Rightarrow> Request \<Rightarrow> system \<Rightarrow> system" where
  "call_end C r sys =
     sys\<lparr>pending := remove1 r (pending sys), results := results sys @ [(r,
       case send_end (client sys) of None \<Rightarrow> timed_out
       | Some response \<Rightarrow> check_response C (req_id r) (req_type r) response)]\<rparr>"

inductive system_step :: "codec \<Rightarrow> system \<Rightarrow> system \<Rightarrow> bool" for C where
  call_begins: "system_step C sys (call_begin C mtype body sys)"
| call_ends: "r \<in> set (pending sys) \<Longrightarrow> system_step C sys (call_end C r sys)"
| client_internal: "client_trans (client sys) Internal c \<Longrightarrow> system_step C sys (sys\<lparr>client := c\<rparr>)"
| client_sends: "client_trans (client sys) (Sent bs) c \<Longrightarrow>
    system_step C sys (sys\<lparr>client := c, to_server := to_server sys @ bs\<rparr>)"
| client_receives: "client_trans (client sys) (Received bs) c \<Longrightarrow> to_client sys = bs @ rest \<Longrightarrow>
    system_step C sys (sys\<lparr>client := c, to_client := rest\<rparr>)"
| client_handler: "system_step C sys (sys\<lparr>client := set_message_handler h (client sys)\<rparr>)"
| client_disconnects: "system_step C sys (sys\<lparr>client := disconnect (client sys)\<rparr>)"
| client_stops: "system_step C sys (sys\<lparr>client := stop (client sys)\<rparr>)"
| server_internal: "session_trans (server sys) Internal s \<Longrightarrow> system_step C sys (sys\<lparr>server := s\<rparr>)"
| server_sends: "session_trans (server sys) (Sent bs) s \<Longrightarrow>
    system_step C sys (sys\<lparr>server := s, to_client := to_client sys @ bs\<rparr>)"
| server_receives: "session_trans (server sys) (Received bs) s \<Longrightarrow> to_server sys = bs @ rest \<Longrightarrow>
    system_step C sys (sys\<lparr>server := s, to_server := rest\<rparr>)"

text \<open>Right after the client connected to a server stub that accepted it.\<close>

definition connected :: "codec \<Rightarrow> system" where
  "connected C = \<lparr>client = snd (connect True new_client),
     server = start (stub_handler C) True new_session, to_server = [], to_client = [],
     next_request_id = 1, pending = [], requests = [], results = []\<rparr>"

text \<open>The session of the system is the one a stub's accept handler starts.\<close>

lemma stub_accepts:
  "conns (accept_handler False (run_server (server_stub C))) 0 = Some (server (connected C))"
  by (simp add: server_stub_def set_request_handler_def server_defs connected_def stub_callback)


section \<open>Sent and answered messages\<close>

definition queued :: "session \<Rightarrow> bytes set" where
  "queued s = set (accepted s) \<union> {data. Write_task data \<in> set (posted s)}"

lemma queued_write [simp]: "queued (async_write data s) = insert data (queued s)"
  by (auto simp: queued_def async_write_def)

lemma queued_close [simp]: "queued (close b s) = queued s"
  by (auto simp: queued_def close_def do_close_def)

text \<open>Only the application and the callback put messages in.\<close>

lemma queued_trans:
  assumes "session_trans s x t" "x \<noteq> App"
  shows "queued t \<subseteq> queued s \<union>
    {data. \<exists>f. on_message s = Some f \<and> delivered t \<noteq> delivered s \<and>
       Reply data \<in> set (f (last (delivered t)))} \<and> on_message t = on_message s"
  using assms
proof (induction rule: session_trans.induct)
  case (read_handled s k ec)
  have "Write_task data \<in> set (replies as) \<longleftrightarrow> Reply data \<in> set as" for data as
    by (induction as rule: replies.induct) auto
  with read_handled show ?case
    by (cases k; cases ec) (auto simp: queued_def session_defs split: option.splits)
next
  case (write_handled s ec)
  then show ?case by (cases ec) (auto simp: queued_def session_defs split: list.splits)
next
  case (task_runs s task rest)
  then show ?case by (cases task) (auto simp: queued_def session_defs split: list.splits)
qed (auto simp: queued_def session_defs)

text \<open>Requests that the dispatcher answers, with sizes protobuf handles.\<close>

definition served :: "codec \<Rightarrow> Request \<Rightarrow> bool" where
  "served C r \<longleftrightarrow> length (req_body r) < 2 ^ 30 \<and>
     (case dispatch C r of Ret resp \<Rightarrow> length (resp_body resp) < 2 ^ 30 | _ \<Rightarrow> False)"

definition reply_to :: "codec \<Rightarrow> Request \<Rightarrow> bytes" where
  "reply_to C r = (case dispatch C r of Ret resp \<Rightarrow> ser_Response C resp | _ \<Rightarrow> [])"

lemma served_handled:
  assumes "codec_ok C" "served C r"
  shows "handle_request C (ser_Request C r) = Ret (reply_to C r)"
  using assms by (auto simp: served_def reply_to_def handle_request_def codec_ok_envelope(1)
      serialize_response_def split: outcome.splits)

lemma served_small:
  assumes "codec_ok C" "served C r"
  shows "length (ser_Request C r) < 2 ^ 32" "length (reply_to C r) < 2 ^ 32"
proof -
  have "length (req_body r) < 2 ^ 30" using assms(2) by (simp add: served_def)
  moreover have "length (ser_Request C r) \<le> length (req_body r) + 64"
    by (rule codec_ok_envelope(3) [OF assms(1)])
  ultimately show "length (ser_Request C r) < 2 ^ 32" by simp
  obtain resp where resp: "dispatch C r = Ret resp" "length (resp_body resp) < 2 ^ 30"
    using assms(2) by (auto simp: served_def split: outcome.splits)
  from dispatch_facts [OF resp(1)] have "length (resp_error_message resp) \<le> 33"
    by (auto simp: error_message_ok_def split: if_splits)
  moreover have "length (ser_Response C resp) \<le>
      length (resp_body resp) + length (resp_error_message resp) + 64"
    by (rule codec_ok_envelope(4) [OF assms(1)])
  ultimately show "length (reply_to C r) < 2 ^ 32" using resp by (simp add: reply_to_def)
qed


section \<open>The connection between the stubs\<close>

text \<open>For the calls \<open>rs\<close> made so far: both sessions keep their contract, the bytes under way are what
  one sent and the other has not got, the client's session carries requests of \<open>rs\<close> only and the
  server's session answers to requests of \<open>rs\<close> only.\<close>

definition conn_ok ::
    "codec \<Rightarrow> Request set \<Rightarrow> session \<Rightarrow> session \<Rightarrow> bytes \<Rightarrow> bytes \<Rightarrow> bool" where
  "conn_ok C rs c s ts tc \<longleftrightarrow> session_inv c \<and> session_inv s \<and>
     on_message c = Some (\<lambda>data. []) \<and> on_message s = Some (stub_handler C) \<and>
     tx c = arrived s @ ts \<and> tx s = arrived c @ tc \<and>
     queued c \<subseteq> ser_Request C ` rs \<and> queued s \<subseteq> reply_to C ` rs"

lemma accepted_queued: "set (accepted s) \<subseteq> queued s"
  by (simp add: queued_def)

lemma delivered_subset:
  assumes "session_inv r" "session_inv s" "tx s = arrived r @ w"
    and "\<forall>m \<in> set (accepted s). length m < 2 ^ 32"
  shows "set (delivered r) \<subseteq> set (accepted s)"
proof -
  have "prefix (delivered r) (takeWhile deliverable (accepted s))"
    using assms by (intro one_way [of r s w]) (simp_all add: session_inv_def)
  then have "set (delivered r) \<subseteq> set (takeWhile deliverable (accepted s))"
    by (rule set_mono_prefix)
  then show ?thesis by (auto dest: set_takeWhileD)
qed

lemma client_side_step:
  assumes "conn_ok C rs c s ts tc" "session_trans c x c'" "x \<noteq> App"
    and "ts' = ts @ sent_by x" "tc = received_by x @ tc'"
  shows "conn_ok C rs c' s ts' tc'"
proof -
  have "session_inv c'" using assms(1,2) session_inv_trans by (auto simp: conn_ok_def)
  moreover have "queued c' \<subseteq> queued c" "on_message c' = on_message c"
    using queued_trans [OF assms(2,3)] assms(1) by (auto simp: conn_ok_def)
  ultimately show ?thesis using assms session_trans_io [OF assms(2)] by (auto simp: conn_ok_def)
qed

lemma server_side_step:
  assumes ok: "conn_ok C rs c s ts tc" "codec_ok C" "\<forall>r \<in> rs. served C r"
    and step: "session_trans s x s'" "x \<noteq> App"
    and io: "ts = received_by x @ ts'" "tc' = tc @ sent_by x"
  shows "conn_ok C rs c s' ts' tc'"
proof -
  have inv: "session_inv s'" "session_inv c"
    using ok(1) step(1) session_inv_trans by (auto simp: conn_ok_def)
  have arr: "tx c = arrived s' @ ts'" "tx s' = arrived c @ tc'"
    using ok(1) io session_trans_io [OF step(1)] by (auto simp: conn_ok_def)
  have acc: "set (accepted c) \<subseteq> ser_Request C ` rs"
    using ok(1) accepted_queued [of c] by (auto simp: conn_ok_def)
  with ok(2,3) served_small(1) have "\<forall>m \<in> set (accepted c). length m < 2 ^ 32" by blast
  from delivered_subset [OF inv arr(1) this] acc
  have del: "set (delivered s') \<subseteq> ser_Request C ` rs" by blast
  have "reply \<in> reply_to C ` rs"
    if "delivered s' \<noteq> delivered s" "Reply reply \<in> set (stub_handler C (last (delivered s')))" for reply
  proof -
    from that(1) delivered_trans [OF step(1)] have "last (delivered s') \<in> set (delivered s')" by auto
    with del obtain r where "r \<in> rs" "last (delivered s') = ser_Request C r" by auto
    with that(2) ok(2,3) show ?thesis by (auto simp: stub_handler_def served_handled)
  qed
  then have "queued s' \<subseteq> reply_to C ` rs" "on_message s' = Some (stub_handler C)"
    using queued_trans [OF step] ok(1) by (auto simp: conn_ok_def)
  with ok(1) inv arr show ?thesis by (simp add: conn_ok_def)
qed

lemma conn_ok_more: "conn_ok C rs c s ts tc \<Longrightarrow> rs \<subseteq> rs' \<Longrightarrow> conn_ok C rs' c s ts tc"
  using image_mono [of rs rs' "ser_Request C"] image_mono [of rs rs' "reply_to C"]
  by (simp add: conn_ok_def) (meson order_trans)

lemma written_fields [simp]:
  "on_message (async_write data s) = on_message s" "tx (async_write data s) = tx s"
  "arrived (async_write data s) = arrived s"
  by (simp_all add: async_write_def)

lemma closed_fields [simp]:
  "on_message (close b s) = on_message s" "tx (close b s) = tx s" "arrived (close b s) = arrived s"
  by (simp_all add: close_def do_close_def)

lemma request_written:
  assumes "conn_ok C rs c s ts tc" "r \<in> rs"
  shows "conn_ok C rs (async_write (ser_Request C r) c) s ts tc"
  using assms session_inv_write [of c "ser_Request C r"] by (simp add: conn_ok_def)

lemma client_closed: "conn_ok C rs c s ts tc \<Longrightarrow> conn_ok C rs (close False c) s ts tc"
  using session_inv_close [of c] by (simp add: conn_ok_def)

text \<open>A client with one session, and its operations on that session.\<close>

lemma one_session_trans:
  assumes "client_trans c x c'" "all_sessions c = [s]"
  shows "\<exists>t. session_trans s x t \<and> x \<noteq> App \<and> all_sessions c' = [t]"
  using assms by (cases rule: client_trans.cases) (auto simp: all_sessions_def)

lemma one_session_send:
  assumes "send_begin request c = Some c'" "all_sessions c = [s]"
  shows "all_sessions c' = [async_write request s]"
  using assms by (auto simp: send_begin_def all_sessions_def split: option.splits if_splits)

lemma one_session_disconnect:
  assumes "all_sessions c = [s]"
  shows "\<exists>t. all_sessions (disconnect c) = [t] \<and> (t = s \<or> t = close False s)"
  using assms by (auto simp: disconnect_def all_sessions_def drop_session_def TcpClient.stop_def
      split: option.splits)

lemma one_session_flags [simp]:
  "all_sessions (TcpClient.stop c) = all_sessions c"
  "all_sessions (set_message_handler h c) = all_sessions c"
  by (simp_all add: TcpClient.stop_def set_message_handler_def all_sessions_def)


section \<open>The invariant\<close>

text \<open>What holds of every state: the identifiers count up from one, and every pending or finished
  call was begun. What holds as long as all requests are served: the connection, and what a call ended
  with is the time-out or what the checks of the client stub make of the answer to some request.\<close>

definition calls_ok :: "system \<Rightarrow> bool" where
  "calls_ok sys \<longleftrightarrow> next_request_id sys = of_nat (Suc (length (requests sys))) \<and>
     map req_id (requests sys) = map (\<lambda>i. of_nat (Suc i)) [0..<length (requests sys)] \<and>
     set (pending sys) \<subseteq> set (requests sys) \<and> fst ` set (results sys) \<subseteq> set (requests sys) \<and>
     client_inv (client sys)"

definition answered :: "codec \<Rightarrow> Request set \<Rightarrow> Request \<Rightarrow> Response outcome \<Rightarrow> bool" where
  "answered C rs r x \<longleftrightarrow>
     x = timed_out \<or> (\<exists>r' \<in> rs. x = check_response C (req_id r) (req_type r) (reply_to C r'))"

definition wires_ok :: "codec \<Rightarrow> system \<Rightarrow> bool" where
  "wires_ok C sys \<longleftrightarrow> (\<exists>c. all_sessions (client sys) = [c] \<and>
     conn_ok C (set (requests sys)) c (server sys) (to_server sys) (to_client sys)) \<and>
     (\<forall>(r, x) \<in> set (results sys). answered C (set (requests sys)) r x)"

definition all_served :: "codec \<Rightarrow> system \<Rightarrow> bool" where
  "all_served C sys \<longleftrightarrow> (\<forall>r \<in> set (requests sys). served C r)"

definition system_inv :: "codec \<Rightarrow> system \<Rightarrow> bool" where
  "system_inv C sys \<longleftrightarrow> calls_ok sys \<and> (all_served C sys \<longrightarrow> wires_ok C sys)"

lemma answered_more: "answered C rs r x \<Longrightarrow> rs \<subseteq> rs' \<Longrightarrow> answered C rs' r x"
  by (auto simp: answered_def)

lemma wires_ok_conn:
  "wires_ok C sys \<Longrightarrow> all_sessions (client sys) = [c] \<Longrightarrow>
     conn_ok C (set (requests sys)) c (server sys) (to_server sys) (to_client sys)"
  by (auto simp: wires_ok_def)

text \<open>A step of the connection changes neither the calls nor their results.\<close>

lemma system_inv_conn:
  assumes "system_inv C sys" "client_inv (client sys')"
    and same: "requests sys' = requests sys" "pending sys' = pending sys" "results sys' = results sys"
      "next_request_id sys' = next_request_id sys"
    and "\<And>c. all_served C sys \<Longrightarrow> all_sessions (client sys) = [c] \<Longrightarrow>
      conn_ok C (set (requests sys)) c (server sys) (to_server sys) (to_client sys) \<Longrightarrow>
      \<exists>c'. all_sessions (client sys') = [c'] \<and>
        conn_ok C (set (requests sys)) c' (server sys') (to_server sys') (to_client sys')"
  shows "system_inv C sys'"
  using assms by (fastforce simp: system_inv_def calls_ok_def wires_ok_def all_served_def)

lemma client_trans_ok:
  assumes "system_inv C sys" "client_trans (client sys) x c"
    and "to_client sys = received_by x @ tc"
  shows "system_inv C (sys\<lparr>client := c, to_server := to_server sys @ sent_by x, to_client := tc\<rparr>)"
proof (rule system_inv_conn [OF assms(1)])
  have "client_inv (client sys)" using assms(1) by (simp add: system_inv_def calls_ok_def)
  then show "client_inv (client (sys\<lparr>client := c, to_server := to_server sys @ sent_by x,
      to_client := tc\<rparr>))"
    using client_inv_client_trans [OF assms(2)] by simp
next
  fix c0 assume c0: "all_sessions (client sys) = [c0]"
    "conn_ok C (set (requests sys)) c0 (server sys) (to_server sys) (to_client sys)"
  from one_session_trans [OF assms(2) c0(1)] obtain t where
    t: "session_trans c0 x t" "x \<noteq> App" "all_sessions c = [t]" by blast
  from client_side_step [OF c0(2) t(1,2) refl assms(3)] t(3)
  show "\<exists>c'. all_sessions (client (sys\<lparr>client := c, to_server := to_server sys @ sent_by x,
      to_client := tc\<rparr>)) = [c'] \<and> conn_ok C (set (requests sys)) c'
        (server (sys\<lparr>client := c, to_server := to_server sys @ sent_by x, to_client := tc\<rparr>))
        (to_server (sys\<lparr>client := c, to_server := to_server sys @ sent_by x, to_client := tc\<rparr>))
        (to_client (sys\<lparr>client := c, to_server := to_server sys @ sent_by x, to_client := tc\<rparr>))"
    by simp
qed simp_all

lemma server_trans_ok:
  assumes "codec_ok C" "system_inv C sys" "session_trans (server sys) x s" "x \<noteq> App"
    and "to_server sys = received_by x @ ts"
  shows "system_inv C (sys\<lparr>server := s, to_server := ts, to_client := to_client sys @ sent_by x\<rparr>)"
proof (rule system_inv_conn [OF assms(2)])
  fix c assume served: "all_served C sys" and c: "all_sessions (client sys) = [c]"
    "conn_ok C (set (requests sys)) c (server sys) (to_server sys) (to_client sys)"
  from served have "\<forall>r \<in> set (requests sys). served C r" by (simp add: all_served_def)
  from server_side_step [OF c(2) assms(1) this assms(3,4,5) refl] c(1)
  show "\<exists>c'. all_sessions (client (sys\<lparr>server := s, to_server := ts,
        to_client := to_client sys @ sent_by x\<rparr>)) = [c'] \<and> conn_ok C (set (requests sys)) c'
      (server (sys\<lparr>server := s, to_server := ts, to_client := to_client sys @ sent_by x\<rparr>))
      (to_server (sys\<lparr>server := s, to_server := ts, to_client := to_client sys @ sent_by x\<rparr>))
      (to_client (sys\<lparr>server := s, to_server := ts, to_client := to_client sys @ sent_by x\<rparr>))"
    by simp
qed (use assms(2) in \<open>simp_all add: system_inv_def calls_ok_def\<close>)

lemma client_same_ok:
  assumes "system_inv C sys" "client_inv c"
    and "\<And>c0. all_sessions (client sys) = [c0] \<Longrightarrow>
      \<exists>t. all_sessions c = [t] \<and> (t = c0 \<or> t = close False c0)"
  shows "system_inv C (sys\<lparr>client := c\<rparr>)"
proof (rule system_inv_conn [OF assms(1)])
  fix c0 assume c0: "all_sessions (client sys) = [c0]"
    "conn_ok C (set (requests sys)) c0 (server sys) (to_server sys) (to_client sys)"
  from assms(3) [OF c0(1)] client_closed [OF c0(2)] c0(2)
  show "\<exists>c'. all_sessions (client (sys\<lparr>client := c\<rparr>)) = [c'] \<and>
      conn_ok C (set (requests sys)) c' (server (sys\<lparr>client := c\<rparr>))
        (to_server (sys\<lparr>client := c\<rparr>)) (to_client (sys\<lparr>client := c\<rparr>))"
    by auto
qed (use assms(2) in simp_all)


text \<open>A call begins: its identifier is new, and its bytes are queued for the server.\<close>

lemma all_served_begin: "all_served C (call_begin C mtype body sys) \<Longrightarrow> all_served C sys"
  by (auto simp: all_served_def call_begin_def Let_def split: option.splits)

lemma calls_ok_begin:
  assumes "calls_ok sys" shows "calls_ok (call_begin C mtype body sys)"
proof (cases "send_begin (ser_Request C \<lparr>req_id = next_request_id sys, req_type = mtype,
    req_body = body\<rparr>) (client sys)")
  case None
  with assms show ?thesis by (auto simp: calls_ok_def call_begin_def Let_def)
next
  case (Some c)
  with assms have "client_inv c" using client_inv_send by (auto simp: calls_ok_def)
  with Some assms show ?thesis by (auto simp: calls_ok_def call_begin_def Let_def)
qed

lemma system_inv_begin:
  assumes "system_inv C sys" shows "system_inv C (call_begin C mtype body sys)"
proof -
  let ?r = "\<lparr>req_id = next_request_id sys, req_type = mtype, req_body = body\<rparr>"
  let ?sys = "call_begin C mtype body sys"
  have "wires_ok C ?sys" if "all_served C ?sys"
  proof -
    from that assms have wires: "wires_ok C sys" using all_served_begin by (simp add: system_inv_def)
    then obtain c where c: "all_sessions (client sys) = [c]"
      "conn_ok C (set (requests sys)) c (server sys) (to_server sys) (to_client sys)"
      by (auto simp: wires_ok_def)
    have more: "conn_ok C (insert ?r (set (requests sys))) c (server sys) (to_server sys) (to_client sys)"
      using c(2) by (rule conn_ok_more) auto
    have answered: "\<forall>(r, x) \<in> set (results sys). answered C (insert ?r (set (requests sys))) r x"
      using wires answered_more [OF _ subset_insertI] by (fastforce simp: wires_ok_def)
    show ?thesis
    proof (cases "send_begin (ser_Request C ?r) (client sys)")
      case None
      with c(1) more answered show ?thesis
        by (simp add: wires_ok_def call_begin_def Let_def answered_def [of C _ _ timed_out])
    next
      case (Some c')
      from one_session_send [OF Some c(1)] request_written [OF more insertI1] answered Some
      show ?thesis by (simp add: wires_ok_def call_begin_def Let_def)
    qed
  qed
  with assms show ?thesis by (simp add: system_inv_def calls_ok_begin)
qed

text \<open>A call ends: what it got is an answer of the server.\<close>

lemma answer_is_reply:
  assumes "codec_ok C" "system_inv C sys" "all_served C sys" "send_end (client sys) = Some b"
  shows "b \<in> reply_to C ` set (requests sys)"
proof -
  have served: "\<forall>r \<in> set (requests sys). served C r" using assms(3) by (simp add: all_served_def)
  obtain c where c: "all_sessions (client sys) = [c]"
    and ok: "conn_ok C (set (requests sys)) c (server sys) (to_server sys) (to_client sys)"
    using assms(2,3) by (auto simp: system_inv_def wires_ok_def)
  have "answer_known (client sys)" using assms(2) by (simp add: system_inv_def calls_ok_def client_inv_def)
  with assms(4) c have "b \<in> set (delivered c)"
    by (auto simp: answer_known_def send_end_def split: if_splits)
  moreover have acc: "set (accepted (server sys)) \<subseteq> reply_to C ` set (requests sys)"
    using ok accepted_queued [of "server sys"] by (auto simp: conn_ok_def)
  then have "\<forall>m \<in> set (accepted (server sys)). length m < 2 ^ 32"
    using served served_small(2) [OF assms(1)] by blast
  then have "set (delivered c) \<subseteq> set (accepted (server sys))"
    using ok by (intro delivered_subset [of c "server sys" "to_client sys"]) (simp_all add: conn_ok_def)
  ultimately show ?thesis using acc by blast
qed

lemma system_inv_end:
  assumes "codec_ok C" "system_inv C sys" "r \<in> set (pending sys)"
  shows "system_inv C (call_end C r sys)"
proof -
  have "calls_ok (call_end C r sys)"
    using assms(2,3) notin_set_remove1 by (fastforce simp: system_inv_def calls_ok_def call_end_def)
  moreover have "wires_ok C (call_end C r sys)" if served: "all_served C (call_end C r sys)"
  proof -
    from served have served: "all_served C sys" by (simp add: all_served_def call_end_def)
    with assms(2) have wires: "wires_ok C sys" by (simp add: system_inv_def)
    have "answered C (set (requests sys)) r (check_response C (req_id r) (req_type r) b)"
      if "send_end (client sys) = Some b" for b
      using that answer_is_reply [OF assms(1,2) served] by (auto simp: answered_def)
    with wires show ?thesis
      by (auto simp: wires_ok_def call_end_def answered_def [of C _ _ timed_out] split: option.splits)
  qed
  ultimately show ?thesis by (simp add: system_inv_def)
qed

lemma system_inv_step:
  assumes "codec_ok C" "system_step C sys sys'" "system_inv C sys"
  shows "system_inv C sys'"
  using assms(2,1,3)
proof (induction rule: system_step.induct)
  case (client_internal sys c)
  then show ?case using client_trans_ok [of C sys Internal c "to_client sys"] by simp
next
  case (client_sends sys bs c)
  then show ?case using client_trans_ok [of C sys "Sent bs" c "to_client sys"] by simp
next
  case (client_receives sys bs c rest)
  then show ?case using client_trans_ok [of C sys "Received bs" c rest] by simp
next
  case (server_internal sys s)
  then show ?case using server_trans_ok [of C sys Internal s "to_server sys"] by simp
next
  case (server_sends sys bs s)
  then show ?case using server_trans_ok [of C sys "Sent bs" s "to_server sys"] by simp
next
  case (server_receives sys bs s rest)
  then show ?case using server_trans_ok [of C sys "Received bs" s rest] by simp
next
  case (client_disconnects sys)
  then show ?case
    by (intro client_same_ok) (simp_all add: one_session_disconnect client_inv_disconnect
        system_inv_def calls_ok_def)
next
  case (client_handler sys h)
  then have "client_inv (set_message_handler h (client sys))"
    by (simp add: set_message_handler_def system_inv_def calls_ok_def)
  with client_handler show ?case by (intro client_same_ok) simp_all
next
  case (client_stops sys)
  then have "client_inv (TcpClient.stop (client sys))" by (simp add: system_inv_def calls_ok_def)
  with client_stops show ?case by (intro client_same_ok) simp_all
qed (simp_all add: system_inv_begin system_inv_end)

lemma system_inv_connected: "system_inv C (connected C)"
proof -
  have c: "client_inv (snd (connect True new_client))"
    by (intro client_inv_connect) (simp add: client_inv_def answer_known_def all_sessions_def new_client_def)
  have s: "all_sessions (snd (connect True new_client)) = [start (\<lambda>data. []) True new_session]"
    by (simp add: all_sessions_def connect_def drop_session_def new_client_def run_def)
  have "conn_ok C {} (start (\<lambda>data. []) True new_session) (start (stub_handler C) True new_session) [] []"
    using session_inv_new by (simp add: conn_ok_def queued_def start_def do_read_header_def new_session_def)
  with c s show ?thesis by (simp add: system_inv_def connected_def calls_ok_def wires_ok_def)
qed

lemma system_inv_reachable:
  "(system_step C)\<^sup>*\<^sup>* (connected C) sys \<Longrightarrow> codec_ok C \<Longrightarrow> system_inv C sys"
  by (induction rule: rtranclp_induct) (auto intro: system_inv_connected system_inv_step)

end
