(* ===== verification/Calls.thy ===== *)
theory Calls
  imports System
begin

text \<open>
  What the invariant of \<open>System\<close> and its runs say about remote calls: a call that returns returns the
  answer to its own request, a remote call is the local call, a call on an idle connection can
  complete, and a late answer makes the call after it fail.
\<close>

section \<open>Runs that make progress\<close>

lemma client_run:
  "client_io\<^sup>*\<^sup>* c c' \<Longrightarrow> client sys = c \<Longrightarrow> (system_step C)\<^sup>*\<^sup>* sys (sys\<lparr>client := c'\<rparr>)"
proof (induction rule: rtranclp_induct)
  case (step c1 c2)
  have "system_step C (sys\<lparr>client := c1\<rparr>) (sys\<lparr>client := c2\<rparr>)"
    using step(2) system_step.client_internal [of "sys\<lparr>client := c1\<rparr>" c2] by (simp add: client_io_def)
  with step show ?case by (simp add: rtranclp.rtrancl_into_rtrancl)
qed auto

lemma server_run:
  "internal_step\<^sup>*\<^sup>* s s' \<Longrightarrow> server sys = s \<Longrightarrow> (system_step C)\<^sup>*\<^sup>* sys (sys\<lparr>server := s'\<rparr>)"
proof (induction rule: rtranclp_induct)
  case (step s1 s2)
  have "system_step C (sys\<lparr>server := s1\<rparr>) (sys\<lparr>server := s2\<rparr>)"
    using step(2) system_step.server_internal [of "sys\<lparr>server := s1\<rparr>" s2] by (simp add: internal_step_def)
  with step show ?case by (simp add: rtranclp.rtrancl_into_rtrancl)
qed auto

text \<open>A session with nothing under way.\<close>

definition ready :: "(bytes \<Rightarrow> cb_action list) \<Rightarrow> session \<Rightarrow> bool" where
  "ready f s \<longleftrightarrow> sock_open s \<and> reading s = Reading Header \<and> length (read_buffer s) = 4 \<and>
     rx s = [] \<and> on_message s = Some f"

definition idle_session :: "(bytes \<Rightarrow> cb_action list) \<Rightarrow> session \<Rightarrow> bool" where
  "idle_session f s \<longleftrightarrow> ready f s \<and> writing s = No_write \<and> write_queue s = [] \<and> posted s = []"

lemmas idle_defs = idle_session_def ready_def

lemma idle_start: "idle_session f (start f e new_session)"
  by (simp add: idle_defs start_def do_read_header_def new_session_def)

lemma client_run_in:
  assumes "internal_step\<^sup>*\<^sup>* c c'" "current (client sys) = Some c" "running (client sys)"
    and "delivered c' = delivered c"
  shows "(system_step C)\<^sup>*\<^sup>* sys (sys\<lparr>client := (client sys)\<lparr>current := Some c'\<rparr>\<rparr>)"
  using current_run [OF assms(1-3)] assms(4) by (intro client_run) (simp_all add: session_ran_same)

lemma delivered_internal: "internal_step\<^sup>*\<^sup>* s t \<Longrightarrow> length (delivered s) \<le> length (delivered t)"
  by (auto dest!: delivered_run prefix_length_le)

text \<open>The client's session sends the one message it has.\<close>

lemma client_message_run:
  assumes "running (client sys)" "current (client sys) = Some c"
    and "sock_open c" "writing c = No_write" "write_queue c = []" "posted c = [Write_task m]"
  shows "(system_step C)\<^sup>*\<^sup>* sys (sys\<lparr>to_server := to_server sys @ frame m,
    client := (client sys)\<lparr>current := Some (after_send m [] c)\<rparr>\<rparr>)"
proof -
  obtain c1 c2 where run: "internal_step c c1" "session_trans c1 (Sent (frame m)) c2"
    "internal_step\<^sup>*\<^sup>* c2 (after_send m [] c)"
    using send_run [OF assms(3-6)] by blast
  have del: "delivered c2 = delivered c1" using run(2) by (auto elim: sent_cases)
  have "delivered c1 = delivered c" "delivered (after_send m [] c) = delivered c2"
    using delivered_run [OF r_into_rtranclp [of internal_step, OF run(1)]] delivered_run [OF run(3)] del
    by (auto simp: after_send_def prefix_order.eq_iff)
  note dels = this del
  let ?k = "\<lambda>c. (client sys)\<lparr>current := Some c\<rparr>"
  let ?s1 = "sys\<lparr>client := ?k c1\<rparr>"
  let ?s2 = "?s1\<lparr>client := ?k c2, to_server := to_server ?s1 @ frame m\<rparr>"
  have "(system_step C)\<^sup>*\<^sup>* sys ?s1"
    using client_run_in [of c c1 sys] run(1) assms(1,2) dels by auto
  moreover have "client_trans (?k c1) (Sent (frame m)) (?k c2)"
    using client_trans.session_runs [of "?k c1" c1 "Sent (frame m)" c2] run(2) assms(1) del
    by (simp add: session_ran_same running_def)
  then have "system_step C ?s1 ?s2"
    using system_step.client_sends [of ?s1 "frame m" "?k c2" C] by simp
  moreover have "(system_step C)\<^sup>*\<^sup>* ?s2 (?s2\<lparr>client := ?k (after_send m [] c)\<rparr>)"
    using client_run_in [OF run(3), of ?s2] assms(1) dels by (simp add: running_def)
  ultimately show ?thesis by simp
qed

text \<open>The server's session takes in one message.\<close>

lemma server_receive_run:
  assumes "idle_session f (server sys)" "deliverable m" "to_server sys = frame m"
  shows "(system_step C)\<^sup>*\<^sup>* sys (sys\<lparr>to_server := [], server := after_receive m (f m) []
    ((server sys)\<lparr>arrived := arrived (server sys) @ frame m\<rparr>)\<rparr>)"
proof -
  let ?r = "(server sys)\<lparr>rx := rx (server sys) @ frame m, arrived := arrived (server sys) @ frame m\<rparr>"
  let ?s = "sys\<lparr>server := ?r, to_server := []\<rparr>"
  have "session_trans (server sys) (Received (frame m)) ?r"
    using assms(1) by (intro session_trans.bytes_arrive) (simp add: idle_defs)
  then have "system_step C sys ?s"
    using system_step.server_receives [of sys "frame m" ?r "[]"] assms(3) by simp
  moreover have "internal_step\<^sup>*\<^sup>* ?r (after_receive m (f m) [] ?r)"
    using assms(1,2) by (intro receive_run) (simp_all add: idle_defs)
  then have "(system_step C)\<^sup>*\<^sup>* ?s (?s\<lparr>server := after_receive m (f m) [] ?r\<rparr>)"
    by (rule server_run) simp
  ultimately have "(system_step C)\<^sup>*\<^sup>* sys (?s\<lparr>server := after_receive m (f m) [] ?r\<rparr>)"
    by (rule rtranclp_head)
  then show ?thesis by (simp add: after_receive_def)
qed

lemma server_message_run:
  assumes "sock_open (server sys)" "writing (server sys) = No_write" "write_queue (server sys) = []"
    "posted (server sys) = [Write_task m]"
  shows "(system_step C)\<^sup>*\<^sup>* sys (sys\<lparr>to_client := to_client sys @ frame m,
    server := after_send m [] (server sys)\<rparr>)"
proof -
  obtain s1 s2 where run: "internal_step (server sys) s1" "session_trans s1 (Sent (frame m)) s2"
    "internal_step\<^sup>*\<^sup>* s2 (after_send m [] (server sys))"
    using send_run [OF assms] by blast
  let ?s1 = "sys\<lparr>server := s1\<rparr>"
  let ?s2 = "?s1\<lparr>server := s2, to_client := to_client ?s1 @ frame m\<rparr>"
  have "(system_step C)\<^sup>*\<^sup>* sys ?s1" using server_run [OF r_into_rtranclp [of internal_step]] run(1) by blast
  moreover have "system_step C ?s1 ?s2"
    using system_step.server_sends [of ?s1 "frame m" s2 C] run(2) by simp
  moreover have "(system_step C)\<^sup>*\<^sup>* ?s2 (?s2\<lparr>server := after_send m [] (server sys)\<rparr>)"
    using server_run [OF run(3), of ?s2] by simp
  ultimately show ?thesis by simp
qed

lemma client_answer_run:
  assumes "running (client sys)" "current (client sys) = Some c" "ready (\<lambda>data. []) c"
    and "deliverable m" "to_client sys = frame m"
  shows "(system_step C)\<^sup>*\<^sup>* sys (sys\<lparr>to_client := [], client := on_reply m ((client sys)\<lparr>current :=
    Some (after_receive m [] [] (c\<lparr>arrived := arrived c @ frame m\<rparr>))\<rparr>)\<rparr>)"
proof -
  let ?r = "c\<lparr>rx := rx c @ frame m, arrived := arrived c @ frame m\<rparr>"
  let ?k = "(client sys)\<lparr>current := Some ?r\<rparr>"
  let ?s = "sys\<lparr>client := ?k, to_client := []\<rparr>"
  have "session_trans c (Received (frame m)) ?r"
    using assms(3) by (intro session_trans.bytes_arrive) (simp add: idle_defs)
  then have "client_trans (client sys) (Received (frame m)) ?k"
    using client_trans.session_runs [OF assms(1,2)] by (force simp: session_ran_def)
  then have "system_step C sys ?s"
    using system_step.client_receives [of sys "frame m" ?k "[]"] assms(5) by simp
  moreover have "client_io\<^sup>*\<^sup>* ?k (on_reply m (?k\<lparr>current := Some (after_receive m [] [] ?r)\<rparr>))"
    using assms by (intro answer_run) (simp_all add: idle_defs running_def)
  then have "(system_step C)\<^sup>*\<^sup>* ?s (?s\<lparr>client :=
      on_reply m (?k\<lparr>current := Some (after_receive m [] [] ?r)\<rparr>)\<rparr>)"
    by (rule client_run) simp
  ultimately have "(system_step C)\<^sup>*\<^sup>* sys (?s\<lparr>client :=
      on_reply m (?k\<lparr>current := Some (after_receive m [] [] ?r)\<rparr>)\<rparr>)"
    by (rule rtranclp_head)
  then show ?thesis by (simp add: after_receive_def)
qed


text \<open>A system with no call and nothing under way on an open connection.\<close>

definition idle :: "codec \<Rightarrow> system \<Rightarrow> bool" where
  "idle C sys \<longleftrightarrow> running (client sys) \<and> to_server sys = [] \<and> to_client sys = [] \<and>
     (\<exists>c. current (client sys) = Some c \<and> idle_session (\<lambda>data. []) c) \<and>
     idle_session (stub_handler C) (server sys)"

lemma idle_connected: "idle C (connected C)"
  using idle_start [of "\<lambda>data. []" True] idle_start [of "stub_handler C" True]
  by (simp add: idle_def connected_def client_defs)

lemma ready_after_send [simp]: "ready f (after_send m rest s) \<longleftrightarrow> ready f s"
  by (simp add: ready_def after_send_def)

text \<open>The request of a waiting call travels and is answered.\<close>

lemma serve_run:
  assumes "running (client sys)" "current (client sys) = Some c" "to_server sys = []" "to_client sys = []"
    and "idle_session (stub_handler C) (server sys)" "idle_session (\<lambda>data. []) (c\<lparr>posted := []\<rparr>)"
    and "posted c = [Write_task m]" "deliverable m" "handle_request C m = Ret b"
  shows "\<exists>s. idle_session (stub_handler C) s \<and> (system_step C)\<^sup>*\<^sup>* sys (sys\<lparr>client :=
    (client sys)\<lparr>current := Some (after_send m [] c)\<rparr>, to_server := [], to_client := frame b, server := s\<rparr>)"
proof -
  have c: "sock_open c" "writing c = No_write" "write_queue c = []"
    using assms(6) by (simp_all add: idle_defs)
  have f: "stub_handler C m = [Reply b]" using assms(9) by (simp add: stub_handler_def)
  let ?s1 = "sys\<lparr>to_server := to_server sys @ frame m,
    client := (client sys)\<lparr>current := Some (after_send m [] c)\<rparr>\<rparr>"
  let ?s2 = "?s1\<lparr>to_server := [], server := after_receive m (stub_handler C m) []
    ((server ?s1)\<lparr>arrived := arrived (server ?s1) @ frame m\<rparr>)\<rparr>"
  let ?s3 = "?s2\<lparr>to_client := to_client ?s2 @ frame b, server := after_send b [] (server ?s2)\<rparr>"
  have "(system_step C)\<^sup>*\<^sup>* sys ?s1" using client_message_run [OF assms(1,2) c assms(7)] .
  moreover have "(system_step C)\<^sup>*\<^sup>* ?s1 ?s2"
    using assms(3,5,8) by (intro server_receive_run) simp_all
  moreover have "(system_step C)\<^sup>*\<^sup>* ?s2 ?s3"
    using assms(5) f by (intro server_message_run) (simp_all add: idle_defs after_receive_def)
  ultimately have "(system_step C)\<^sup>*\<^sup>* sys ?s3" by simp
  moreover have "idle_session (stub_handler C) (server ?s3)"
    using assms(5) f by (simp add: idle_defs after_receive_def after_send_def)
  ultimately show ?thesis using assms(3,4) by (intro exI [of _ "server ?s3"]) simp
qed

text \<open>One exchange: the request is answered, and the answer travels back.\<close>

lemma exchange_run:
  assumes "running (client sys)" "current (client sys) = Some c" "to_server sys = []" "to_client sys = []"
    and "idle_session (stub_handler C) (server sys)" "idle_session (\<lambda>data. []) (c\<lparr>posted := []\<rparr>)"
    and "posted c = [Write_task m]" "deliverable m" "handle_request C m = Ret b" "deliverable b"
  shows "\<exists>sys'. (system_step C)\<^sup>*\<^sup>* sys sys' \<and> idle C sys' \<and> send_end (client sys') = Some b \<and>
    pending sys' = pending sys \<and> requests sys' = requests sys \<and> results sys' = results sys"
proof -
  let ?c1 = "after_send m [] c"
  obtain s where s: "idle_session (stub_handler C) s" and run: "(system_step C)\<^sup>*\<^sup>* sys (sys\<lparr>client :=
      (client sys)\<lparr>current := Some ?c1\<rparr>, to_server := [], to_client := frame b, server := s\<rparr>)"
    using serve_run [OF assms(1-9)] by blast
  let ?s3 = "sys\<lparr>client := (client sys)\<lparr>current := Some ?c1\<rparr>, to_server := [],
    to_client := frame b, server := s\<rparr>"
  let ?s4 = "?s3\<lparr>to_client := [], client := on_reply b ((client ?s3)\<lparr>current :=
    Some (after_receive b [] [] (?c1\<lparr>arrived := arrived ?c1 @ frame b\<rparr>))\<rparr>)\<rparr>"
  have "ready (\<lambda>data. []) c" using assms(6) by (simp add: idle_defs)
  then have "(system_step C)\<^sup>*\<^sup>* ?s3 ?s4"
    using assms(1,10) by (intro client_answer_run [of ?s3 ?c1 b]) (simp_all add: running_def)
  with run have "(system_step C)\<^sup>*\<^sup>* sys ?s4" by simp
  moreover have "idle C ?s4"
    using assms(1,6) s by (simp add: idle_def running_def idle_defs on_reply_def Let_def
        after_receive_def after_send_def)
  moreover have "send_end (client ?s4) = Some b" by (simp add: send_end_def on_reply_def Let_def)
  ultimately show ?thesis by (intro exI [of _ ?s4]) simp
qed

lemma idle_call_run:
  assumes "idle C sys" "pending sys = []"
    and r: "r = \<lparr>req_id = next_request_id sys, req_type = mtype, req_body = body\<rparr>"
    and "deliverable (ser_Request C r)" "handle_request C (ser_Request C r) = Ret b" "deliverable b"
  shows "\<exists>sys'. (system_step C)\<^sup>*\<^sup>* sys sys' \<and> idle C sys' \<and> pending sys' = [] \<and>
    requests sys' = requests sys @ [r] \<and>
    results sys' = results sys @ [(r, check_response C (req_id r) (req_type r) b)]"
proof -
  obtain c where c: "current (client sys) = Some c" "idle_session (\<lambda>data. []) c"
    using assms(1) by (auto simp: idle_def)
  let ?k = "(client sys)\<lparr>response_received := False, response_buffer := [],
    current := Some (async_write (ser_Request C r) c)\<rparr>"
  let ?s1 = "call_begin C mtype body sys"
  have "send_begin (ser_Request C r) (client sys) = Some ?k"
    using c by (simp add: send_begin_def is_open_def idle_defs)
  then have s1: "?s1 = sys\<lparr>next_request_id := next_request_id sys + 1, requests := requests sys @ [r],
      client := ?k, pending := pending sys @ [r]\<rparr>"
    by (simp add: call_begin_def Let_def r)
  have "\<exists>sys'. (system_step C)\<^sup>*\<^sup>* ?s1 sys' \<and> idle C sys' \<and> send_end (client sys') = Some b \<and>
      pending sys' = pending ?s1 \<and> requests sys' = requests ?s1 \<and> results sys' = results ?s1"
    using assms c unfolding s1
    by (intro exchange_run [where c = "async_write (ser_Request C r) c" and m = "ser_Request C r"])
       (simp_all add: idle_def running_def idle_defs async_write_def)
  then obtain s2 where s2: "(system_step C)\<^sup>*\<^sup>* ?s1 s2" "idle C s2" "send_end (client s2) = Some b"
    "pending s2 = [r]" "requests s2 = requests sys @ [r]" "results s2 = results sys"
    using assms(2) unfolding s1 by auto
  have "system_step C sys ?s1" by (rule system_step.call_begins)
  moreover have "system_step C s2 (call_end C r s2)" using s2(4) by (intro system_step.call_ends) simp
  ultimately have "(system_step C)\<^sup>*\<^sup>* sys (call_end C r s2)"
    using s2(1) by (meson converse_rtranclp_into_rtranclp rtranclp.rtrancl_into_rtrancl)
  moreover have "idle C (call_end C r s2)" using s2(2) by (simp add: idle_def call_end_def)
  ultimately show ?thesis using s2
    by (intro exI [of _ "call_end C r s2"]) (simp add: call_end_def)
qed


section \<open>Properties\<close>

lemma ids_distinct:
  assumes "calls_ok sys" "length (requests sys) < 2 ^ 64" "r \<in> set (requests sys)"
    "r' \<in> set (requests sys)" "req_id r = req_id r'"
  shows "r = r'"
proof -
  have id_nth: "req_id (requests sys ! i) = of_nat (Suc i)" if "i < length (requests sys)" for i
  proof -
    have "map req_id (requests sys) ! i = map (\<lambda>i. of_nat (Suc i)) [0..<length (requests sys)] ! i"
      using assms(1) by (simp only: calls_ok_def)
    with that show ?thesis by simp
  qed
  have small: "unat (of_nat (Suc i) :: u64) = Suc i" if "i < length (requests sys)" for i
    using that assms(2) by (simp add: unat_of_nat del: of_nat_Suc)
  obtain i j where ij: "i < length (requests sys)" "r = requests sys ! i"
    "j < length (requests sys)" "r' = requests sys ! j"
    using assms(3,4) by (metis in_set_conv_nth)
  then have "(of_nat (Suc i) :: u64) = of_nat (Suc j)" using assms(5) id_nth by metis
  with small ij(1,3) have "Suc i = Suc j" by metis
  with ij show ?thesis by simp
qed

lemma reply_parses_back:
  assumes "codec_ok C" "served C r"
  shows "\<exists>resp. dispatch C r = Ret resp \<and> parse_Response C (reply_to C r) = Some resp \<and>
    resp_id resp = req_id r"
proof -
  obtain resp where "dispatch C r = Ret resp" "length (resp_body resp) < 2 ^ 30"
    using assms(2) by (auto simp: served_def split: outcome.splits)
  with dispatch_reply_parses [OF assms(1)] dispatch_facts show ?thesis
    by (auto simp: reply_to_def)
qed

text \<open>The concrete call of the witnesses: seven divided by two, on the sample codec.\<close>

definition sample_response :: Response where
  "sample_response = empty_response\<lparr>resp_id := 1, resp_type := MET_DIV, resp_status := STATUS_OK,
     resp_body := serialize_div_result sample_codec 3\<rparr>"

lemma sample_facts:
  "dispatch sample_codec (sample_div_request 7 2) = Ret sample_response"
  "served sample_codec (sample_div_request 7 2)"
  "deliverable (ser_Request sample_codec (sample_div_request 7 2))"
  "deliverable (reply_to sample_codec (sample_div_request 7 2))"
  "handle_request sample_codec (ser_Request sample_codec (sample_div_request 7 2)) =
     Ret (reply_to sample_codec (sample_div_request 7 2))"
  "check_response sample_codec 1 MET_DIV (reply_to sample_codec (sample_div_request 7 2)) =
     Ret sample_response"
proof -
  show d: "dispatch sample_codec (sample_div_request 7 2) = Ret sample_response"
    using sample_div_dispatch by (simp add: sample_response_def)
  show s: "served sample_codec (sample_div_request 7 2)"
    by (simp add: served_def d sample_response_def)
       (simp add: sample_div_request_def sample_codec_def serialize_div_result_def)
  show "deliverable (ser_Request sample_codec (sample_div_request 7 2))"
    by (simp add: deliverable_def max_body_def sample_div_request_def sample_codec_def)
  show "deliverable (reply_to sample_codec (sample_div_request 7 2))"
    by (simp add: reply_to_def d sample_response_def deliverable_def max_body_def)
       (simp add: sample_codec_def serialize_div_result_def empty_response_def put_string_def)
  show "handle_request sample_codec (ser_Request sample_codec (sample_div_request 7 2)) =
     Ret (reply_to sample_codec (sample_div_request 7 2))"
    by (rule served_handled [OF sample_codec_ok s])
  show "check_response sample_codec 1 MET_DIV (reply_to sample_codec (sample_div_request 7 2)) =
     Ret sample_response"
    using reply_parses_back [OF sample_codec_ok s] d
    by (auto simp: check_response_Ret) (simp_all add: sample_response_def)
qed

lemma sample_request_eq:
  "sample_div_request 7 2 = \<lparr>req_id = next_request_id (connected sample_codec), req_type = MET_DIV,
     req_body = ser_div sample_codec (make_div_request 7 2)\<rparr>"
  by (simp add: sample_div_request_def connected_def)

lemma sample_run:
  "\<exists>sys. (system_step sample_codec)\<^sup>*\<^sup>* (connected sample_codec) sys \<and>
     requests sys = [sample_div_request 7 2] \<and> results sys = [(sample_div_request 7 2, Ret sample_response)]"
proof -
  have p: "pending (connected sample_codec) = []" "requests (connected sample_codec) = []"
    "results (connected sample_codec) = []" by (simp_all add: connected_def)
  have ids: "req_id (sample_div_request 7 2) = 1" "req_type (sample_div_request 7 2) = MET_DIV"
    by (simp_all add: sample_div_request_def)
  from idle_call_run [OF idle_connected p(1) sample_request_eq sample_facts(3,5,4)] p ids sample_facts(6)
  show ?thesis by auto
qed

text \<open>What a call ended with, whichever answer it was given.\<close>

lemma call_outcomes:
  assumes "codec_ok C" and "(system_step C)\<^sup>*\<^sup>* (connected C) sys"
    and "\<forall>r \<in> set (requests sys). served C r" and "length (requests sys) < 2 ^ 64"
    and "(r, x) \<in> set (results sys)"
  shows "r \<in> set (requests sys) \<and> (case x of
      Ret resp \<Rightarrow> dispatch C r = Ret resp \<and> resp_status resp = STATUS_OK
    | Throw e \<Rightarrow> x = timed_out \<or> x = runtime_error ''rpc response id does not match request id'' \<or>
        (\<exists>resp. dispatch C r = Ret resp \<and> resp_status resp \<noteq> STATUS_OK \<and>
          x = runtime_error (resp_error_message resp))
    | UB u \<Rightarrow> False)"
proof -
  from system_inv_reachable [OF assms(2,1)] have inv: "system_inv C sys" .
  then have r: "r \<in> set (requests sys)" using assms(5) by (force simp: system_inv_def calls_ok_def)
  from inv assms(3,5) have "answered C (set (requests sys)) r x"
    by (auto simp: system_inv_def all_served_def wires_ok_def)
  then consider "x = timed_out" | r' where "r' \<in> set (requests sys)"
      "x = check_response C (req_id r) (req_type r) (reply_to C r')"
    by (auto simp: answered_def)
  then show ?thesis
  proof cases
    case (2 r')
    from reply_parses_back [OF assms(1), of r'] assms(3) 2(1) obtain resp where
      resp: "dispatch C r' = Ret resp" "parse_Response C (reply_to C r') = Some resp" "resp_id resp = req_id r'"
      by blast
    show ?thesis
    proof (cases "req_id r' = req_id r")
      case True
      then have "r' = r" using ids_distinct [OF _ assms(4) 2(1) r] inv by (simp add: system_inv_def)
      with resp dispatch_facts [OF resp(1)] r show ?thesis
        by (auto simp: 2(2) check_response_def error_message_ok_def split: if_splits)
    qed (use resp r in \<open>simp add: 2(2) check_response_def\<close>)
  qed (simp add: r)
qed

lemma own_answers:
  assumes "codec_ok C" and "(system_step C)\<^sup>*\<^sup>* (connected C) sys"
    and "\<forall>r \<in> set (requests sys). served C r" and "length (requests sys) < 2 ^ 64"
    and "(r, Ret resp) \<in> set (results sys)"
  shows "r \<in> set (requests sys) \<and> dispatch C r = Ret resp \<and> resp_status resp = STATUS_OK"
  using call_outcomes [OF assms] by simp

text \<open>C1. A remote call never returns anything but the answer to itself. In every reachable state of
  client, server and network, with any number of concurrent calls, time-outs, late answers, lost
  connections and disconnects, a call that has ended either returned the response the server's
  dispatcher gives for exactly its request, with status OK, or threw one of three exceptions: the
  time-out, the mismatch of identifiers (it was given the answer to another call), or the error
  message of the dispatcher's answer to its own request. Nothing else escapes the stub, no answer fails
  to parse or has the wrong method number, and there is no undefined behaviour. (For fewer than 2^64
  calls, all of them requests the dispatcher answers within protobuf's sizes.)\<close>

theorem calls_return_own_answers:
  assumes "codec_ok C" and "(system_step C)\<^sup>*\<^sup>* (connected C) sys"
    and "\<forall>r \<in> set (requests sys). served C r" and "length (requests sys) < 2 ^ 64"
    and "(r, x) \<in> set (results sys)"
  shows "r \<in> set (requests sys) \<and> (case x of
      Ret resp \<Rightarrow> dispatch C r = Ret resp \<and> resp_status resp = STATUS_OK
    | Throw e \<Rightarrow> x = timed_out \<or> x = runtime_error ''rpc response id does not match request id'' \<or>
        (\<exists>resp. dispatch C r = Ret resp \<and> resp_status resp \<noteq> STATUS_OK \<and>
          x = runtime_error (resp_error_message resp))
    | UB u \<Rightarrow> False)"
  using assms by (rule call_outcomes)

theorem calls_return_own_answers_witness:
  "\<exists>sys :: system. results sys = [(sample_div_request 7 2, Ret sample_response)] \<and>
     dispatch sample_codec (sample_div_request 7 2) = Ret sample_response"
proof -
  obtain sys where sys: "(system_step sample_codec)\<^sup>*\<^sup>* (connected sample_codec) sys"
    "requests sys = [sample_div_request 7 2]" "results sys = [(sample_div_request 7 2, Ret sample_response)]"
    using sample_run by blast
  have "dispatch sample_codec (sample_div_request 7 2) = Ret sample_response"
    using calls_return_own_answers [OF sample_codec_ok sys(1), of "sample_div_request 7 2" "Ret sample_response"]
      sys sample_facts(2) by simp
  with sys(3) show ?thesis by auto
qed

text \<open>C27. A call on an idle connection can complete: from any idle state with no call pending, a request
  the server serves, whose bytes and whose answer pass the length check, has a run in which the
  request travels, is dispatched, its answer travels back and the call ends with it; and the system
  is idle again, ready for the next call.\<close>

theorem call_can_complete:
  assumes "codec_ok C" and "idle C sys" and "pending sys = []"
    and "r = \<lparr>req_id = next_request_id sys, req_type = mtype, req_body = body\<rparr>" and "served C r"
    and "deliverable (ser_Request C r)" and "deliverable (reply_to C r)"
  shows "\<exists>sys'. (system_step C)\<^sup>*\<^sup>* sys sys' \<and> idle C sys' \<and> pending sys' = [] \<and>
    requests sys' = requests sys @ [r] \<and>
    results sys' = results sys @ [(r, check_response C (req_id r) mtype (reply_to C r))]"
  using idle_call_run [OF assms(2-4,6) served_handled [OF assms(1,5)] assms(7)] assms(4) by simp

theorem call_can_complete_witness:
  "\<exists>sys. idle sample_codec sys \<and> results sys = [(sample_div_request 7 2, Ret sample_response)]"
proof -
  have p: "pending (connected sample_codec) = []" "results (connected sample_codec) = []"
    by (simp_all add: connected_def)
  have "req_id (sample_div_request 7 2) = 1" by (simp add: sample_div_request_def)
  with call_can_complete [OF sample_codec_ok idle_connected p(1) sample_request_eq sample_facts(2-4)]
    p(2) sample_facts(6)
  show ?thesis by auto
qed

text \<open>What the parser of a method makes of a good answer of the dispatcher.\<close>

context served_method
begin

lemma answer_value:
  assumes "codec_ok C" "args_ok q" "dispatch C (call_request T C q i) = Ret resp"
    and "resp_status resp = STATUS_OK" and "\<And>v. invoke T q = Ret v \<Longrightarrow> result_ok v"
  shows "parse_response T C resp = invoke T q"
proof -
  have "dispatch_one T C (call_request T C q i) = Ret resp"
    using assms(3) routed [of "call_request T C q i" C] by (simp add: call_request_def)
  then obtain v where v: "invoke T q = Ret v" "resp_body resp = serialize_result T C v"
    using assms(1,2,4) args_roundtrip never_throws
    by (auto simp: dispatch_one_def call_request_def make_error_response_def empty_response_def
        split: option.splits outcome.splits exn.splits)
  with assms show ?thesis by (simp add: parse_response_def result_roundtrip)
qed

end

lemma invoke_call:
  "invoke add_traits (make_add_request a b) = impl_add a b"
  "invoke div_traits (make_div_request a b) = impl_div a b"
  "invoke calc_traits (make_calc_request L R k) = calc_matrix L R k"
  by (simp_all add: traits_defs invoke_add_def make_add_request_def invoke_div_def make_div_request_def)

lemma add_answer:
  assumes "codec_ok C" "(system_step C)\<^sup>*\<^sup>* (connected C) sys"
    "\<forall>r \<in> set (requests sys). served C r" "length (requests sys) < 2 ^ 64"
    and "(call_request add_traits C (make_add_request a b) i, Ret resp) \<in> set (results sys)"
  shows "parse_response add_traits C resp = impl_add a b"
  using own_answers [OF assms] add_served.answer_value [OF assms(1), of "make_add_request a b" i resp]
  by (simp add: invoke_call)

text \<open>C12. A remote call is the local call: whatever \<open>add\<close>, \<open>div\<close> or \<open>calc_matrix\<close> call has come back with a
  response, the value the client stub reads out of it is the one the business function computes
  from the caller's arguments. (Matrices are those that fit in a message.)\<close>

theorem remote_call_is_local_call:
  assumes "codec_ok C" and "(system_step C)\<^sup>*\<^sup>* (connected C) sys"
    and "\<forall>r \<in> set (requests sys). served C r" and "length (requests sys) < 2 ^ 64"
  shows "((call_request add_traits C (make_add_request a b) i, Ret resp) \<in> set (results sys) \<longrightarrow>
      parse_response add_traits C resp = impl_add a b) \<and>
    ((call_request div_traits C (make_div_request a b) i, Ret resp) \<in> set (results sys) \<longrightarrow>
      parse_response div_traits C resp = impl_div a b) \<and>
    ((call_request calc_traits C (make_calc_request L R k) i, Ret resp) \<in> set (results sys) \<and>
      cells L + cells R < 2 ^ 25 \<and> (\<forall>X. calc_matrix L R k = Ret X \<longrightarrow> cells X < 2 ^ 25) \<longrightarrow>
      parse_response calc_traits C resp = calc_matrix L R k)"
proof -
  note own = own_answers [OF assms]
  have args: "calc_args_ok (make_calc_request L R k)" if "cells L + cells R < 2 ^ 25"
    using that by (simp add: calc_args_ok_def make_calc_request_def fill_proto_matrix_map cells_def)
  show ?thesis
    using own add_served.answer_value [OF assms(1), of "make_add_request a b" i resp]
      own div_served.answer_value [OF assms(1), of "make_div_request a b" i resp]
      own calc_served.answer_value [OF assms(1) args, of i resp]
    by (simp add: invoke_call calc_result_ok_def) blast
qed

theorem remote_call_is_local_call_witness:
  "parse_response div_traits sample_codec sample_response = impl_div 7 2 \<and> impl_div 7 2 = Ret 3"
proof -
  obtain sys where sys: "(system_step sample_codec)\<^sup>*\<^sup>* (connected sample_codec) sys"
    "requests sys = [sample_div_request 7 2]" "results sys = [(sample_div_request 7 2, Ret sample_response)]"
    using sample_run by blast
  have "sample_div_request 7 2 = call_request div_traits sample_codec (make_div_request 7 2) 1"
    by (simp add: sample_div_request_def call_request_def traits_defs)
  moreover have "impl_div 7 2 = Ret 3" by code_simp
  ultimately show ?thesis
    using remote_call_is_local_call [OF sample_codec_ok sys(1), of 7 2 1 sample_response] sys
      sample_facts(2) by simp
qed

text \<open>C34. A late answer breaks the call after it. A call that times out leaves its answer on the way; the
  next call on the same connection takes that answer for its own and fails with an identifier
  mismatch, although the server serves both requests and nothing on the connection went wrong.\<close>

theorem late_answer_breaks_next_call:
  assumes "codec_ok C" and "idle C sys" and "pending sys = []"
    and "r1 = \<lparr>req_id = next_request_id sys, req_type = mtype1, req_body = body1\<rparr>"
    and "r2 = \<lparr>req_id = next_request_id sys + 1, req_type = mtype2, req_body = body2\<rparr>"
    and "served C r1" and "deliverable (ser_Request C r1)" and "deliverable (reply_to C r1)"
  shows "\<exists>sys'. (system_step C)\<^sup>*\<^sup>* sys sys' \<and> requests sys' = requests sys @ [r1, r2] \<and>
    results sys' = results sys @ [(r1, timed_out),
      (r2, runtime_error ''rpc response id does not match request id'')]"
proof -
  obtain resp where resp: "parse_Response C (reply_to C r1) = Some resp" "resp_id resp = req_id r1"
    using reply_parses_back [OF assms(1,6)] by blast
  obtain c where c: "current (client sys) = Some c" "idle_session (\<lambda>data. []) c" "running (client sys)"
      "to_server sys = []" "to_client sys = []" "idle_session (stub_handler C) (server sys)"
    using assms(2) by (auto simp: idle_def)
  let ?m = "ser_Request C r1"
  let ?b = "reply_to C r1"
  let ?c1 = "async_write ?m c"
  let ?k1 = "(client sys)\<lparr>response_received := False, response_buffer := [], current := Some ?c1\<rparr>"
  let ?s1 = "sys\<lparr>next_request_id := next_request_id sys + 1, requests := requests sys @ [r1],
    client := ?k1, pending := pending sys @ [r1]\<rparr>"
  let ?c2 = "after_send ?m [] ?c1"
  let ?k2 = "?k1\<lparr>current := Some ?c2\<rparr>"
  have "send_begin ?m (client sys) = Some ?k1"
    using c by (simp add: send_begin_def is_open_def idle_defs)
  then have "call_begin C mtype1 body1 sys = ?s1" by (simp add: call_begin_def Let_def assms(4))
  then have "system_step C sys ?s1" by (metis system_step.call_begins)
  moreover obtain s where s: "idle_session (stub_handler C) s" and "(system_step C)\<^sup>*\<^sup>* ?s1
      (?s1\<lparr>client := (client ?s1)\<lparr>current := Some ?c2\<rparr>, to_server := [], to_client := frame ?b, server := s\<rparr>)"
    using serve_run [of ?s1 ?c1 C ?m ?b] c assms(7) served_handled [OF assms(1,6)]
    by (auto simp: running_def idle_defs async_write_def)
  moreover
  let ?s2 = "?s1\<lparr>client := ?k2, to_server := [], to_client := frame ?b, server := s\<rparr>"
  let ?s3 = "call_end C r1 ?s2"
  have "system_step C ?s2 ?s3" by (rule system_step.call_ends) simp
  moreover
  let ?c4 = "async_write (ser_Request C r2) ?c2"
  let ?k4 = "?k2\<lparr>response_received := False, response_buffer := [], current := Some ?c4\<rparr>"
  let ?s4 = "?s3\<lparr>next_request_id := next_request_id ?s3 + 1, requests := requests ?s3 @ [r2],
    client := ?k4, pending := pending ?s3 @ [r2]\<rparr>"
  have "send_begin (ser_Request C r2) ?k2 = Some ?k4"
    using c by (simp add: send_begin_def is_open_def idle_defs after_send_def async_write_def)
  then have "call_begin C mtype2 body2 ?s3 = ?s4"
    by (simp add: call_begin_def call_end_def Let_def assms(5))
  then have "system_step C ?s3 ?s4" by (metis system_step.call_begins)
  moreover
  let ?s5 = "?s4\<lparr>to_client := [], client := on_reply ?b ((client ?s4)\<lparr>current := Some (after_receive ?b [] []
    (?c4\<lparr>arrived := arrived ?c4 @ frame ?b\<rparr>))\<rparr>)\<rparr>"
  have "(system_step C)\<^sup>*\<^sup>* ?s4 ?s5"
    using c assms(8) by (intro client_answer_run)
      (simp_all add: running_def idle_defs after_send_def async_write_def call_end_def)
  moreover
  let ?s6 = "call_end C r2 ?s5"
  have "system_step C ?s5 ?s6" by (rule system_step.call_ends) simp
  ultimately have "(system_step C)\<^sup>*\<^sup>* sys ?s6"
    by (simp add: converse_rtranclp_into_rtranclp rtranclp.rtrancl_into_rtrancl)
  moreover have "results ?s6 = results sys @ [(r1, timed_out),
      (r2, runtime_error ''rpc response id does not match request id'')]"
    using resp assms(4,5)
    by (simp add: call_end_def send_end_def on_reply_def check_response_def Let_def)
  moreover have "requests ?s6 = requests sys @ [r1, r2]" by (simp add: call_end_def)
  ultimately show ?thesis by blast
qed

theorem late_answer_breaks_next_call_witness:
  "\<exists>sys. (system_step sample_codec)\<^sup>*\<^sup>* (connected sample_codec) sys \<and>
     map snd (results sys) = [timed_out, runtime_error ''rpc response id does not match request id'']"
proof -
  have p: "pending (connected sample_codec) = []" "results (connected sample_codec) = []"
    by (simp_all add: connected_def)
  let ?r2 = "\<lparr>req_id = next_request_id (connected sample_codec) + 1, req_type = MET_ADD, req_body = []\<rparr>"
  obtain sys where sys: "(system_step sample_codec)\<^sup>*\<^sup>* (connected sample_codec) sys"
    and res: "results sys = results (connected sample_codec) @ [(sample_div_request 7 2, timed_out),
      (?r2, runtime_error ''rpc response id does not match request id'')]"
    using late_answer_breaks_next_call [OF sample_codec_ok idle_connected p(1) sample_request_eq
      refl [of ?r2] sample_facts(2-4)] by blast
  have "map snd (results sys) =
      [timed_out, runtime_error ''rpc response id does not match request id'']"
    unfolding res p(2) by simp
  with sys show ?thesis by (intro exI [of _ sys] conjI)
qed

end
