(* ===== verification/Answers.thy ===== *)
theory Answers
  imports Calls
begin

text \<open>
  The order of answers. A session whose callback is the only one to write on it accepts the replies of
  the callback in the order of the messages; over a connection, what comes back to the other end are
  the replies to its messages, in order. For the server stub: the answers of one connection come back
  in the order of the requests, each the dispatcher's answer to its request.
\<close>

section \<open>One session\<close>

text \<open>What the callback writes for one message, and what waits in the strand.\<close>

fun reply_list :: "cb_action list \<Rightarrow> bytes list" where
  "reply_list [] = []"
| "reply_list (Reply data # as) = data # reply_list as"
| "reply_list (Close_conn # as) = reply_list as"

fun waiting_writes :: "task list \<Rightarrow> bytes list" where
  "waiting_writes [] = []"
| "waiting_writes (Write_task data # ts) = data # waiting_writes ts"
| "waiting_writes (Close_task # ts) = waiting_writes ts"

definition replies_to :: "(bytes \<Rightarrow> cb_action list) \<Rightarrow> bytes list \<Rightarrow> bytes list" where
  "replies_to f ms = concat (map (reply_list \<circ> f) ms)"

definition answering :: "(bytes \<Rightarrow> cb_action list) \<Rightarrow> session \<Rightarrow> bool" where
  "answering f s \<longleftrightarrow> on_message s = Some f \<and>
     accepted s @ waiting_writes (posted s) = replies_to f (delivered s)"

lemma waiting_append [simp]: "waiting_writes (ts @ us) = waiting_writes ts @ waiting_writes us"
  by (induction ts rule: waiting_writes.induct) simp_all

lemma waiting_replies [simp]: "waiting_writes (replies as) = reply_list as"
  by (induction as rule: reply_list.induct) simp_all

lemma replies_to_append [simp]: "replies_to f (ms @ ms') = replies_to f ms @ replies_to f ms'"
  by (simp add: replies_to_def)

lemma replies_to_one [simp]: "replies_to f [m] = reply_list (f m)"
  by (simp add: replies_to_def)

lemma replies_prefix: "prefix ms ms' \<Longrightarrow> prefix (replies_to f ms) (replies_to f ms')"
  by (auto simp: prefix_def)

text \<open>Calls of \<open>close\<close> from outside do no harm, those of \<open>async_write\<close> would.\<close>

inductive server_side :: "session \<Rightarrow> label \<Rightarrow> session \<Rightarrow> bool" where
  works: "session_trans s x t \<Longrightarrow> x \<noteq> App \<Longrightarrow> server_side s x t"
| closes: "server_side s App (close False s)"

lemma answering_step:
  assumes "server_side s x t" "answering f s"
  shows "answering f t"
  using assms
proof (induction rule: server_side.induct)
  case (works s x t)
  then show ?case
  proof (induction rule: session_trans.induct)
    case (read_handled s k ec)
    then show ?case
      by (cases k; cases ec) (auto simp: answering_def session_defs)
  next
    case (write_handled s ec)
    then show ?case by (cases ec) (auto simp: answering_def session_defs split: list.splits)
  next
    case (task_runs s task rest)
    then show ?case by (cases task) (auto simp: answering_def session_defs split: list.splits)
  qed (auto simp: answering_def)
qed (auto simp: answering_def close_def)


section \<open>A connection\<close>

text \<open>The right end is the server's; the left one belongs to any client.\<close>

inductive serve_step :: "link \<Rightarrow> link \<Rightarrow> bool" where
  client_moves: "link_trans l (Left x) m \<Longrightarrow> serve_step l m"
| server_moves: "link_trans l (Right x) m \<Longrightarrow> server_side (right l) x (right m) \<Longrightarrow> serve_step l m"

definition serve_init :: "(bytes \<Rightarrow> cb_action list) \<Rightarrow> link \<Rightarrow> bool" where
  "serve_init f l \<longleftrightarrow> link_init l \<and> on_message (right l) = Some f"

definition serve_inv :: "(bytes \<Rightarrow> cb_action list) \<Rightarrow> link \<Rightarrow> bool" where
  "serve_inv f l \<longleftrightarrow> link_inv l \<and> answering f (right l)"

lemma left_keeps_right: "link_trans l (Left x) m \<Longrightarrow> right m = right l"
  by (auto elim: link_trans.cases)

interpretation serve: invariant_system "serve_init f" serve_step "serve_inv f"
proof
  show "serve_inv f l" if "serve_init f l" for l
  proof -
    from that have "link_inv l" using link.inv_init by (simp add: serve_init_def)
    with that show ?thesis
      by (auto simp: serve_inv_def serve_init_def link_init_def session_init_def answering_def
          start_def do_read_header_def new_session_def replies_to_def)
  qed
  show "serve_inv f m" if "serve_inv f l" "serve_step l m" for l m
    using that(2,1)
  proof cases
    case (client_moves x)
    with that(1) show ?thesis using link_inv_trans left_keeps_right by (auto simp: serve_inv_def)
  next
    case (server_moves x)
    with that(1) show ?thesis using link_inv_trans answering_step by (auto simp: serve_inv_def)
  qed
qed

lemma answering_accepted: "answering f s \<Longrightarrow> prefix (accepted s) (replies_to f (delivered s))"
  by (auto simp: answering_def intro: prefixI [OF sym])

lemma takeWhile_prefix: "prefix (takeWhile P xs) xs"
  by (rule takeWhile_is_prefix)

lemma replies_in_order:
  assumes "serve_inv f l"
    and "\<forall>m \<in> set (accepted (left l)). length m < 2 ^ 32"
    and "\<forall>m \<in> set (replies_to f (accepted (left l))). length m < 2 ^ 32"
  shows "prefix (delivered (left l)) (replies_to f (accepted (left l)))"
proof -
  from assms(1) have inv: "session_inv (left l)" "session_inv (right l)"
    and tx: "tx (left l) = arrived (right l) @ to_right l" "tx (right l) = arrived (left l) @ to_left l"
    and ans: "answering f (right l)" by (simp_all add: serve_inv_def link_inv_def)
  have "prefix (delivered (right l)) (takeWhile deliverable (accepted (left l)))"
    using inv tx(1) assms(2) by (intro one_way [of "right l" "left l" "to_right l"])
      (simp_all add: session_inv_def)
  then have "prefix (delivered (right l)) (accepted (left l))"
    by (rule prefix_order.trans) (rule takeWhile_prefix)
  then have acc: "prefix (accepted (right l)) (replies_to f (accepted (left l)))"
    using answering_accepted [OF ans] replies_prefix by (meson prefix_order.trans)
  then have "\<forall>m \<in> set (accepted (right l)). length m < 2 ^ 32"
    using assms(3) set_mono_prefix by blast
  then have "prefix (delivered (left l)) (takeWhile deliverable (accepted (right l)))"
    using inv tx(2) by (intro one_way [of "left l" "right l" "to_left l"])
      (simp_all add: session_inv_def)
  then show ?thesis using takeWhile_prefix acc by (meson prefix_order.trans)
qed

text \<open>Nothing under way: no operation, task or byte is left, and both readers wait for more.\<close>

definition writer_idle :: "session \<Rightarrow> bool" where
  "writer_idle s \<longleftrightarrow> sock_open s \<and> writing s = No_write"

fun reader_waits :: "session \<Rightarrow> bool" where
  "reader_waits s = (case reading s of Reading k \<Rightarrow> length (rx s) < length (read_buffer s) | _ \<Rightarrow> False)"

definition quiet :: "link \<Rightarrow> bool" where
  "quiet l \<longleftrightarrow> writer_idle (left l) \<and> writer_idle (right l) \<and> reader_waits (left l) \<and>
     reader_waits (right l) \<and> posted (right l) = [] \<and> to_left l = [] \<and> to_right l = []"

lemma idle_delivered:
  assumes "session_inv r" "session_inv s" "tx s = arrived r" "writer_idle s" "reader_waits r"
    and "\<forall>m \<in> set (accepted s). deliverable m"
  shows "delivered r = accepted s"
proof -
  have "\<forall>m \<in> set (accepted s). length m < 2 ^ 32" "takeWhile deliverable (accepted s) = accepted s"
    using assms(6) by (auto simp: deliverable_def max_body_def)
  then show ?thesis
    using one_way_complete [OF assms(1-3)] assms(4,5)
    by (simp add: writer_idle_def split: read_op.splits)
qed

lemma replies_complete:
  assumes "serve_inv f l" "quiet l" "\<forall>m \<in> set (accepted (left l)). deliverable m"
    and "\<forall>m \<in> set (replies_to f (accepted (left l))). deliverable m"
  shows "delivered (left l) = replies_to f (accepted (left l))"
proof -
  from assms(1,2) have inv: "session_inv (left l)" "session_inv (right l)"
    and tx: "tx (left l) = arrived (right l)" "tx (right l) = arrived (left l)"
    and acc: "accepted (right l) = replies_to f (delivered (right l))"
    by (simp_all add: serve_inv_def link_inv_def answering_def quiet_def)
  have "delivered (right l) = accepted (left l)"
    using inv tx(1) assms(2,3) by (intro idle_delivered) (simp_all add: quiet_def)
  with acc inv tx(2) assms(2,4) show ?thesis
    using idle_delivered [of "left l" "right l"] by (simp add: quiet_def)
qed

section \<open>Property\<close>

lemma stub_replies:
  assumes "codec_ok C" "\<forall>r \<in> set rs. served C r"
  shows "replies_to (stub_handler C) (map (ser_Request C) rs) = map (reply_to C) rs"
  using assms by (induction rs) (simp_all add: replies_to_def stub_handler_def served_handled)

text \<open>C9. The answers of a connection come back in the order of its requests. Let a client, of whatever
  kind, have written the requests \<open>rs\<close> on a connection whose other end is a session of the server
  stub. Then what its callback has been given so far are the answers of the dispatcher to the first
  requests, one each, in the same order, under any interleaving, with errors and closes at any time;
  and when nothing is left to write, to send or to handle on either side, they are the answers to all
  requests, if the length check of the reader lets every one pass.
  (For requests the dispatcher answers within protobuf's sizes.)\<close>

theorem answers_come_in_order:
  assumes "codec_ok C" and "serve_init (stub_handler C) l0" and "serve_step\<^sup>*\<^sup>* l0 l"
    and "accepted (left l) = map (ser_Request C) rs" and "\<forall>r \<in> set rs. served C r"
  shows "prefix (delivered (left l)) (map (reply_to C) rs) \<and>
    (quiet l \<and> (\<forall>r \<in> set rs. deliverable (ser_Request C r) \<and> deliverable (reply_to C r)) \<longrightarrow>
      delivered (left l) = map (reply_to C) rs)"
proof -
  have inv: "serve_inv (stub_handler C) l" using assms(2,3) by (rule serve.inv_reachable)
  have rep: "replies_to (stub_handler C) (accepted (left l)) = map (reply_to C) rs"
    using stub_replies [OF assms(1,5)] assms(4) by simp
  have "\<forall>m \<in> set (map (ser_Request C) rs). length m < 2 ^ 32"
    "\<forall>m \<in> set (map (reply_to C) rs). length m < 2 ^ 32"
    using served_small [OF assms(1)] assms(5) by auto
  then show ?thesis
    using replies_in_order [OF inv] replies_complete [OF inv] rep assms(4) by auto
qed

section \<open>All connections of the server\<close>

text \<open>A server whose application only closes connections, and stops and runs it, while the handler of
  the stub is installed.\<close>

inductive stub_step :: "tcp_server \<Rightarrow> tcp_server \<Rightarrow> bool" where
  accepts: "\<not> stopped srv \<Longrightarrow> accepting srv \<Longrightarrow> stub_step srv (accept_handler ec srv)"
| works_on: "\<not> stopped srv \<Longrightarrow> conns srv i = Some s \<Longrightarrow>
    session_trans (s\<lparr>on_message := Some (callback srv i)\<rparr>) x t \<Longrightarrow> x \<noteq> App \<Longrightarrow>
    stub_step srv (conn_stepped i s t srv)"
| arrives: "stopped srv \<Longrightarrow> conns srv i = Some s \<Longrightarrow> session_trans s (Received bs) t \<Longrightarrow>
    stub_step srv (srv\<lparr>conns := (conns srv)(i \<mapsto> t)\<rparr>)"
| closes_one: "stub_step srv (handle_close h srv)"
| runs: "\<not> accepting srv \<Longrightarrow> stub_step srv (run_server srv)"
| stops: "stub_step srv (server_stop srv)"

lemma stub_step_server: "stub_step srv srv' \<Longrightarrow> server_step srv srv'"
  by (induction rule: stub_step.induct) (auto intro: server_step.intros)

text \<open>Every connection has accepted, or has in its strand, the replies to what it delivered.\<close>

definition answered_conn :: "(bytes \<Rightarrow> cb_action list) \<Rightarrow> session \<Rightarrow> bool" where
  "answered_conn f s \<longleftrightarrow> accepted s @ waiting_writes (posted s) = replies_to f (delivered s)"

definition stub_inv :: "codec \<Rightarrow> tcp_server \<Rightarrow> bool" where
  "stub_inv C srv \<longleftrightarrow> request_handler srv = Some (stub_request_handler C) \<and>
     (\<forall>i s. conns srv i = Some s \<longrightarrow> handles srv i = Some i \<and> answered_conn (stub_handler C) s)"

lemma answered_conn_step:
  assumes "session_trans (s\<lparr>on_message := Some f\<rparr>) x t" "x \<noteq> App" "answered_conn f s"
  shows "answered_conn f t"
proof -
  have "answering f (s\<lparr>on_message := Some f\<rparr>)"
    using assms(3) by (simp add: answering_def answered_conn_def)
  from answering_step [OF works [OF assms(1,2)] this] show ?thesis
    by (simp add: answering_def answered_conn_def)
qed

lemma stub_inv_update:
  "stub_inv C srv \<Longrightarrow> answered_conn (stub_handler C) t \<Longrightarrow> handles srv i = Some i \<Longrightarrow>
   stub_inv C (srv\<lparr>conns := (conns srv)(i \<mapsto> t)\<rparr>)"
  by (simp add: stub_inv_def)

lemma stub_inv_flags [simp]:
  "stub_inv C (srv\<lparr>accepting := b\<rparr>) \<longleftrightarrow> stub_inv C srv" "stub_inv C (srv\<lparr>stopped := b\<rparr>) \<longleftrightarrow> stub_inv C srv"
  "stub_inv C (srv\<lparr>sessions := ss\<rparr>) \<longleftrightarrow> stub_inv C srv" "stub_inv C (srv\<lparr>next_conn := n\<rparr>) \<longleftrightarrow> stub_inv C srv"
  by (simp_all add: stub_inv_def)

lemma answered_start: "answered_conn f (start g e new_session)"
  by (simp add: answered_conn_def start_def do_read_header_def new_session_def replies_to_def)

lemma stub_stepped:
  assumes "request_handler srv = Some (stub_request_handler C)" "handles srv i = Some i"
  shows "conn_stepped i s t srv = conn_ran i s t srv"
  using stub_callback(2) [OF assms] by (simp add: conn_stepped_def)

lemma stub_inv_step:
  assumes "stub_step srv srv'" "stub_inv C srv"
  shows "stub_inv C srv'"
  using assms
proof (induction rule: stub_step.induct)
  case (accepts srv ec)
  then show ?case
    by (auto simp: accept_handler_def do_accept_def Let_def stub_inv_def answered_start)
next
  case (works_on srv i s x t)
  then have r: "request_handler srv = Some (stub_request_handler C)" "handles srv i = Some i"
    and s: "answered_conn (stub_handler C) s" by (auto simp: stub_inv_def)
  then have "answered_conn (stub_handler C) t"
    using works_on stub_callback(1) [OF r] by (auto intro: answered_conn_step)
  then show ?case
    using stub_inv_update [OF works_on.prems _ r(2)]
    by (simp add: stub_stepped [OF r] conn_ran_def cleanup_sessions_def Let_def)
next
  case (arrives srv i s bs t)
  then have "answered_conn (stub_handler C) t" "handles srv i = Some i"
    by (auto elim!: received_cases simp: stub_inv_def answered_conn_def)
  then show ?case using stub_inv_update [OF arrives.prems] by blast
next
  case (closes_one srv h)
  then show ?case
    by (cases "lock h srv") (auto simp: handle_close_def stub_inv_def answered_conn_def close_def
        dest!: lock_Some split: if_splits)
qed (simp_all add: run_server_def do_accept_def server_stop_def)

definition stub_init :: "codec \<Rightarrow> tcp_server \<Rightarrow> bool" where
  "stub_init C srv \<longleftrightarrow> srv = run_server (server_stub C)"

interpretation stub: invariant_system "stub_init C" stub_step "stub_inv C"
proof
  show "stub_inv C srv" if "stub_init C srv" for srv
    using that by (simp add: stub_init_def stub_inv_def run_server_def do_accept_def
        server_stub_def set_request_handler_def new_server_def)
qed (rule stub_inv_step)

text \<open>C10. The server answers every connection with its own answers only. However many connections there
  are and however the server interleaves them, closes them or is stopped, a session that has been
  given the requests \<open>rs\<close> has accepted for writing, or still has in its strand, exactly the
  dispatcher's answers to \<open>rs\<close>, in their order, and nothing else: no answer is lost, doubled or sent on
  another connection. (The handler answers through a handle, which can refer to any session of the
  server; it is the one the accept handler made for the session that got the request.)\<close>

theorem server_answers_own_connection:
  assumes "codec_ok C" and "stub_step\<^sup>*\<^sup>* (run_server (server_stub C)) srv" and "conns srv i = Some s"
    and "delivered s = map (ser_Request C) rs" and "\<forall>r \<in> set rs. served C r"
  shows "accepted s @ waiting_writes (posted s) = map (reply_to C) rs"
proof -
  have "stub_init C (run_server (server_stub C))" by (simp add: stub_init_def)
  from stub.inv_reachable [OF this assms(2)] have "stub_inv C srv" .
  with assms(3) have "answered_conn (stub_handler C) s" by (simp add: stub_inv_def)
  with stub_replies [OF assms(1,5)] assms(4) show ?thesis by (simp add: answered_conn_def)
qed

text \<open>What one session of the server can do, the server can.\<close>

lemma conn_ran_fields [simp]:
  "conns (conn_ran i s t srv) = (conns srv)(i \<mapsto> t)" "stopped (conn_ran i s t srv) = stopped srv"
  "request_handler (conn_ran i s t srv) = request_handler srv" "handles (conn_ran i s t srv) = handles srv"
  by (simp_all add: conn_ran_def cleanup_sessions_def Let_def)

text \<open>Session \<open>i\<close> of a running server stub.\<close>

definition serving :: "codec \<Rightarrow> nat \<Rightarrow> session \<Rightarrow> tcp_server \<Rightarrow> bool" where
  "serving C i s srv \<longleftrightarrow> conns srv i = Some s \<and> \<not> stopped srv \<and> handles srv i = Some i \<and>
     request_handler srv = Some (stub_request_handler C) \<and> on_message s = Some (stub_handler C)"

lemma stub_conn_step:
  assumes "session_trans s x t" "x \<noteq> App" "serving C i s srv" "on_message t = on_message s"
  shows "stub_step srv (conn_ran i s t srv) \<and> serving C i t (conn_ran i s t srv)"
proof -
  have r: "request_handler srv = Some (stub_request_handler C)" "handles srv i = Some i"
    using assms(3) by (simp_all add: serving_def)
  have "s\<lparr>on_message := Some (callback srv i)\<rparr> = s"
    using assms(3) stub_callback(1) [OF r] by (cases s) (simp add: serving_def)
  then have "stub_step srv (conn_stepped i s t srv)"
    using works_on [of srv i s x t] assms(1-3) by (simp add: serving_def)
  with assms(3,4) show ?thesis by (simp add: stub_stepped [OF r] serving_def)
qed

lemma stub_conn_run:
  assumes "internal_step\<^sup>*\<^sup>* s t" "serving C i s srv"
  shows "\<exists>srv'. stub_step\<^sup>*\<^sup>* srv srv' \<and> serving C i t srv'"
  using assms
proof (induction rule: rtranclp_induct)
  case (step t u)
  then obtain srv' where srv': "stub_step\<^sup>*\<^sup>* srv srv'" "serving C i t srv'" by blast
  have tr: "session_trans t Internal u" using step(2) by (simp add: internal_step_def)
  have "on_message u = on_message t" using queued_trans [OF tr] by simp
  with stub_conn_step [OF tr _ srv'(2)] srv'(1) show ?case
    by (auto intro: rtranclp.rtrancl_into_rtrancl)
qed auto

theorem server_answers_own_connection_witness:
  "\<exists>srv s. stub_step\<^sup>*\<^sup>* (run_server (server_stub sample_codec)) srv \<and> conns srv 0 = Some s \<and>
     delivered s = [ser_Request sample_codec (sample_div_request 7 2)] \<and>
     accepted s @ waiting_writes (posted s) = [reply_to sample_codec (sample_div_request 7 2)]"
proof -
  let ?f = "stub_handler sample_codec" and ?m = "ser_Request sample_codec (sample_div_request 7 2)"
  let ?base = "run_server (server_stub sample_codec)"
  let ?srv = "accept_handler False ?base"
  let ?s = "start ?f True new_session"
  let ?r = "?s\<lparr>rx := frame ?m, arrived := frame ?m\<rparr>"
  have srv: "serving sample_codec 0 ?s ?srv"
    using stub_accepts [of sample_codec]
    by (simp add: serving_def connected_def server_stub_def set_request_handler_def server_defs)
  have init: "stub_step ?base ?srv"
    by (rule stub_step.accepts [of ?base False]; unfold run_server_def do_accept_def)
      (simp_all add: server_stub_def set_request_handler_def new_server_def)
  have fresh: "on_message ?s = Some ?f" "sock_open ?s" "rx ?s = []" "arrived ?s = []"
    "reading ?s = Reading Header" "length (read_buffer ?s) = 4" "delivered ?s = []"
    by (simp_all add: start_def do_read_header_def new_session_def)
  have "session_trans ?s (Received (frame ?m)) ?r"
    using session_trans.bytes_arrive [OF fresh(2), of "frame ?m"] fresh(3,4) by simp
  from stub_conn_step [OF this _ srv]
  have step: "stub_step ?srv (conn_ran 0 ?s ?r ?srv)" "serving sample_codec 0 ?r (conn_ran 0 ?s ?r ?srv)" by simp_all
  let ?t = "after_receive ?m (?f ?m) [] ?r"
  have "internal_step\<^sup>*\<^sup>* ?r ?t"
    using fresh sample_facts(3) by (intro receive_run) simp_all
  from stub_conn_run [OF this step(2)] obtain srv' where
    srv': "stub_step\<^sup>*\<^sup>* (conn_ran 0 ?s ?r ?srv) srv'" "conns srv' 0 = Some ?t" by (auto simp: serving_def)
  have run: "stub_step\<^sup>*\<^sup>* ?base srv'" using init step(1) srv'(1) by (meson rtranclp_head)
  have "delivered ?t = map (ser_Request sample_codec) [sample_div_request 7 2]"
    using fresh(7) by (simp add: after_receive_def)
  from server_answers_own_connection [OF sample_codec_ok run srv'(2) this] sample_facts(2) run srv'(2) this
  show ?thesis by (intro exI [of _ srv'] exI [of _ ?t]) simp
qed

text \<open>A whole exchange, for the witness: one message over and its reply back.\<close>

lemma serve_left_run:
  "internal_step\<^sup>*\<^sup>* s t \<Longrightarrow> left l = s \<Longrightarrow> serve_step\<^sup>*\<^sup>* l (l\<lparr>left := t\<rparr>)"
proof (induction rule: rtranclp_induct)
  case (step t u)
  have "serve_step (l\<lparr>left := t\<rparr>) (l\<lparr>left := u\<rparr>)"
    using step(2) link_trans.left_local [of "l\<lparr>left := t\<rparr>" Internal u]
    by (intro client_moves) (auto simp: internal_step_def)
  with step show ?case by (simp add: rtranclp.rtrancl_into_rtrancl)
qed auto

lemma serve_right_run:
  "internal_step\<^sup>*\<^sup>* s t \<Longrightarrow> right l = s \<Longrightarrow> serve_step\<^sup>*\<^sup>* l (l\<lparr>right := t\<rparr>)"
proof (induction rule: rtranclp_induct)
  case (step t u)
  have "serve_step (l\<lparr>right := t\<rparr>) (l\<lparr>right := u\<rparr>)"
    using step(2) link_trans.right_local [of "l\<lparr>right := t\<rparr>" Internal u]
    by (intro server_moves works) (auto simp: internal_step_def)
  with step show ?case by (simp add: rtranclp.rtrancl_into_rtrancl)
qed auto

lemma serve_left_message:
  assumes "sock_open (left l)" "writing (left l) = No_write" "write_queue (left l) = []"
    "posted (left l) = [Write_task m]" "sock_open (right l)" "to_right l = []"
  shows "serve_step\<^sup>*\<^sup>* l (l\<lparr>left := after_send m [] (left l), right := (right l)
    \<lparr>rx := rx (right l) @ frame m, arrived := arrived (right l) @ frame m\<rparr>\<rparr>)"
proof -
  obtain s1 s2 where run: "internal_step (left l) s1" "session_trans s1 (Sent (frame m)) s2"
    "internal_step\<^sup>*\<^sup>* s2 (after_send m [] (left l))" using send_run [OF assms(1-4)] by blast
  let ?l1 = "l\<lparr>left := s1\<rparr>"
  let ?l2 = "?l1\<lparr>left := s2, to_right := to_right ?l1 @ frame m\<rparr>"
  let ?l3 = "?l2\<lparr>left := after_send m [] (left l)\<rparr>"
  let ?r = "(right l)\<lparr>rx := rx (right l) @ frame m, arrived := arrived (right l) @ frame m\<rparr>"
  have "serve_step\<^sup>*\<^sup>* l ?l1" using serve_left_run [OF r_into_rtranclp] run(1) by blast
  moreover have "serve_step ?l1 ?l2"
    using link_trans.left_sends [of ?l1 "frame m" s2] run(2) by (intro client_moves) simp
  moreover have "serve_step\<^sup>*\<^sup>* ?l2 ?l3" using serve_left_run [OF run(3), of ?l2] by simp
  moreover have "serve_step ?l3 (?l3\<lparr>right := ?r, to_right := []\<rparr>)"
    using link_trans.right_receives [of ?l3 "frame m" ?r "[]"]
      session_trans.bytes_arrive [OF assms(5), of "frame m"] assms(6)
    by (intro server_moves [where x = "Received (frame m)"] works) auto
  ultimately show ?thesis using assms(6) by (cases l) simp
qed

lemma serve_right_message:
  assumes "sock_open (right l)" "writing (right l) = No_write" "write_queue (right l) = []"
    "posted (right l) = [Write_task m]" "sock_open (left l)" "to_left l = []"
  shows "serve_step\<^sup>*\<^sup>* l (l\<lparr>right := after_send m [] (right l), left := (left l)
    \<lparr>rx := rx (left l) @ frame m, arrived := arrived (left l) @ frame m\<rparr>\<rparr>)"
proof -
  obtain s1 s2 where run: "internal_step (right l) s1" "session_trans s1 (Sent (frame m)) s2"
    "internal_step\<^sup>*\<^sup>* s2 (after_send m [] (right l))" using send_run [OF assms(1-4)] by blast
  let ?l1 = "l\<lparr>right := s1\<rparr>"
  let ?l2 = "?l1\<lparr>right := s2, to_left := to_left ?l1 @ frame m\<rparr>"
  let ?l3 = "?l2\<lparr>right := after_send m [] (right l)\<rparr>"
  let ?r = "(left l)\<lparr>rx := rx (left l) @ frame m, arrived := arrived (left l) @ frame m\<rparr>"
  have "serve_step\<^sup>*\<^sup>* l ?l1" using serve_right_run [OF r_into_rtranclp] run(1) by blast
  moreover have "serve_step ?l1 ?l2"
    using link_trans.right_sends [of ?l1 "frame m" s2] run(2) by (intro server_moves works) auto
  moreover have "serve_step\<^sup>*\<^sup>* ?l2 ?l3" using serve_right_run [OF run(3), of ?l2] by simp
  moreover have "serve_step ?l3 (?l3\<lparr>left := ?r, to_left := []\<rparr>)"
    using link_trans.left_receives [of ?l3 "frame m" ?r "[]"]
      session_trans.bytes_arrive [OF assms(5), of "frame m"] assms(6)
    by (intro client_moves) auto
  ultimately show ?thesis using assms(6) by (cases l) simp
qed

definition fresh_link :: "(bytes \<Rightarrow> cb_action list) \<Rightarrow> link" where
  "fresh_link f = \<lparr>left = start (\<lambda>m. []) True new_session, right = start f True new_session,
     to_right = [], to_left = []\<rparr>"

lemma serve_init_fresh [simp]: "serve_init f (fresh_link f)"
  by (auto simp: serve_init_def link_init_def session_init_def fresh_link_def start_def do_read_header_def)

lemma exchange_over_link:
  assumes "f m = [Reply b]" "deliverable m" "deliverable b"
  shows "\<exists>l. serve_step\<^sup>*\<^sup>* (fresh_link f) l \<and> accepted (left l) = [m] \<and> delivered (left l) = [b] \<and>
    quiet l"
proof -
  note defs = after_send_def after_receive_def start_def do_read_header_def new_session_def async_write_def
    fresh_link_def
  let ?l0 = "fresh_link f"
  let ?l1 = "?l0\<lparr>left := async_write m (left ?l0)\<rparr>"
  have s1: "serve_step ?l0 ?l1"
    using session_trans.app_write by (intro client_moves link_trans.left_local) auto
  obtain l2 where l2: "serve_step\<^sup>*\<^sup>* ?l1 l2" "l2 = ?l1\<lparr>left := after_send m [] (left ?l1), right :=
      (right ?l1)\<lparr>rx := rx (right ?l1) @ frame m, arrived := arrived (right ?l1) @ frame m\<rparr>\<rparr>"
    using serve_left_message [of ?l1 m] by (simp add: defs)
  obtain l3 where l3: "serve_step\<^sup>*\<^sup>* l2 l3" "l3 = l2\<lparr>right := after_receive m (f m) [] (right l2)\<rparr>"
    using serve_right_run [OF receive_run [of "right l2" f m "[]"], of l2] l2(2) assms(2)
    by (simp add: defs)
  obtain l4 where l4: "serve_step\<^sup>*\<^sup>* l3 l4" "l4 = l3\<lparr>right := after_send b [] (right l3), left :=
      (left l3)\<lparr>rx := rx (left l3) @ frame b, arrived := arrived (left l3) @ frame b\<rparr>\<rparr>"
    using serve_right_message [of l3 b] l3(2) l2(2) assms(1) by (simp add: defs)
  obtain l5 where l5: "serve_step\<^sup>*\<^sup>* l4 l5" "l5 = l4\<lparr>left := after_receive b [] [] (left l4)\<rparr>"
    using serve_left_run [OF receive_run [of "left l4" "\<lambda>m. []" b "[]"], of l4] l4(2) l3(2) l2(2) assms(3)
    by (simp add: defs)
  have "serve_step\<^sup>*\<^sup>* ?l0 l5" using s1 l2(1) l3(1) l4(1) l5(1) by (meson rtranclp_head rtranclp_trans)
  moreover have "accepted (left l5) = [m]" "delivered (left l5) = [b]" "quiet l5"
    using l5(2) l4(2) l3(2) l2(2) assms(1) by (simp_all add: defs quiet_def writer_idle_def)
  ultimately show ?thesis by blast
qed

theorem answers_come_in_order_witness:
  "\<exists>l :: link. quiet l \<and> accepted (left l) = map (ser_Request sample_codec) [sample_div_request 7 2] \<and>
     delivered (left l) = map (reply_to sample_codec) [sample_div_request 7 2]"
proof -
  let ?m = "ser_Request sample_codec (sample_div_request 7 2)"
  let ?b = "reply_to sample_codec (sample_div_request 7 2)"
  have "stub_handler sample_codec ?m = [Reply ?b]" using sample_facts(5) by (simp add: stub_handler_def)
  from exchange_over_link [where f = "stub_handler sample_codec", OF this sample_facts(3,4)] obtain l where
    l: "serve_step\<^sup>*\<^sup>* (fresh_link (stub_handler sample_codec)) l" "accepted (left l) = [?m]"
    "quiet l" by blast
  from answers_come_in_order [OF sample_codec_ok serve_init_fresh l(1), of "[sample_div_request 7 2]"]
    l(2,3) sample_facts(2-4)
  show ?thesis by (intro exI [of _ l]) simp
qed

end
