(* ===== verification/Programs.thy ===== *)
theory Programs
  imports Answers
begin

text \<open>
  The programs of the repository on top of the library: \<open>rpc_client.cpp\<close> and \<open>rpc_server.cpp\<close>, the two
  echo tests, and \<open>Demo/client.cpp\<close>. A program is a function of what its environment did (whether the
  connection was made, how the call ended, what was typed) to what it prints and its exit code.
\<close>

section \<open>Output\<close>

definition show_int :: "int \<Rightarrow> string" where
  "show_int n = (if n < 0 then ''-'' @ to_string (nat (- n)) else to_string (nat n))"

section \<open>The RPC programs\<close>

text \<open>\<open>RPC::client\<close> and \<open>RPC::server\<close> add nothing to the stubs. The client's only call, as the stub sends
  it with its first identifier, and what \<open>main\<close> makes of the outcome of the exchange. An exception that
  is not a \<open>std::exception\<close> would leave \<open>main\<close>.\<close>

definition the_call :: "codec \<Rightarrow> Request" where
  "the_call C = call_request add_traits C (make_add_request 12 21) 1"

definition rpc_client_main :: "codec \<Rightarrow> bool \<Rightarrow> Response outcome \<Rightarrow> (console list \<times> int) outcome" where
  "rpc_client_main C reachable exchange =
     (if \<not> fst (connect reachable new_client) then Ret ([Err ''[Client] Failed to connect''], 1)
      else case obind exchange (parse_response add_traits C) of
          Ret result \<Rightarrow> Ret ([Out (''[Client] add(12, 21) = '' @ show_int (sint result))], 0)
        | Throw (Std_exception what) \<Rightarrow> Ret ([Err (''[Client] RPC failed: '' @ what)], 1)
        | Throw e \<Rightarrow> Throw e
        | UB u \<Rightarrow> UB u)"

definition rpc_server :: "codec \<Rightarrow> tcp_server" where
  "rpc_server C = server_stub C"

definition rpc_server_main :: "codec \<Rightarrow> console list \<times> tcp_server" where
  "rpc_server_main C =
     ([Out ''[Server] RPC server listening on 8888''], run_server (rpc_server C))"

text \<open>Whatever a call of the stub ends with: the time-out, or what the checks made of some bytes.\<close>

definition results_checked :: "codec \<Rightarrow> system \<Rightarrow> bool" where
  "results_checked C sys \<longleftrightarrow> (\<forall>(r, x)\<in>set (results sys).
     x = timed_out \<or> (\<exists>bs. x = check_response C (req_id r) (req_type r) bs))"

lemma results_checked_step:
  "system_step C sys sys' \<Longrightarrow> results_checked C sys \<Longrightarrow> results_checked C sys'"
  by (induction rule: system_step.induct)
    (auto simp: results_checked_def call_begin_def call_end_def Let_def split: option.splits)

lemma results_checked_run:
  "(system_step C)\<^sup>*\<^sup>* (connected C) sys \<Longrightarrow> results_checked C sys"
proof (induction rule: rtranclp_induct)
  case (step y z)
  then show ?case by (blast intro: results_checked_step)
qed (simp add: results_checked_def connected_def)

lemma check_response_ends:
  "(\<exists>resp. check_response C i m bs = Ret resp) \<or> (\<exists>msg. check_response C i m bs = Throw (Std_exception msg))"
  by (cases "parse_Response C bs") (simp_all add: check_response_def)

lemma show_33: "show_int 33 = ''33''"
  by code_simp

lemma impl_add_12_21: "impl_add 12 21 = Ret 33"
  by code_simp

lemma the_call_served:
  assumes "codec_ok C" shows "served C (the_call C)"
proof -
  have inv: "invoke add_traits (make_add_request 12 21) = Ret 33"
    using invoke_call(1) impl_add_12_21 by simp
  note d = add_served.dispatch_ok [OF assms TrueI inv, of 1]
  have "length (ser_args add_traits C (make_add_request 12 21)) < 2 ^ 30"
    "length (serialize_result add_traits C 33) < 2 ^ 30"
    using add_method.args_size [OF assms] add_method.result_size [OF assms] by blast+
  with d show ?thesis by (simp add: served_def the_call_def call_request_def empty_response_def)
qed

text \<open>C28. \<open>rpc_client\<close> prints the right sum or says why not. Let it be connected to an \<open>rpc_server\<close> and
  its call have ended, in any reachable state of the two processes and the network: then it prints
  \<open>add(12, 21) = 33\<close> and exits with 0, when the exchange brought an answer; otherwise it prints an
  error and exits with 1. There is no third outcome: it never terminates by an exception or runs into
  undefined behaviour.\<close>

theorem rpc_client_prints_33:
  assumes "codec_ok C" and "(system_step C)\<^sup>*\<^sup>* (connected C) sys"
    and "requests sys = [the_call C]" and "results sys = [(the_call C, exchange)]"
  shows "(case exchange of
      Ret resp \<Rightarrow> rpc_client_main C True exchange = Ret ([Out ''[Client] add(12, 21) = 33''], 0)
    | Throw e \<Rightarrow> (\<exists>msg. rpc_client_main C True exchange = Ret ([Err (''[Client] RPC failed: '' @ msg)], 1))
    | UB u \<Rightarrow> False)"
proof -
  have con: "fst (connect True new_client)" by (simp add: connect_def)
  have "exchange = timed_out \<or> (\<exists>bs. exchange = check_response C (req_id (the_call C)) (req_type (the_call C)) bs)"
    using results_checked_run [OF assms(2)] assms(4) by (simp add: results_checked_def)
  then have kinds: "(\<exists>resp. exchange = Ret resp) \<or> (\<exists>msg. exchange = Throw (Std_exception msg))"
    using check_response_ends [of C] by blast
  show ?thesis
  proof (cases exchange)
    case (Ret resp)
    have "(call_request add_traits C (make_add_request 12 21) 1, Ret resp) \<in> set (results sys)"
      using assms(4) Ret by (simp add: the_call_def)
    moreover have "\<forall>r \<in> set (requests sys). served C r" using the_call_served [OF assms(1)] assms(3) by simp
    ultimately have "parse_response add_traits C resp = Ret 33"
      using add_answer [OF assms(1,2)] assms(3) impl_add_12_21 by simp
    with Ret con show ?thesis by (simp add: rpc_client_main_def show_33)
  next
    case (Throw e)
    with kinds con show ?thesis by (auto simp: rpc_client_main_def)
  qed (use kinds in auto)
qed

lemma the_call_facts:
  "the_call C = \<lparr>req_id = next_request_id (connected C), req_type = MET_ADD,
     req_body = ser_args add_traits C (make_add_request 12 21)\<rparr>"
  "dispatch sample_codec (the_call sample_codec) = Ret (empty_response\<lparr>resp_id := 1, resp_type := MET_ADD,
     resp_status := STATUS_OK, resp_body := serialize_add_result sample_codec 33\<rparr>)"
  "deliverable (ser_Request sample_codec (the_call sample_codec))"
  "deliverable (reply_to sample_codec (the_call sample_codec))"
proof -
  show "the_call C = \<lparr>req_id = next_request_id (connected C), req_type = MET_ADD,
     req_body = ser_args add_traits C (make_add_request 12 21)\<rparr>"
    by (simp add: the_call_def call_request_def connected_def)
  have inv: "invoke add_traits (make_add_request 12 21) = Ret 33"
    using invoke_call(1) impl_add_12_21 by simp
  show d: "dispatch sample_codec (the_call sample_codec) = Ret (empty_response\<lparr>resp_id := 1,
      resp_type := MET_ADD, resp_status := STATUS_OK, resp_body := serialize_add_result sample_codec 33\<rparr>)"
    using add_served.dispatch_ok [OF sample_codec_ok TrueI inv, of 1]
    by (simp add: the_call_def call_request_def) (simp add: add_traits_def)
  show "deliverable (ser_Request sample_codec (the_call sample_codec))"
    by (simp add: deliverable_def max_body_def the_call_def call_request_def add_traits_def sample_codec_def)
  show "deliverable (reply_to sample_codec (the_call sample_codec))"
    by (simp add: reply_to_def d deliverable_def max_body_def)
       (simp add: sample_codec_def serialize_add_result_def empty_response_def put_string_def)
qed

theorem rpc_client_prints_33_witness:
  "\<exists>(sys :: system) exchange. results sys = [(the_call sample_codec, exchange)] \<and>
     rpc_client_main sample_codec True exchange = Ret ([Out ''[Client] add(12, 21) = 33''], 0)"
proof -
  have p: "pending (connected sample_codec) = []" "requests (connected sample_codec) = []"
    "results (connected sample_codec) = []" by (simp_all add: connected_def)
  have ids: "req_id (the_call sample_codec) = 1" "req_type (the_call sample_codec) = MET_ADD"
    by (simp_all add: the_call_def call_request_def)
  have s: "served sample_codec (the_call sample_codec)" by (rule the_call_served [OF sample_codec_ok])
  obtain resp where resp: "check_response sample_codec 1 MET_ADD (reply_to sample_codec (the_call sample_codec)) = Ret resp"
    using reply_parses_back [OF sample_codec_ok s] the_call_facts(2) by (auto simp: check_response_Ret)
  from idle_call_run [OF idle_connected p(1) the_call_facts(1) the_call_facts(3)
      served_handled [OF sample_codec_ok s] the_call_facts(4)] p ids resp
  obtain sys where sys: "(system_step sample_codec)\<^sup>*\<^sup>* (connected sample_codec) sys"
    "requests sys = [the_call sample_codec]" "results sys = [(the_call sample_codec, Ret resp)]" by auto
  from rpc_client_prints_33 [OF sample_codec_ok sys] sys(3) show ?thesis by auto
qed

section \<open>The echo test\<close>

text \<open>The server of \<open>test/echo\<close> sends every message back, but one that begins with \<open>exit\<close>: then it closes
  the connection and stops. \<open>substr(0, 4)\<close> of a shorter message is all of it.\<close>

definition exit_word :: bytes where
  "exit_word = put_string ''exit''"

definition echo_handler :: "bytes \<Rightarrow> connection_handle \<Rightarrow> handle_call list" where
  "echo_handler data connection =
     (if take 4 data = exit_word then [Close_on connection] else [Reply_on connection data])"

text \<open>What this is for a session that passes its own handle.\<close>

definition echo_callback :: "bytes \<Rightarrow> cb_action list" where
  "echo_callback data = own_calls 0 (echo_handler data (Some 0))"

definition echo_stops :: "bytes \<Rightarrow> tcp_server \<Rightarrow> tcp_server" where
  "echo_stops data srv = (if take 4 data = exit_word then server_stop srv else srv)"

definition echo_output :: "bytes \<Rightarrow> console list" where
  "echo_output data = (if take 4 data = exit_word then []
     else [Out (''[Server] Received: '' @ get_string data)])"

definition echo_server_main :: "console list \<times> tcp_server" where
  "echo_server_main = ([Out ''=== RPC Network Layer Test ===''],
     run_server (set_request_handler (Some echo_handler) new_server))"

text \<open>The client sends what was typed and shows what came back; \<open>turns\<close> are the rounds of its loop: whether
  it was connected, the word typed, and what \<open>send_and_wait\<close> returned.\<close>

definition echo_send :: "string \<Rightarrow> tcp_client \<Rightarrow> tcp_client option" where
  "echo_send buff c = send_begin (put_string buff) c"

definition echo_shown :: "bytes option \<Rightarrow> console" where
  "echo_shown answer = (case answer of
       Some response \<Rightarrow> Out (''[S]<<< '' @ get_string response) | None \<Rightarrow> Out ''[S] timeout'')"

fun echo_loop :: "(bool \<times> string \<times> bytes option) list \<Rightarrow> console list" where
  "echo_loop [] = []"
| "echo_loop ((still_connected, buff, answer) # rounds) =
     (if still_connected then Out ''[C]>>> '' # echo_shown answer # echo_loop rounds
      else [Out ''Disconnected ''])"

definition echo_client_main :: "bool \<Rightarrow> (bool \<times> string \<times> bytes option) list \<Rightarrow> console list" where
  "echo_client_main reachable rounds = Out ''=== RPC Network Layer Test ==='' #
     (if fst (connect reachable new_client) then echo_loop rounds else [Err ''[Client] Failed to connect''])"

lemma echo_replies: "replies_to echo_callback ms = filter (\<lambda>m. take 4 m \<noteq> exit_word) ms"
  by (induction ms) (simp_all add: replies_to_def echo_callback_def echo_handler_def own_calls_def)

text \<open>The echo server sends back what it got. What a client of it is given, whatever the client and
  however the network interleaves, are the words it sent, without those that begin with \<open>exit\<close>, in
  order; shown by the echo client they are the words as typed.\<close>

lemma echo_returns_typed_words:
  assumes "serve_init echo_callback l0" and "serve_step\<^sup>*\<^sup>* l0 l"
    and "accepted (left l) = map put_string ws" and "\<forall>w\<in>set ws. length w < 2 ^ 32"
  shows "prefix (map (\<lambda>m. echo_shown (Some m)) (delivered (left l)))
    (map (\<lambda>w. Out (''[S]<<< '' @ w)) (filter (\<lambda>w. take 4 w \<noteq> ''exit'') ws))"
proof -
  let ?ms = "map put_string ws"
  have small: "\<forall>m\<in>set ?ms. length m < 2 ^ 32" using assms(4) by (auto simp: put_string_def)
  have inv: "serve_inv echo_callback l" using assms(1,2) by (rule serve.inv_reachable)
  have "prefix (delivered (left l)) (replies_to echo_callback ?ms)"
    using replies_in_order [OF inv] small assms(3) by (auto simp: echo_replies)
  moreover have "take 4 (put_string w) = exit_word \<longleftrightarrow> take 4 w = ''exit''" for w
  proof -
    have "take 4 (put_string w) = put_string (take 4 w)" by (simp add: put_string_def take_map)
    then show ?thesis unfolding exit_word_def by (metis get_put_string)
  qed
  ultimately have "prefix (delivered (left l)) (map put_string (filter (\<lambda>w. take 4 w \<noteq> ''exit'') ws))"
    by (simp add: echo_replies filter_map comp_def)
  from map_mono_prefix [OF this, of "\<lambda>m. echo_shown (Some m)"] show ?thesis
    by (simp add: comp_def echo_shown_def)
qed


section \<open>The demo client\<close>

text \<open>\<open>Demo/client.cpp\<close>: connects and prints how that went; \<open>do_read\<close> and \<open>do_write\<close> are never called, so
  \<open>io.run()\<close> returns right after the connect handler. An error of either operation closes the
  socket. A host that cannot be resolved is an exception that \<open>main\<close> prints.\<close>

record demo_client =
  dc_open :: bool
  dc_reading :: bool
  dc_writing :: "bytes option"

definition new_demo_client :: demo_client where
  "new_demo_client = \<lparr>dc_open = False, dc_reading = False, dc_writing = None\<rparr>"

definition dc_connect_handler :: "string option \<Rightarrow> demo_client \<Rightarrow> console \<times> demo_client" where
  "dc_connect_handler ec c = (case ec of
       None \<Rightarrow> (Out ''Connected to server'', c\<lparr>dc_open := True\<rparr>)
     | Some message \<Rightarrow> (Out (''Connect failed: '' @ message), c))"

definition dc_do_read :: "demo_client \<Rightarrow> demo_client" where
  "dc_do_read c = c\<lparr>dc_reading := True\<rparr>"

definition dc_read_handler :: "string option \<Rightarrow> demo_client \<Rightarrow> demo_client" where
  "dc_read_handler ec c = (let c = c\<lparr>dc_reading := False\<rparr>
     in case ec of None \<Rightarrow> c | Some e \<Rightarrow> c\<lparr>dc_open := False\<rparr>)"

definition dc_do_write :: "string \<Rightarrow> demo_client \<Rightarrow> demo_client" where
  "dc_do_write msg c = c\<lparr>dc_writing := Some (put_string msg)\<rparr>"

definition dc_write_handler :: "string option \<Rightarrow> demo_client \<Rightarrow> demo_client" where
  "dc_write_handler ec c = (let c = c\<lparr>dc_writing := None\<rparr>
     in case ec of None \<Rightarrow> c | Some e \<Rightarrow> c\<lparr>dc_open := False\<rparr>)"

definition demo_client_main :: "string + string option \<Rightarrow> console list" where
  "demo_client_main resolved = (case resolved of
       Inl what \<Rightarrow> [Out (''Error: '' @ what)]
     | Inr ec \<Rightarrow> [fst (dc_connect_handler ec new_demo_client)])"

end
