(* ===== verification/MFunction.thy ===== *)
theory MFunction
  imports Prelude
begin

text \<open>
  The move-only callable wrapper \<open>packagev3::detail::mfunction\<close> of \<open>rpc/threadpool/packagev3.hpp\<close>: a
  callable is kept inside the wrapper when it is small and on the heap otherwise, and a table of
  three functions says how to call, move and destroy it. What it shows: the wrapper implements a map
  from names to callables, whatever the sizes, alignments and throwing constructors; no operation
  has undefined behaviour, and nothing is leaked, destroyed twice or released by the wrong
  \<open>operator delete\<close>.
\<close>

section \<open>Callables and where they live\<close>

text \<open>The ABI gives the size of a pointer and \<open>alignof(std::max_align_t)\<close>.\<close>

record abi =
  ptr_size :: nat
  max_align :: nat

record ctype =
  csize :: nat
  calign :: nat

definition Storage_Size :: nat where
  "Storage_Size = 7"

definition is_over_aligned :: "abi \<Rightarrow> ctype \<Rightarrow> bool" where
  "is_over_aligned A D \<longleftrightarrow> max_align A < calign D"

definition require_on_heap :: "abi \<Rightarrow> ctype \<Rightarrow> bool" where
  "require_on_heap A D \<longleftrightarrow> is_over_aligned A D \<or> ptr_size A * Storage_Size < csize D"

text \<open>What the type of a callable provides: its layout, whether the constructor that brings it into a
  wrapper or the move constructor throws, and the call, which may change the callable itself.\<close>

record ('o, 'r) ops =
  otype :: "'o \<Rightarrow> ctype"
  ctor_throws :: "'o \<Rightarrow> exn option"
  move_throws :: "'o \<Rightarrow> exn option"
  call :: "'o \<Rightarrow> 'r outcome \<times> 'o"

text \<open>\<open>_sbo_storage\<close>: indeterminate bytes, an object in place, or a pointer in \<open>ptr[0]\<close>. A table is the
  one \<open>_create_vtable\<close> makes for a type.\<close>

datatype 'o sbo_storage = Garbage | Stack_obj 'o | Heap_ptr nat
datatype virtual_table = Heap_table ctype | Stack_table ctype

record 'o pack =
  storage :: "'o sbo_storage"
  vtab :: "virtual_table option"

text \<open>A block of the heap: which \<open>operator new\<close> it came from and the object in it.\<close>

record 'o block =
  aligned_new :: bool
  content :: "'o option"

record 'o world =
  packs :: "nat \<Rightarrow> 'o pack option"     \<comment> \<open>the wrapper objects, by name\<close>
  heap :: "nat \<Rightarrow> 'o block option"
  fresh :: nat                          \<comment> \<open>the next address\<close>
  ctors :: nat                          \<comment> \<open>history: callables constructed\<close>
  dtors :: nat                          \<comment> \<open>history: callables destroyed\<close>

definition empty_world :: "'o world" where
  "empty_world = \<lparr>packs = (\<lambda>f. None), heap = (\<lambda>a. None), fresh = 0, ctors = 0, dtors = 0\<rparr>"


section \<open>Storage\<close>

definition operator_delete :: "bool \<Rightarrow> nat \<Rightarrow> ('o world, unit) op" where
  "operator_delete aligned a w = (case heap w a of
       None \<Rightarrow> (UB Bad_delete, w)
     | Some b \<Rightarrow> if aligned_new b = aligned then (Ret (), w\<lparr>heap := (heap w)(a := None)\<rparr>)
         else (UB Bad_delete, w))"

text \<open>\<open>_Alloca_Heap\<close>: the guard releases the block when the constructor throws.\<close>

definition Alloca_Heap :: "abi \<Rightarrow> ('o, 'r) ops \<Rightarrow> 'o \<Rightarrow> ('o world, nat) op" where
  "Alloca_Heap A S fn w =
     (let a = fresh w; aligned = is_over_aligned A (otype S fn);
          w = w\<lparr>heap := (heap w)(a \<mapsto> \<lparr>aligned_new = aligned, content = None\<rparr>), fresh := Suc a\<rparr>
      in case ctor_throws S fn of
           Some e \<Rightarrow> sbind (operator_delete aligned a) (\<lambda>_ w. (Throw e, w)) w
         | None \<Rightarrow> (Ret a, w\<lparr>heap := (heap w)(a \<mapsto> \<lparr>aligned_new = aligned, content = Some fn\<rparr>),
             ctors := Suc (ctors w)\<rparr>))"

definition create_vtable :: "abi \<Rightarrow> ctype \<Rightarrow> virtual_table" where
  "create_vtable A D = (if require_on_heap A D then Heap_table D else Stack_table D)"

text \<open>\<open>_Invoke_Stack\<close> and \<open>_Invoke_Heap\<close>.\<close>

definition put :: "nat \<Rightarrow> 'o pack \<Rightarrow> 'o world \<Rightarrow> 'o world" where
  "put f p w = w\<lparr>packs := (packs w)(f \<mapsto> p)\<rparr>"

fun Invoke :: "virtual_table \<Rightarrow> ('o, 'r) ops \<Rightarrow> nat \<Rightarrow> 'o pack \<Rightarrow> ('o world, 'r) op" where
  "Invoke (Stack_table D) S f p w = (case storage p of
       Stack_obj fn \<Rightarrow> (let (r, fn') = call S fn in (r, put f (p\<lparr>storage := Stack_obj fn'\<rparr>) w))
     | _ \<Rightarrow> (UB No_object, w))"
| "Invoke (Heap_table D) S f p w = (case storage p of
       Heap_ptr a \<Rightarrow> (case heap w a of
           None \<Rightarrow> (UB Use_after_free, w)
         | Some b \<Rightarrow> (case content b of
             None \<Rightarrow> (UB No_object, w)
           | Some fn \<Rightarrow> (let (r, fn') = call S fn
               in (r, w\<lparr>heap := (heap w)(a \<mapsto> b\<lparr>content := Some fn'\<rparr>)\<rparr>))))
     | _ \<Rightarrow> (UB No_object, w))"

text \<open>\<open>_Move_stack\<close> (move construction, then the destructor of the source) and \<open>_Move_heap\<close> (a copy of
  the bytes): the new storage of the target and of the source.\<close>

fun Move :: "virtual_table \<Rightarrow> ('o, 'r) ops \<Rightarrow> 'o sbo_storage \<Rightarrow> 'o sbo_storage \<Rightarrow>
    ('o world, 'o sbo_storage \<times> 'o sbo_storage) op" where
  "Move (Stack_table D) S dst src w = (case src of
       Stack_obj fn \<Rightarrow> (case move_throws S fn of
           Some e \<Rightarrow> (Throw e, w)
         | None \<Rightarrow> (Ret (Stack_obj fn, Garbage), w\<lparr>ctors := Suc (ctors w), dtors := Suc (dtors w)\<rparr>))
     | _ \<Rightarrow> (UB No_object, w))"
| "Move (Heap_table D) S dst src w = (Ret (src, src), w)"

text \<open>\<open>_Destory_stack\<close> and \<open>_Destory_heap\<close>.\<close>

fun Destory :: "virtual_table \<Rightarrow> abi \<Rightarrow> 'o sbo_storage \<Rightarrow> ('o world, 'o sbo_storage) op" where
  "Destory (Stack_table D) A st w = (case st of
       Stack_obj fn \<Rightarrow> (Ret Garbage, w\<lparr>dtors := Suc (dtors w)\<rparr>)
     | _ \<Rightarrow> (UB No_object, w))"
| "Destory (Heap_table D) A st w = (case st of
       Heap_ptr a \<Rightarrow> (case heap w a of
           None \<Rightarrow> (UB Use_after_free, w)
         | Some b \<Rightarrow> (case content b of
             None \<Rightarrow> (UB No_object, w)
           | Some fn \<Rightarrow> sbind (operator_delete (is_over_aligned A D) a) (\<lambda>_ w. (Ret st, w))
               (w\<lparr>heap := (heap w)(a \<mapsto> b\<lparr>content := None\<rparr>), dtors := Suc (dtors w)\<rparr>)))
     | _ \<Rightarrow> (UB No_object, w))"


section \<open>The wrapper\<close>

text \<open>An operation on a wrapper that does not exist is undefined.\<close>

definition with_pack :: "nat \<Rightarrow> ('o pack \<Rightarrow> ('o world, 'a) op) \<Rightarrow> ('o world, 'a) op" where
  "with_pack f k w = (case packs w f of None \<Rightarrow> (UB No_object, w) | Some p \<Rightarrow> k p w)"

definition empty :: "'o pack \<Rightarrow> bool" where
  "empty p \<longleftrightarrow> vtab p = None"

definition destory :: "abi \<Rightarrow> nat \<Rightarrow> ('o world, unit) op" where
  "destory A f = with_pack f (\<lambda>p. case vtab p of
       None \<Rightarrow> (\<lambda>w. (Ret (), w))
     | Some vt \<Rightarrow> sbind (Destory vt A (storage p))
         (\<lambda>st w. (Ret (), put f \<lparr>storage = st, vtab = None\<rparr> w)))"

definition move_from :: "('o, 'r) ops \<Rightarrow> nat \<Rightarrow> nat \<Rightarrow> ('o world, unit) op" where
  "move_from S f g = with_pack f (\<lambda>p. with_pack g (\<lambda>q. case vtab q of
       None \<Rightarrow> (\<lambda>w. (Ret (), w))
     | Some vt \<Rightarrow> sbind (Move vt S (storage p) (storage q))
         (\<lambda>(dst, src) w. (Ret (), put g \<lparr>storage = src, vtab = None\<rparr>
            (put f \<lparr>storage = dst, vtab = Some vt\<rparr> w)))))"

definition assign :: "abi \<Rightarrow> ('o, 'r) ops \<Rightarrow> nat \<Rightarrow> nat \<Rightarrow> ('o world, unit) op" where
  "assign A S f g = sbind (with_pack f (\<lambda>p. if \<not> empty p then destory A f else (\<lambda>w. (Ret (), w))))
     (\<lambda>_. move_from S f g)"

definition construct :: "abi \<Rightarrow> ('o, 'r) ops \<Rightarrow> 'o \<Rightarrow> nat \<Rightarrow> ('o world, unit) op" where
  "construct A S fn f =
     sbind (if require_on_heap A (otype S fn)
         then sbind (Alloca_Heap A S fn) (\<lambda>a w. (Ret (Heap_ptr a), w))
         else (\<lambda>w. case ctor_throws S fn of
             Some e \<Rightarrow> (Throw e, w)
           | None \<Rightarrow> (Ret (Stack_obj fn), w\<lparr>ctors := Suc (ctors w)\<rparr>)))
       (\<lambda>st w. (Ret (), put f \<lparr>storage = st, vtab = Some (create_vtable A (otype S fn))\<rparr> w))"

definition Invalid_Function :: "'r outcome" where
  "Invalid_Function = Throw (Std_exception ''Invaild function.'')"

definition invoke :: "('o, 'r) ops \<Rightarrow> nat \<Rightarrow> ('o world, 'r) op" where
  "invoke S f = with_pack f (\<lambda>p. case vtab p of
       None \<Rightarrow> (\<lambda>w. (Invalid_Function, w))
     | Some vt \<Rightarrow> Invoke vt S f p)"

text \<open>The members of \<open>mfunction\<close>. A constructor that throws leaves no object behind.\<close>

definition mf_default :: "nat \<Rightarrow> ('o world, unit) op" where
  "mf_default f w = (Ret (), put f \<lparr>storage = Garbage, vtab = None\<rparr> w)"

definition unborn :: "nat \<Rightarrow> unit outcome \<times> 'o world \<Rightarrow> unit outcome \<times> 'o world" where
  "unborn f rw = (case rw of (Throw e, w) \<Rightarrow> (Throw e, w\<lparr>packs := (packs w)(f := None)\<rparr>) | _ \<Rightarrow> rw)"

definition mf_construct :: "abi \<Rightarrow> ('o, 'r) ops \<Rightarrow> 'o \<Rightarrow> nat \<Rightarrow> ('o world, unit) op" where
  "mf_construct A S fn f w = unborn f (sbind (mf_default f) (\<lambda>_. construct A S fn f) w)"

definition mf_move_construct :: "('o, 'r) ops \<Rightarrow> nat \<Rightarrow> nat \<Rightarrow> ('o world, unit) op" where
  "mf_move_construct S f g w = unborn f (sbind (mf_default f) (\<lambda>_. move_from S f g) w)"

definition mf_move_assign :: "abi \<Rightarrow> ('o, 'r) ops \<Rightarrow> nat \<Rightarrow> nat \<Rightarrow> ('o world, unit) op" where
  "mf_move_assign A S f g w = (if f \<noteq> g then assign A S f g w else (Ret (), w))"

definition mf_reset :: "abi \<Rightarrow> nat \<Rightarrow> ('o world, unit) op" where
  "mf_reset A f = destory A f"

definition mf_destruct :: "abi \<Rightarrow> nat \<Rightarrow> ('o world, unit) op" where
  "mf_destruct A f = sbind (destory A f) (\<lambda>_ w. (Ret (), w\<lparr>packs := (packs w)(f := None)\<rparr>))"

definition mf_assign_fn :: "abi \<Rightarrow> ('o, 'r) ops \<Rightarrow> 'o \<Rightarrow> nat \<Rightarrow> ('o world, unit) op" where
  "mf_assign_fn A S fn f = sbind (destory A f) (\<lambda>_. construct A S fn f)"



section \<open>The invariant\<close>

text \<open>The callable a wrapper holds, and the heap block it owns.\<close>

definition held :: "(nat \<Rightarrow> 'o block option) \<Rightarrow> 'o pack \<Rightarrow> 'o option" where
  "held h p = (case vtab p of
       None \<Rightarrow> None
     | Some (Stack_table D) \<Rightarrow> (case storage p of Stack_obj fn \<Rightarrow> Some fn | _ \<Rightarrow> None)
     | Some (Heap_table D) \<Rightarrow> (case storage p of
           Heap_ptr a \<Rightarrow> (case h a of None \<Rightarrow> None | Some b \<Rightarrow> content b)
         | _ \<Rightarrow> None))"

definition owned :: "'o pack \<Rightarrow> nat option" where
  "owned p = (case vtab p of
       Some (Heap_table D) \<Rightarrow> (case storage p of Heap_ptr a \<Rightarrow> Some a | _ \<Rightarrow> None)
     | _ \<Rightarrow> None)"

text \<open>A wrapper is well formed if its table is the one of its callable and, for one on the heap, its
  block came from the right \<open>operator new\<close>.\<close>

definition pack_ok :: "abi \<Rightarrow> ('o, 'r) ops \<Rightarrow> (nat \<Rightarrow> 'o block option) \<Rightarrow> 'o pack \<Rightarrow> bool" where
  "pack_ok A S h p \<longleftrightarrow> vtab p = None \<or>
     (\<exists>fn. vtab p = Some (create_vtable A (otype S fn)) \<and>
       (if require_on_heap A (otype S fn)
        then \<exists>a. storage p = Heap_ptr a \<and>
          h a = Some \<lparr>aligned_new = is_over_aligned A (otype S fn), content = Some fn\<rparr>
        else storage p = Stack_obj fn))"

definition full :: "'o world \<Rightarrow> nat set" where
  "full w = {f. \<exists>p. packs w f = Some p \<and> vtab p \<noteq> None}"

definition owner :: "'o world \<Rightarrow> nat \<Rightarrow> nat option" where
  "owner w f = (case packs w f of None \<Rightarrow> None | Some p \<Rightarrow> owned p)"

definition wf :: "abi \<Rightarrow> ('o, 'r) ops \<Rightarrow> 'o world \<Rightarrow> bool" where
  "wf A S w \<longleftrightarrow>
     (\<forall>f p. packs w f = Some p \<longrightarrow> pack_ok A S (heap w) p) \<and>
     (\<forall>f g a. owner w f = Some a \<longrightarrow> owner w g = Some a \<longrightarrow> f = g) \<and>
     (\<forall>a. heap w a \<noteq> None \<longrightarrow> a < fresh w \<and> (\<exists>f. owner w f = Some a)) \<and>
     finite (full w) \<and> ctors w = dtors w + card (full w)"

text \<open>What a wrapper is to its user: absent, empty, or holding a callable.\<close>

type_synonym 'o wrappers = "nat \<Rightarrow> 'o option option"

definition abs_w :: "'o world \<Rightarrow> 'o wrappers" where
  "abs_w w f = map_option (held (heap w)) (packs w f)"

lemma wf_empty: "wf A S empty_world"
  by (simp add: wf_def empty_world_def full_def owner_def)

lemma wf_pack: "wf A S w \<Longrightarrow> packs w f = Some p \<Longrightarrow> pack_ok A S (heap w) p"
  by (simp add: wf_def)

lemma pack_ok_empty [simp]: "vtab p = None \<Longrightarrow> pack_ok A S h p"
  by (simp add: pack_ok_def)

lemma held_empty [simp]: "vtab p = None \<Longrightarrow> held h p = None"
  by (simp add: held_def)

lemma owned_empty [simp]: "vtab p = None \<Longrightarrow> owned p = None"
  by (simp add: owned_def)

text \<open>The two shapes of a wrapper that holds something.\<close>

lemma pack_ok_cases:
  assumes "pack_ok A S h p" "vtab p = Some vt"
  obtains (stack) fn where "vt = Stack_table (otype S fn)" "storage p = Stack_obj fn"
      "held h p = Some fn" "owned p = None" "\<not> require_on_heap A (otype S fn)"
  | (heap) fn a where "vt = Heap_table (otype S fn)" "storage p = Heap_ptr a"
      "h a = Some \<lparr>aligned_new = is_over_aligned A (otype S fn), content = Some fn\<rparr>"
      "held h p = Some fn" "owned p = Some a" "require_on_heap A (otype S fn)"
proof -
  from assms obtain fn where vt: "vt = create_vtable A (otype S fn)"
    and st: "if require_on_heap A (otype S fn)
      then \<exists>a. storage p = Heap_ptr a \<and>
        h a = Some \<lparr>aligned_new = is_over_aligned A (otype S fn), content = Some fn\<rparr>
      else storage p = Stack_obj fn" by (auto simp: pack_ok_def)
  show thesis
  proof (cases "require_on_heap A (otype S fn)")
    case True
    with vt st assms(2) heap show thesis by (auto simp: create_vtable_def held_def owned_def)
  next
    case False
    with vt st assms(2) stack show thesis by (auto simp: create_vtable_def held_def owned_def)
  qed
qed

text \<open>A wrapper does not see changes of blocks it does not own.\<close>

text \<open>A wrapper sees only the block it owns.\<close>

lemma pack_ok_cong:
  assumes "pack_ok A S h p" "\<And>a. owned p = Some a \<Longrightarrow> h' a = h a"
  shows "pack_ok A S h' p"
proof (cases "vtab p")
  case (Some vt)
  from assms(1) Some show ?thesis
  proof (cases rule: pack_ok_cases)
    case (stack fn)
    with Some show ?thesis by (auto simp: pack_ok_def create_vtable_def)
  next
    case (heap fn a)
    with Some assms(2) [OF heap(5)] show ?thesis by (auto simp: pack_ok_def create_vtable_def)
  qed
qed simp

lemma held_cong: "(\<And>a. owned p = Some a \<Longrightarrow> h' a = h a) \<Longrightarrow> held h' p = held h p"
  by (auto simp: held_def owned_def split: option.splits virtual_table.splits sbo_storage.splits)

lemma owner_block:
  assumes "wf A S w" "owner w f = Some a" shows "heap w a \<noteq> None"
proof -
  from assms(2) obtain p where p: "packs w f = Some p" "owned p = Some a"
    by (auto simp: owner_def split: option.splits)
  with assms(1) have ok: "pack_ok A S (heap w) p" by (simp add: wf_pack)
  from p(2) obtain vt where vt: "vtab p = Some vt" by (auto simp: owned_def split: option.splits)
  from ok vt p(2) show ?thesis by (cases rule: pack_ok_cases) auto
qed

lemma owner_unique: "wf A S w \<Longrightarrow> owner w f = Some a \<Longrightarrow> owner w g = Some a \<Longrightarrow> f = g"
  by (simp add: wf_def)

text \<open>The general step: only the wrappers in \<open>F\<close> change, and only blocks they owned or new ones.\<close>

lemma wf_change:
  assumes wf: "wf A S w"
    and keep: "\<And>g. g \<notin> F \<Longrightarrow> packs w' g = packs w g"
    and ok: "\<And>f p. f \<in> F \<Longrightarrow> packs w' f = Some p \<Longrightarrow> pack_ok A S (heap w') p"
    and same: "\<And>a. heap w' a \<noteq> heap w a \<Longrightarrow> heap w a = None \<or> (\<exists>f \<in> F. owner w f = Some a)"
    and uniq: "\<And>f g a. f \<in> F \<Longrightarrow> g \<in> F \<Longrightarrow> owner w' f = Some a \<Longrightarrow> owner w' g = Some a \<Longrightarrow> f = g"
    and own: "\<And>f a. f \<in> F \<Longrightarrow> owner w' f = Some a \<Longrightarrow> heap w a = None \<or> (\<exists>g \<in> F. owner w g = Some a)"
    and blocks: "\<And>a. heap w' a \<noteq> None \<Longrightarrow> a < fresh w' \<and>
      ((\<exists>f \<in> F. owner w' f = Some a) \<or> heap w a \<noteq> None \<and> (\<forall>f \<in> F. owner w f \<noteq> Some a))"
    and count: "finite (full w')" "ctors w' = dtors w' + card (full w')"
  shows "wf A S w' \<and> (\<forall>g. g \<notin> F \<longrightarrow> abs_w w' g = abs_w w g)"
proof -
  have owner_keep: "owner w' g = owner w g" if "g \<notin> F" for g
    using keep [OF that] by (simp add: owner_def)
  have heap_keep: "heap w' a = heap w a" if "g \<notin> F" "owner w g = Some a" for g a
  proof (rule ccontr)
    assume "heap w' a \<noteq> heap w a"
    with same [of a] owner_block [OF wf that(2)] obtain f where "f \<in> F" "owner w f = Some a" by auto
    with owner_unique [OF wf that(2)] that(1) show False by blast
  qed
  have see: "heap w' a = heap w a" if "g \<notin> F" "packs w g = Some q" "owned q = Some a" for g q a
    using heap_keep [OF that(1)] that by (simp add: owner_def)
  have "pack_ok A S (heap w') p" if "packs w' f = Some p" for f p
  proof (cases "f \<in> F")
    case False
    with that keep have p: "packs w f = Some p" by simp
    show ?thesis
      by (rule pack_ok_cong [OF wf_pack [OF wf p]]) (rule see [OF False p])
  qed (use ok that in blast)
  moreover have "f = g" if "owner w' f = Some a" "owner w' g = Some a" for f g a
  proof -
    have cross: False if "f \<in> F" "g \<notin> F" "owner w' f = Some a" "owner w' g = Some a" for f g
    proof -
      have g: "owner w g = Some a" using that owner_keep by simp
      with own [OF that(1,3)] owner_block [OF wf g] obtain f' where "f' \<in> F" "owner w f' = Some a" by blast
      with owner_unique [OF wf g] that(2) show False by blast
    qed
    show ?thesis
    proof (cases "f \<in> F")
      case True
      with cross [OF True _ that] uniq [OF True _ that] show ?thesis by blast
    next
      case False
      with cross [OF _ False that(2,1)] owner_keep owner_unique [OF wf] that show ?thesis by metis
    qed
  qed
  moreover have "a < fresh w' \<and> (\<exists>f. owner w' f = Some a)" if "heap w' a \<noteq> None" for a
  proof -
    from blocks [OF that] consider f where "f \<in> F" "owner w' f = Some a"
      | "heap w a \<noteq> None" "\<forall>f \<in> F. owner w f \<noteq> Some a" by blast
    then show ?thesis
    proof cases
      case 2
      then obtain f where f: "owner w f = Some a" using wf by (auto simp: wf_def)
      with 2(2) have "f \<notin> F" by blast
      with f owner_keep have "owner w' f = Some a" by simp
      with blocks [OF that] show ?thesis by blast
    qed (use blocks [OF that] in blast)
  qed
  moreover have "abs_w w' g = abs_w w g" if "g \<notin> F" for g
    using keep [OF that] see [OF that]
    by (cases "packs w g") (auto simp: abs_w_def intro: held_cong)
  ultimately show ?thesis using count by (simp add: wf_def)
qed

text \<open>The case of one wrapper.\<close>

lemma full_upd:
  assumes "packs w' = (packs w)(f := x)"
  shows "full w' = (case x of None \<Rightarrow> full w - {f}
    | Some p \<Rightarrow> if vtab p = None then full w - {f} else insert f (full w))"
  using assms by (auto simp: full_def split: option.splits)

lemma full_cong: "packs w' = packs w \<Longrightarrow> full w' = full w"
  by (simp add: full_def)

lemma owner_upd:
  "packs w' = (packs w)(f := x) \<Longrightarrow> owner w' f = (case x of None \<Rightarrow> None | Some p \<Rightarrow> owned p)"
  by (simp add: owner_def)

lemma wf_change_one:
  assumes wf: "wf A S w" and w': "packs w' = (packs w)(f := x)"
    and ok: "\<And>p. x = Some p \<Longrightarrow> pack_ok A S (heap w') p"
    and same: "\<And>a. heap w' a \<noteq> heap w a \<Longrightarrow> heap w a = None \<or> owner w f = Some a"
    and own: "\<And>a. owner w' f = Some a \<Longrightarrow> heap w a = None \<or> owner w f = Some a"
    and blocks: "\<And>a. heap w' a \<noteq> None \<Longrightarrow> a < fresh w' \<and>
      (owner w' f = Some a \<or> heap w a \<noteq> None \<and> owner w f \<noteq> Some a)"
    and count: "finite (full w')" "ctors w' = dtors w' + card (full w')"
  shows "wf A S w' \<and> abs_w w' = (abs_w w)(f := map_option (held (heap w')) x)"
proof -
  have "wf A S w' \<and> (\<forall>g. g \<notin> {f} \<longrightarrow> abs_w w' g = abs_w w g)"
  proof (rule wf_change [OF wf])
    show "packs w' g = packs w g" if "g \<notin> {f}" for g using that by (simp add: w')
    show "pack_ok A S (heap w') p" if "g \<in> {f}" "packs w' g = Some p" for g p
      using that ok by (simp add: w')
    show "heap w a = None \<or> (\<exists>g \<in> {f}. owner w g = Some a)" if "heap w' a \<noteq> heap w a" for a
      using same [OF that] by simp
    show "heap w a = None \<or> (\<exists>h \<in> {f}. owner w h = Some a)" if "g \<in> {f}" "owner w' g = Some a" for g a
      using own that by simp
    show "a < fresh w' \<and> ((\<exists>g \<in> {f}. owner w' g = Some a) \<or>
        heap w a \<noteq> None \<and> (\<forall>g \<in> {f}. owner w g \<noteq> Some a))" if "heap w' a \<noteq> None" for a
      using blocks [OF that] by simp
  qed (use count in simp_all)
  moreover have "abs_w w' f = map_option (held (heap w')) x" by (simp add: abs_w_def w')
  ultimately show ?thesis by (auto simp: fun_eq_iff)
qed

lemma wf_finite: "wf A S w \<Longrightarrow> finite (full w)"
  by (simp add: wf_def)

lemma wf_ctors: "wf A S w \<Longrightarrow> ctors w = dtors w + card (full w)"
  by (simp add: wf_def)

lemma wf_block: "wf A S w \<Longrightarrow> heap w a \<noteq> None \<Longrightarrow> a < fresh w"
  by (simp add: wf_def)

lemma wf_fresh: "wf A S w \<Longrightarrow> heap w (fresh w) = None"
  by (rule ccontr) (use wf_block [of A S w "fresh w"] in simp)

lemma full_card:
  "wf A S w \<Longrightarrow> f \<in> full w \<Longrightarrow> card (full w) = Suc (card (full w - {f}))"
  by (rule card.remove [OF wf_finite])

lemma in_full: "packs w f = Some p \<Longrightarrow> f \<in> full w \<longleftrightarrow> vtab p \<noteq> None"
  by (simp add: full_def)


section \<open>The three primitives\<close>

lemma destory_ok:
  assumes wf: "wf A S w" and f: "packs w f = Some p"
  shows "\<exists>w'. destory A f w = (Ret (), w') \<and> wf A S w' \<and> abs_w w' = (abs_w w)(f \<mapsto> None) \<and>
    (\<exists>q. packs w' f = Some q \<and> vtab q = None)"
proof (cases "vtab p")
  case None
  then have "abs_w w = (abs_w w)(f \<mapsto> None)" using f by (auto simp: abs_w_def)
  with None f wf show ?thesis by (simp add: destory_def with_pack_def)
next
  case (Some vt)
  have full: "f \<in> full w" using f Some by (simp add: in_full)
  from wf_pack [OF wf f] Some show ?thesis
  proof (cases rule: pack_ok_cases)
    case (stack fn)
    let ?q = "\<lparr>storage = Garbage, vtab = None\<rparr>"
    let ?w = "put f ?q (w\<lparr>dtors := Suc (dtors w)\<rparr>)"
    have run: "destory A f w = (Ret (), ?w)"
      using f Some stack by (simp add: destory_def with_pack_def sbind_def)
    have upd: "packs ?w = (packs w)(f := Some ?q)" by (simp add: put_def)
    have "wf A S ?w \<and> abs_w ?w = (abs_w w)(f := map_option (held (heap ?w)) (Some ?q))"
    proof (rule wf_change_one [OF wf upd])
      show "a < fresh ?w \<and> (owner ?w f = Some a \<or> heap w a \<noteq> None \<and> owner w f \<noteq> Some a)"
        if "heap ?w a \<noteq> None" for a
        using that wf_block [OF wf] stack f by (simp add: put_def owner_def)
    qed (use full_upd [OF upd] owner_upd [OF upd] full full_card [OF wf full] wf_finite [OF wf]
        wf_ctors [OF wf] in \<open>simp_all add: put_def\<close>)
    with run show ?thesis by (simp add: put_def)
  next
    case (heap fn a)
    let ?q = "\<lparr>storage = Heap_ptr a, vtab = None\<rparr>"
    let ?w = "put f ?q (w\<lparr>dtors := Suc (dtors w), heap := (heap w)(a := None)\<rparr>)"
    have own: "owner w f = Some a" using f heap by (simp add: owner_def)
    have run: "destory A f w = (Ret (), ?w)"
      using f Some heap by (simp add: destory_def with_pack_def sbind_def operator_delete_def)
    have upd: "packs ?w = (packs w)(f := Some ?q)" by (simp add: put_def)
    have "wf A S ?w \<and> abs_w ?w = (abs_w w)(f := map_option (held (heap ?w)) (Some ?q))"
    proof (rule wf_change_one [OF wf upd])
      show "b < fresh ?w \<and> (owner ?w f = Some b \<or> heap w b \<noteq> None \<and> owner w f \<noteq> Some b)"
        if "heap ?w b \<noteq> None" for b
        using that wf_block [OF wf, of b] own by (auto simp: put_def split: if_splits)
      show "heap w b = None \<or> owner w f = Some b" if "heap ?w b \<noteq> heap w b" for b
        using that own by (auto simp: put_def split: if_splits)
    qed (use full_upd [OF upd] owner_upd [OF upd] full full_card [OF wf full] wf_finite [OF wf]
        wf_ctors [OF wf] in \<open>simp_all add: put_def\<close>)
    with run show ?thesis by (simp add: put_def)
  qed
qed

lemma wf_more_fresh: "wf A S w \<Longrightarrow> wf A S (w\<lparr>fresh := Suc (fresh w)\<rparr>)"
  by (auto simp: wf_def owner_def full_def less_SucI)

lemma construct_ok:
  assumes wf: "wf A S w" and f: "packs w f = Some p" "vtab p = None"
  shows "\<exists>w'. wf A S w' \<and> construct A S fn f w = (case ctor_throws S fn of
      None \<Rightarrow> (Ret (), w') | Some e \<Rightarrow> (Throw e, w')) \<and>
    abs_w w' = (if ctor_throws S fn = None then (abs_w w)(f \<mapsto> Some fn) else abs_w w)"
proof -
  let ?vt = "create_vtable A (otype S fn)"
  let ?b = "\<lparr>aligned_new = is_over_aligned A (otype S fn), content = Some fn\<rparr>"
  have nfull: "f \<notin> full w" using f by (simp add: in_full)
  have own: "owner w f = None" using f by (simp add: owner_def)
  note fresh = wf_fresh [OF wf]
  show ?thesis
  proof (cases "ctor_throws S fn")
    case (Some e)
    show ?thesis
    proof (cases "require_on_heap A (otype S fn)")
      case True
      let ?w = "w\<lparr>fresh := Suc (fresh w)\<rparr>"
      have "(heap w)(fresh w := None) = heap w" using fresh by auto
      then have "construct A S fn f w = (Throw e, ?w)"
        using True Some by (simp add: construct_def Alloca_Heap_def operator_delete_def sbind_def Let_def)
      moreover have "abs_w ?w = abs_w w" by (simp add: abs_w_def fun_eq_iff)
      ultimately show ?thesis using wf_more_fresh [OF wf] Some by auto
    next
      case False
      with Some have "construct A S fn f w = (Throw e, w)" by (simp add: construct_def sbind_def)
      with wf Some show ?thesis by auto
    qed
  next
    case None
    show ?thesis
    proof (cases "require_on_heap A (otype S fn)")
      case True
      let ?q = "\<lparr>storage = Heap_ptr (fresh w), vtab = Some ?vt\<rparr>"
      let ?w = "put f ?q (w\<lparr>fresh := Suc (fresh w), heap := (heap w)(fresh w \<mapsto> ?b), ctors := Suc (ctors w)\<rparr>)"
      have vt: "?vt = Heap_table (otype S fn)" using True by (simp add: create_vtable_def)
      have run: "construct A S fn f w = (Ret (), ?w)"
        using True None by (simp add: construct_def Alloca_Heap_def sbind_def Let_def)
      have upd: "packs ?w = (packs w)(f := Some ?q)" by (simp add: put_def)
      have "wf A S ?w \<and> abs_w ?w = (abs_w w)(f := map_option (held (heap ?w)) (Some ?q))"
      proof (rule wf_change_one [OF wf upd])
        show "pack_ok A S (heap ?w) r" if "Some ?q = Some r" for r
          using that True by (auto simp: pack_ok_def put_def)
        show "a < fresh ?w \<and> (owner ?w f = Some a \<or> heap w a \<noteq> None \<and> owner w f \<noteq> Some a)"
          if "heap ?w a \<noteq> None" for a
          using that wf_block [OF wf, of a] own vt
          by (auto simp: put_def owner_def owned_def split: if_splits)
      qed (use full_upd [OF upd] owner_upd [OF upd] nfull wf_finite [OF wf] wf_ctors [OF wf] fresh vt
          in \<open>auto simp: put_def owned_def split: if_splits\<close>)
      moreover have "held (heap ?w) ?q = Some fn" by (simp add: held_def vt put_def)
      ultimately show ?thesis using run None by auto
    next
      case False
      let ?q = "\<lparr>storage = Stack_obj fn, vtab = Some ?vt\<rparr>"
      let ?w = "put f ?q (w\<lparr>ctors := Suc (ctors w)\<rparr>)"
      have vt: "?vt = Stack_table (otype S fn)" using False by (simp add: create_vtable_def)
      have run: "construct A S fn f w = (Ret (), ?w)"
        using False None by (simp add: construct_def sbind_def)
      have upd: "packs ?w = (packs w)(f := Some ?q)" by (simp add: put_def)
      have "wf A S ?w \<and> abs_w ?w = (abs_w w)(f := map_option (held (heap ?w)) (Some ?q))"
      proof (rule wf_change_one [OF wf upd])
        show "pack_ok A S (heap ?w) r" if "Some ?q = Some r" for r
          using that False by (auto simp: pack_ok_def)
        show "a < fresh ?w \<and> (owner ?w f = Some a \<or> heap w a \<noteq> None \<and> owner w f \<noteq> Some a)"
          if "heap ?w a \<noteq> None" for a
          using that wf_block [OF wf, of a] own by (simp add: put_def)
      qed (use full_upd [OF upd] owner_upd [OF upd] nfull wf_finite [OF wf] wf_ctors [OF wf] vt
          in \<open>auto simp: put_def owned_def\<close>)
      moreover have "held (heap ?w) ?q = Some fn" by (simp add: held_def vt)
      ultimately show ?thesis using run None by auto
    qed
  qed
qed

text \<open>Moving a callable out of its wrapper: only one kept inside can throw.\<close>

definition moving_throws :: "abi \<Rightarrow> ('o, 'r) ops \<Rightarrow> 'o \<Rightarrow> exn option" where
  "moving_throws A S fn = (if require_on_heap A (otype S fn) then None else move_throws S fn)"

lemma move_from_empty:
  assumes "packs w f = Some p" "packs w g = Some q" "held (heap w) q = None" "wf A S w"
  shows "move_from S f g w = (Ret (), w)"
proof (cases "vtab q")
  case (Some vt)
  from wf_pack [OF assms(4,2)] Some assms(3) show ?thesis by (cases rule: pack_ok_cases) auto
qed (use assms in \<open>simp add: move_from_def with_pack_def\<close>)

lemma move_from_ok:
  assumes wf: "wf A S w" and fg: "f \<noteq> g" and f: "packs w f = Some p" "vtab p = None"
    and g: "packs w g = Some q" "held (heap w) q = Some fn"
  shows "\<exists>w'. wf A S w' \<and> move_from S f g w = (case moving_throws A S fn of
      None \<Rightarrow> (Ret (), w') | Some e \<Rightarrow> (Throw e, w')) \<and>
    abs_w w' = (if moving_throws A S fn = None then (abs_w w)(f \<mapsto> Some fn, g \<mapsto> None) else abs_w w)"
proof -
  obtain vt where vt: "vtab q = Some vt" using g(2) by (cases "vtab q") auto
  have nfull: "f \<notin> full w" "g \<in> full w" using f g vt by (simp_all add: in_full)
  have own: "owner w f = None" "owner w g = owned q" using f g by (simp_all add: owner_def)
  let ?wf = "\<lambda>w'. wf A S w' \<and> (\<forall>h. h \<notin> {f, g} \<longrightarrow> abs_w w' h = abs_w w h)"
  have change: "?wf w'"
    if upd: "packs w' = (packs w)(f \<mapsto> p', g \<mapsto> q')" and q': "vtab q' = None" and own': "owned p' = owned q"
      and ok: "pack_ok A S (heap w) p'" and p': "vtab p' = Some vt"
      and rest: "heap w' = heap w" "fresh w' = fresh w" "ctors w' = dtors w' + card (full w)"
    for w' p' q'
  proof -
    have full: "full w' = insert f (full w - {g})"
      using fg p' q' by (auto simp: full_def upd)
    have "card (full w') = card (full w)"
      using full nfull wf_finite [OF wf] full_card [OF wf nfull(2)] by simp
    with rest full wf_finite [OF wf] have count: "finite (full w')" "ctors w' = dtors w' + card (full w')"
      by simp_all
    have own2: "owner w' f = owned q" "owner w' g = None"
      using fg own' q' by (simp_all add: owner_def upd)
    show ?thesis
    proof (rule wf_change [OF wf _ _ _ _ _ _ count])
      show "a < fresh w' \<and> ((\<exists>f \<in> {f, g}. owner w' f = Some a) \<or>
          heap w a \<noteq> None \<and> (\<forall>f \<in> {f, g}. owner w f \<noteq> Some a))" if "heap w' a \<noteq> None" for a
        using that wf_block [OF wf, of a] own own2 rest by auto
    qed (use upd rest ok q' own own2 fg in \<open>auto split: if_splits\<close>)
  qed
  have absI: "abs_w w' = (abs_w w)(f \<mapsto> Some fn, g \<mapsto> None)"
    if "?wf w'" "packs w' f = Some p'" "packs w' g = Some q'" "held (heap w') p' = Some fn" "vtab q' = None"
    for w' p' q'
    using that fg by (auto simp: fun_eq_iff abs_w_def)
  from wf_pack [OF wf g(1)] vt show ?thesis
  proof (cases rule: pack_ok_cases)
    case (stack fn')
    then have fn: "fn' = fn" using g(2) by simp
    show ?thesis
    proof (cases "move_throws S fn")
      case (Some e)
      then have "move_from S f g w = (Throw e, w)"
        using f g vt stack fn by (simp add: move_from_def with_pack_def sbind_def)
      with Some stack fn wf show ?thesis by (auto simp: moving_throws_def)
    next
      case None
      let ?p = "\<lparr>storage = Stack_obj fn, vtab = Some vt\<rparr>"
      let ?q = "\<lparr>storage = Garbage, vtab = None\<rparr>"
      let ?w = "put g ?q (put f ?p (w\<lparr>ctors := Suc (ctors w), dtors := Suc (dtors w)\<rparr>))"
      have run: "move_from S f g w = (Ret (), ?w)"
        using f g vt stack fn None by (simp add: move_from_def with_pack_def sbind_def)
      have w': "?wf ?w"
        using stack fn vt wf_ctors [OF wf]
        by (intro change [of _ ?p ?q]) (auto simp: put_def owned_def pack_ok_def create_vtable_def)
      then have "abs_w ?w = (abs_w w)(f \<mapsto> Some fn, g \<mapsto> None)"
        using fg stack by (intro absI [of _ ?p ?q]) (auto simp: put_def held_def)
      with run w' None stack fn show ?thesis by (intro exI [of _ ?w]) (simp add: moving_throws_def)
    qed
  next
    case (heap fn' a)
    then have fn: "fn' = fn" using g(2) by simp
    let ?p = "\<lparr>storage = Heap_ptr a, vtab = Some vt\<rparr>"
    let ?q = "\<lparr>storage = Heap_ptr a, vtab = None\<rparr>"
    let ?w = "put g ?q (put f ?p w)"
    have run: "move_from S f g w = (Ret (), ?w)"
      using f g vt heap by (simp add: move_from_def with_pack_def sbind_def)
    have w': "?wf ?w"
      using heap fn vt wf_ctors [OF wf]
      by (intro change [of _ ?p ?q]) (auto simp: put_def owned_def pack_ok_def create_vtable_def)
    then have "abs_w ?w = (abs_w w)(f \<mapsto> Some fn, g \<mapsto> None)"
      using fg heap fn by (intro absI [of _ ?p ?q]) (auto simp: put_def held_def)
    with run w' heap fn show ?thesis by (intro exI [of _ ?w]) (simp add: moving_throws_def)
  qed
qed

text \<open>The static type of a callable does not change when it is called.\<close>

definition ops_ok :: "('o, 'r) ops \<Rightarrow> bool" where
  "ops_ok S \<longleftrightarrow> (\<forall>fn. otype S (snd (call S fn)) = otype S fn)"

lemma invoke_ok:
  assumes wf: "wf A S w" and S: "ops_ok S" and f: "packs w f = Some p" "held (heap w) p = Some fn"
  shows "\<exists>w'. wf A S w' \<and> invoke S f w = (fst (call S fn), w') \<and>
    abs_w w' = (abs_w w)(f \<mapsto> Some (snd (call S fn)))"
proof -
  obtain vt where vt: "vtab p = Some vt" using f(2) by (cases "vtab p") auto
  obtain r fn' where call: "call S fn = (r, fn')" by (cases "call S fn")
  have same: "otype S fn' = otype S fn" using S call by (metis ops_ok_def snd_conv)
  have full: "f \<in> full w" using f vt by (simp add: in_full)
  from wf_pack [OF wf f(1)] vt show ?thesis
  proof (cases rule: pack_ok_cases)
    case (stack fn0)
    then have fn: "fn0 = fn" using f(2) by simp
    let ?q = "p\<lparr>storage := Stack_obj fn'\<rparr>"
    let ?w = "put f ?q w"
    have upd: "packs ?w = (packs w)(f := Some ?q)" by (simp add: put_def)
    have run: "invoke S f w = (r, ?w)"
      using f vt stack fn call by (simp add: invoke_def with_pack_def)
    have "wf A S ?w \<and> abs_w ?w = (abs_w w)(f := map_option (held (heap ?w)) (Some ?q))"
    proof (rule wf_change_one [OF wf upd])
      show "pack_ok A S (heap ?w) x" if "Some ?q = Some x" for x
        using that stack fn vt same by (auto simp: pack_ok_def create_vtable_def intro!: exI [of _ fn'])
      show "a < fresh ?w \<and> (owner ?w f = Some a \<or> heap w a \<noteq> None \<and> owner w f \<noteq> Some a)"
        if "heap ?w a \<noteq> None" for a
        using that wf_block [OF wf, of a] f stack by (simp add: put_def owner_def)
    qed (use full_upd [OF upd] owner_upd [OF upd] full wf_finite [OF wf] wf_ctors [OF wf] vt stack
        in \<open>auto simp: put_def owned_def insert_absorb\<close>)
    moreover have "held (heap ?w) ?q = Some fn'" using vt stack by (simp add: held_def)
    ultimately show ?thesis using run call by auto
  next
    case (heap fn0 a)
    then have fn: "fn0 = fn" using f(2) by simp
    let ?b = "\<lparr>aligned_new = is_over_aligned A (otype S fn), content = Some fn'\<rparr>"
    let ?w = "w\<lparr>heap := (heap w)(a \<mapsto> ?b)\<rparr>"
    have upd: "packs ?w = (packs w)(f := Some p)" using f by auto
    have own: "owner w f = Some a" using f heap by (simp add: owner_def)
    have run: "invoke S f w = (r, ?w)"
      using f vt heap fn call by (simp add: invoke_def with_pack_def)
    have "wf A S ?w \<and> abs_w ?w = (abs_w w)(f := map_option (held (heap ?w)) (Some p))"
    proof (rule wf_change_one [OF wf upd])
      show "pack_ok A S (heap ?w) x" if "Some p = Some x" for x
        using that heap fn vt same by (auto simp: pack_ok_def create_vtable_def intro!: exI [of _ fn'])
      show "b < fresh ?w \<and> (owner ?w f = Some b \<or> heap w b \<noteq> None \<and> owner w f \<noteq> Some b)"
        if "heap ?w b \<noteq> None" for b
        using that wf_block [OF wf, of b] wf_block [OF wf, of a] heap(3) own
        by (auto simp: owner_def split: if_splits)
      show "heap w b = None \<or> owner w f = Some b" if "heap ?w b \<noteq> heap w b" for b
        using that own by (auto split: if_splits)
      show "heap w b = None \<or> owner w f = Some b" if "owner ?w f = Some b" for b
        using that by (simp add: owner_def)
    qed (use full_cong [of ?w w] wf_finite [OF wf] wf_ctors [OF wf] in simp_all)
    moreover have "held (heap ?w) p = Some fn'" using vt heap by (simp add: held_def)
    ultimately show ?thesis using run call by auto
  qed
qed


section \<open>The operations of a client, and what they should do\<close>

datatype 'o mf_op = New nat | New_fn nat 'o | New_move nat nat | Move_assign nat nat
  | Assign nat nat | Set_fn nat 'o | Reset nat | Call nat | Delete nat

definition no_result :: "('w, unit) op \<Rightarrow> ('w, 'r option) op" where
  "no_result m = sbind m (\<lambda>_ w. (Ret None, w))"

fun exec :: "abi \<Rightarrow> ('o, 'r) ops \<Rightarrow> 'o mf_op \<Rightarrow> ('o world, 'r option) op" where
  "exec A S (New f) = no_result (mf_default f)"
| "exec A S (New_fn f fn) = no_result (mf_construct A S fn f)"
| "exec A S (New_move f g) = no_result (mf_move_construct S f g)"
| "exec A S (Move_assign f g) = no_result (mf_move_assign A S f g)"
| "exec A S (Assign f g) = no_result (assign A S f g)"
| "exec A S (Set_fn f fn) = no_result (mf_assign_fn A S fn f)"
| "exec A S (Reset f) = no_result (mf_reset A f)"
| "exec A S (Call f) = sbind (invoke S f) (\<lambda>r w. (Ret (Some r), w))"
| "exec A S (Delete f) = no_result (mf_destruct A f)"

text \<open>The abstract operations on a map from names to callables: \<open>take\<close> moves the callable of \<open>g\<close> into
  \<open>f\<close>, which is empty or new.\<close>

definition spec_take :: "abi \<Rightarrow> ('o, 'r) ops \<Rightarrow> nat \<Rightarrow> nat \<Rightarrow> 'o wrappers \<Rightarrow> 'o wrappers \<Rightarrow>
    'r option outcome \<times> 'o wrappers" where
  "spec_take A S f g failed m = (case m g of
       Some (Some fn) \<Rightarrow> (case moving_throws A S fn of
           Some e \<Rightarrow> (Throw e, failed)
         | None \<Rightarrow> (Ret None, m(f \<mapsto> Some fn, g \<mapsto> None)))
     | _ \<Rightarrow> (Ret None, m))"

fun spec :: "abi \<Rightarrow> ('o, 'r) ops \<Rightarrow> 'o mf_op \<Rightarrow> 'o wrappers \<Rightarrow> 'r option outcome \<times> 'o wrappers" where
  "spec A S (New f) m = (Ret None, m(f \<mapsto> None))"
| "spec A S (New_fn f fn) m = (case ctor_throws S fn of
     Some e \<Rightarrow> (Throw e, m) | None \<Rightarrow> (Ret None, m(f \<mapsto> Some fn)))"
| "spec A S (New_move f g) m = spec_take A S f g m (m(f \<mapsto> None))"
| "spec A S (Move_assign f g) m = (if f = g then (Ret None, m)
     else spec_take A S f g (m(f \<mapsto> None)) (m(f \<mapsto> None)))"
| "spec A S (Assign f g) m = spec_take A S f g (m(f \<mapsto> None)) (m(f \<mapsto> None))"
| "spec A S (Set_fn f fn) m = (case ctor_throws S fn of
     Some e \<Rightarrow> (Throw e, m(f \<mapsto> None)) | None \<Rightarrow> (Ret None, m(f \<mapsto> Some fn)))"
| "spec A S (Reset f) m = (Ret None, m(f \<mapsto> None))"
| "spec A S (Call f) m = (case m f of
     Some (Some fn) \<Rightarrow> (obind (fst (call S fn)) (\<lambda>r. Ret (Some r)), m(f \<mapsto> Some (snd (call S fn))))
   | _ \<Rightarrow> (obind Invalid_Function (\<lambda>r. Ret (Some r)), m))"
| "spec A S (Delete f) m = (Ret None, m(f := None))"

text \<open>What C++ asks of the client: objects are created once and used while they exist.\<close>

fun valid :: "'o mf_op \<Rightarrow> 'o wrappers \<Rightarrow> bool" where
  "valid (New f) m \<longleftrightarrow> m f = None"
| "valid (New_fn f fn) m \<longleftrightarrow> m f = None"
| "valid (New_move f g) m \<longleftrightarrow> m f = None \<and> m g \<noteq> None"
| "valid (Move_assign f g) m \<longleftrightarrow> m f \<noteq> None \<and> m g \<noteq> None"
| "valid (Assign f g) m \<longleftrightarrow> m f \<noteq> None \<and> m g \<noteq> None"
| "valid (Set_fn f fn) m \<longleftrightarrow> m f \<noteq> None"
| "valid (Reset f) m \<longleftrightarrow> m f \<noteq> None"
| "valid (Call f) m \<longleftrightarrow> m f \<noteq> None"
| "valid (Delete f) m \<longleftrightarrow> m f \<noteq> None"


section \<open>Refinement\<close>

lemma abs_None [simp]: "abs_w w f = None \<longleftrightarrow> packs w f = None"
  by (simp add: abs_w_def)

lemma abs_Some: "packs w f = Some p \<Longrightarrow> abs_w w f = Some (held (heap w) p)"
  by (simp add: abs_w_def)

lemma set_pack_ok:
  assumes wf: "wf A S w" and old: "\<And>p. packs w f = Some p \<Longrightarrow> vtab p = None"
    and new: "\<And>p. x = Some p \<Longrightarrow> vtab p = None"
  shows "wf A S (w\<lparr>packs := (packs w)(f := x)\<rparr>) \<and>
    abs_w (w\<lparr>packs := (packs w)(f := x)\<rparr>) = (abs_w w)(f := map_option (\<lambda>_. None) x)"
proof -
  let ?w = "w\<lparr>packs := (packs w)(f := x)\<rparr>"
  have upd: "packs ?w = (packs w)(f := x)" by simp
  have own: "owner w f = None" "owner ?w f = None"
    using old new by (auto simp: owner_def split: option.splits)
  have "f \<notin> full w" using old by (auto simp: full_def)
  then have full: "full ?w = full w" using new by (auto simp: full_def)
  have "wf A S ?w \<and> abs_w ?w = (abs_w w)(f := map_option (held (heap ?w)) x)"
  proof (rule wf_change_one [OF wf upd])
    show "a < fresh ?w \<and> (owner ?w f = Some a \<or> heap w a \<noteq> None \<and> owner w f \<noteq> Some a)"
      if "heap ?w a \<noteq> None" for a using that wf_block [OF wf, of a] own by simp
  qed (use own full wf_finite [OF wf] wf_ctors [OF wf] new in simp_all)
  moreover have "map_option (held (heap ?w)) x = map_option (\<lambda>_. None) x"
    using new by (cases x) auto
  ultimately show ?thesis by simp
qed

text \<open>One operation does what it should.\<close>

definition refines :: "abi \<Rightarrow> ('o, 'r) ops \<Rightarrow> ('o world, 'r option) op \<Rightarrow> 'o world \<Rightarrow>
    'r option outcome \<times> 'o wrappers \<Rightarrow> bool" where
  "refines A S m w target \<longleftrightarrow> (\<exists>r w'. m w = (r, w') \<and> wf A S w' \<and> target = (r, abs_w w'))"

lemma refinesI: "m w = (r, w') \<Longrightarrow> wf A S w' \<Longrightarrow> target = (r, abs_w w') \<Longrightarrow> refines A S m w target"
  by (auto simp: refines_def)

lemma no_result_simps [simp]:
  "m w = (Ret u, w') \<Longrightarrow> no_result m w = (Ret None, w')"
  "m w = (Throw e, w') \<Longrightarrow> no_result m w = (Throw e, w')"
  by (simp_all add: no_result_def sbind_def)

lemma take_refines:
  assumes wf: "wf A S w" and f: "packs w f = Some p" "vtab p = None" and g: "packs w g = Some q"
  shows "refines A S (no_result (move_from S f g)) w (spec_take A S f g (abs_w w) (abs_w w))"
proof (cases "held (heap w) q")
  case None
  with move_from_empty [OF f(1) g None wf] wf g show ?thesis
    by (intro refinesI [where r = "Ret None" and w' = w]) (simp_all add: spec_take_def abs_Some)
next
  case (Some fn)
  with f g have fg: "f \<noteq> g" by auto
  obtain w' where w': "wf A S w'" "move_from S f g w = (case moving_throws A S fn of
      None \<Rightarrow> (Ret (), w') | Some e \<Rightarrow> (Throw e, w'))"
    "abs_w w' = (if moving_throws A S fn = None then (abs_w w)(f \<mapsto> Some fn, g \<mapsto> None) else abs_w w)"
    using move_from_ok [OF wf fg f g Some] by blast
  show ?thesis
  proof (cases "moving_throws A S fn")
    case None
    with w' g Some show ?thesis
      by (intro refinesI [where r = "Ret None" and w' = w']) (simp_all add: spec_take_def abs_Some)
  next
    case (Some e)
    with w' g \<open>held (heap w) q = Some fn\<close> show ?thesis
      by (intro refinesI [where r = "Throw e" and w' = w']) (simp_all add: spec_take_def abs_Some)
  qed
qed

text \<open>After a first part that returns, the rest.\<close>

lemma refines_seq:
  "m w = (Ret u, w') \<Longrightarrow> refines A S (no_result (k u)) w' target \<Longrightarrow>
     refines A S (no_result (sbind m k)) w target"
  by (simp add: refines_def no_result_def sbind_def)

lemma construct_refines:
  assumes "wf A S w" "packs w f = Some p" "vtab p = None"
  shows "refines A S (no_result (construct A S fn f)) w
    (case ctor_throws S fn of Some e \<Rightarrow> (Throw e, abs_w w) | None \<Rightarrow> (Ret None, (abs_w w)(f \<mapsto> Some fn)))"
proof -
  obtain w' where w': "wf A S w'" "construct A S fn f w = (case ctor_throws S fn of
      None \<Rightarrow> (Ret (), w') | Some e \<Rightarrow> (Throw e, w'))"
    "abs_w w' = (if ctor_throws S fn = None then (abs_w w)(f \<mapsto> Some fn) else abs_w w)"
    using construct_ok [OF assms] by blast
  show ?thesis
  proof (cases "ctor_throws S fn")
    case None
    with w' show ?thesis by (intro refinesI [where r = "Ret None" and w' = w']) simp_all
  next
    case (Some e)
    with w' show ?thesis by (intro refinesI [where r = "Throw e" and w' = w']) simp_all
  qed
qed

text \<open>A constructor: the new wrapper is empty first, and gone again if the constructor throws.\<close>

lemma unborn_refines:
  assumes wf: "wf A S w" and f: "packs w f = None"
    and k: "\<And>w1 p. wf A S w1 \<Longrightarrow> packs w1 f = Some p \<Longrightarrow> vtab p = None \<Longrightarrow>
      (\<And>g. g \<noteq> f \<Longrightarrow> packs w1 g = packs w g) \<Longrightarrow>
      abs_w w1 = (abs_w w)(f \<mapsto> None) \<Longrightarrow> refines A S (no_result k) w1 target"
    and throws: "\<And>e m. target = (Throw e, m) \<Longrightarrow> m = (abs_w w)(f \<mapsto> None)"
    and no_ub: "\<And>u m. target \<noteq> (UB u, m)"
  shows "refines A S (no_result (\<lambda>w. unborn f (sbind (mf_default f) (\<lambda>_. k) w))) w
    (case target of (Throw e, m) \<Rightarrow> (Throw e, abs_w w) | _ \<Rightarrow> target)"
proof -
  let ?w1 = "put f \<lparr>storage = Garbage, vtab = None\<rparr> w"
  have w1: "wf A S ?w1" "abs_w ?w1 = (abs_w w)(f \<mapsto> None)"
    using set_pack_ok [OF wf, of f "Some \<lparr>storage = Garbage, vtab = None\<rparr>"] f by (simp_all add: put_def)
  have "packs ?w1 f = Some \<lparr>storage = Garbage, vtab = None\<rparr>" by (simp add: put_def)
  from k [OF w1(1) this _ _ w1(2)] have "refines A S (no_result k) ?w1 target" by (simp add: put_def)
  then obtain r w2 where w2: "no_result k ?w1 = (r, w2)" "wf A S w2" "target = (r, abs_w w2)"
    by (auto simp: refines_def)
  have default: "sbind (mf_default f) (\<lambda>_. k) w = k ?w1" by (simp add: sbind_def mf_default_def)
  show ?thesis
  proof (cases "k ?w1")
    case (Pair r' w3)
    show ?thesis
    proof (cases r')
      case (Ret u)
      with Pair w2 no_result_simps(1) [of k ?w1 u w3] have t: "r = Ret None" "w3 = w2" by auto
      have "no_result (\<lambda>w. unborn f (sbind (mf_default f) (\<lambda>_. k) w)) w = (Ret None, w2)"
        using Pair Ret t by (intro no_result_simps(1)) (simp add: default unborn_def)
      then show ?thesis using w2 t by (intro refinesI) simp_all
    next
      case (Throw e)
      with Pair w2 no_result_simps(2) [of k ?w1 e w3] have t: "r = Throw e" "w3 = w2" by auto
      then have abs2: "abs_w w2 = (abs_w w)(f \<mapsto> None)" using throws w2(3) by blast
      then obtain p where p: "packs w2 f = Some p" "held (heap w2) p = None"
        by (metis abs_None abs_Some fun_upd_same not_Some_eq option.inject)
      have "vtab p = None"
      proof (rule ccontr)
        assume "vtab p \<noteq> None"
        then obtain vt where "vtab p = Some vt" by blast
        from wf_pack [OF w2(2) p(1)] this p(2) show False by (cases rule: pack_ok_cases) auto
      qed
      with set_pack_ok [OF w2(2), of f None] p(1) abs2 f
      have gone: "wf A S (w2\<lparr>packs := (packs w2)(f := None)\<rparr>)"
        "abs_w (w2\<lparr>packs := (packs w2)(f := None)\<rparr>) = abs_w w"
        using abs_None [of w f] by (auto simp: fun_eq_iff simp del: abs_None)
      have "no_result (\<lambda>w. unborn f (sbind (mf_default f) (\<lambda>_. k) w)) w =
          (Throw e, w2\<lparr>packs := (packs w2)(f := None)\<rparr>)"
        using Pair Throw t by (intro no_result_simps(2)) (simp add: default unborn_def)
      then show ?thesis using w2(3) t gone
        by (intro refinesI [where r = "Throw e" and w' = "w2\<lparr>packs := (packs w2)(f := None)\<rparr>"]) simp_all
    next
      case (UB u)
      with Pair w2 no_ub show ?thesis by (auto simp: no_result_def sbind_def)
    qed
  qed
qed

lemma assign_refines:
  assumes wf: "wf A S w" and f: "packs w f = Some p" and g: "packs w g = Some q"
  shows "refines A S (no_result (assign A S f g)) w
    (spec_take A S f g ((abs_w w)(f \<mapsto> None)) ((abs_w w)(f \<mapsto> None)))"
proof -
  obtain w1 p1 where w1: "wf A S w1" "abs_w w1 = (abs_w w)(f \<mapsto> None)"
    "packs w1 f = Some p1" "vtab p1 = None"
    and run: "with_pack f (\<lambda>p. if \<not> empty p then destory A f else (\<lambda>w. (Ret (), w))) w = (Ret (), w1)"
  proof (cases "vtab p")
    case None
    with f wf that show thesis
      by (force simp: with_pack_def empty_def abs_w_def fun_eq_iff)
  next
    case (Some vt)
    with f destory_ok [OF wf f] that show thesis by (auto simp: with_pack_def empty_def)
  qed
  have "packs w1 g \<noteq> None" using w1(2) g by (metis abs_None fun_upd_apply option.distinct(1))
  then obtain q1 where "packs w1 g = Some q1" by blast
  from take_refines [OF w1(1,3,4) this] w1(2) show ?thesis
    unfolding assign_def by (intro refines_seq [where w' = w1 and u = "()"]) (simp_all add: run)
qed

lemma exec_refines:
  assumes wf: "wf A S w" and S: "ops_ok S" and v: "valid c (abs_w w)"
  shows "refines A S (exec A S c) w (spec A S c (abs_w w))"
proof (cases c)
  case (New f)
  then have "packs w f = None" using v by simp
  with set_pack_ok [OF wf, of f "Some \<lparr>storage = Garbage, vtab = None\<rparr>"] New show ?thesis
    by (intro refinesI) (auto simp: mf_default_def put_def no_result_def sbind_def)
next
  case (New_fn f fn)
  then have f: "packs w f = None" using v by simp
  let ?t = "(case ctor_throws S fn of Some e \<Rightarrow> (Throw e, (abs_w w)(f \<mapsto> None))
    | None \<Rightarrow> (Ret None, (abs_w w)(f \<mapsto> Some fn))) :: 'b option outcome \<times> 'a wrappers"
  have "refines A S (no_result (\<lambda>w. unborn f (sbind (mf_default f) (\<lambda>_. construct A S fn f) w))) w
    (case ?t of (Throw e, m) \<Rightarrow> (Throw e, abs_w w) | _ \<Rightarrow> ?t)"
  proof (rule unborn_refines [OF wf f, where k = "construct A S fn f" and target = ?t])
    fix w1 p assume w1: "wf A S w1" "packs w1 f = Some p" "vtab p = None"
      "abs_w w1 = (abs_w w)(f \<mapsto> None)"
    from construct_refines [OF w1(1-3), of fn] w1(4)
    show "refines A S (no_result (construct A S fn f)) w1 ?t"
      by (cases "ctor_throws S fn") simp_all
  qed (auto split: option.splits)
  then show ?thesis using New_fn
    by (cases "ctor_throws S fn") (simp_all add: mf_construct_def [abs_def])
next
  case (New_move f g)
  then have f: "packs w f = None" and g: "packs w g \<noteq> None" using v by simp_all
  let ?t = "spec_take A S f g ((abs_w w)(f \<mapsto> None)) ((abs_w w)(f \<mapsto> None))"
  have "refines A S (no_result (\<lambda>w. unborn f (sbind (mf_default f) (\<lambda>_. move_from S f g) w))) w
    (case ?t of (Throw e, m) \<Rightarrow> (Throw e, abs_w w) | _ \<Rightarrow> ?t)"
  proof (rule unborn_refines [OF wf f])
    fix w1 p assume w1: "wf A S w1" "packs w1 f = Some p" "vtab p = None"
      "\<And>g. g \<noteq> f \<Longrightarrow> packs w1 g = packs w g" "abs_w w1 = (abs_w w)(f \<mapsto> None)"
    obtain q where "packs w1 g = Some q" using g w1(4) f by (cases "g = f") auto
    from take_refines [OF w1(1-3) this] w1(5)
    show "refines A S (no_result (move_from S f g)) w1 ?t" by simp
  qed (auto simp: spec_take_def split: option.splits)
  moreover have "g \<noteq> f" using f g by auto
  moreover obtain x where "abs_w w g = Some x" using g by (metis abs_None not_Some_eq)
  ultimately have "refines A S (no_result (\<lambda>w. unborn f (sbind (mf_default f) (\<lambda>_. move_from S f g) w))) w
      (spec_take A S f g (abs_w w) ((abs_w w)(f \<mapsto> None)))"
    by (auto simp: spec_take_def split: option.splits)
  then show ?thesis using New_move by (simp add: mf_move_construct_def [abs_def])
next
  case (Move_assign f g)
  then obtain p q where "packs w f = Some p" "packs w g = Some q" using v by auto
  with assign_refines [OF wf] wf Move_assign show ?thesis
    by (cases "f = g") (auto simp: mf_move_assign_def [abs_def] refines_def no_result_def sbind_def)
next
  case (Assign f g)
  then obtain p q where "packs w f = Some p" "packs w g = Some q" using v by auto
  with assign_refines [OF wf] Assign show ?thesis by simp
next
  case (Set_fn f fn)
  then obtain p where p: "packs w f = Some p" using v by auto
  obtain w1 q where w1: "destory A f w = (Ret (), w1)" "wf A S w1" "abs_w w1 = (abs_w w)(f \<mapsto> None)"
    "packs w1 f = Some q" "vtab q = None" using destory_ok [OF wf p] by blast
  have "refines A S (no_result (mf_assign_fn A S fn f)) w (case ctor_throws S fn of
      Some e \<Rightarrow> (Throw e, abs_w w1) | None \<Rightarrow> (Ret None, (abs_w w1)(f \<mapsto> Some fn)))"
    unfolding mf_assign_fn_def
    by (rule refines_seq [where w' = w1 and u = "()"]) (rule w1(1), rule construct_refines [OF w1(2,4,5)])
  with w1(3) Set_fn show ?thesis by (simp cong: option.case_cong)
next
  case (Reset f)
  then obtain p where p: "packs w f = Some p" using v by auto
  with destory_ok [OF wf p] Reset show ?thesis
    by (auto simp: mf_reset_def intro: refinesI)
next
  case (Call f)
  then obtain p where p: "packs w f = Some p" using v by auto
  show ?thesis
  proof (cases "held (heap w) p")
    case None
    have "vtab p = None"
    proof (rule ccontr)
      assume "vtab p \<noteq> None"
      then obtain vt where "vtab p = Some vt" by blast
      from wf_pack [OF wf p] this None show False by (cases rule: pack_ok_cases) auto
    qed
    with p wf Call show ?thesis
      by (intro refinesI [where w' = w])
         (simp_all add: invoke_def with_pack_def Invalid_Function_def sbind_def abs_Some)
  next
    case (Some fn)
    from invoke_ok [OF wf S p Some] obtain w' where w': "wf A S w'" "invoke S f w = (fst (call S fn), w')"
      "abs_w w' = (abs_w w)(f \<mapsto> Some (snd (call S fn)))" by blast
    with p Some Call show ?thesis
      by (intro refinesI [where w' = w'])
         (cases "fst (call S fn)", simp_all add: abs_Some sbind_def)
  qed
next
  case (Delete f)
  then obtain p where p: "packs w f = Some p" using v by auto
  obtain w1 q where w1: "destory A f w = (Ret (), w1)" "wf A S w1" "abs_w w1 = (abs_w w)(f \<mapsto> None)"
    "packs w1 f = Some q" "vtab q = None" using destory_ok [OF wf p] by blast
  then have "wf A S (w1\<lparr>packs := (packs w1)(f := None)\<rparr>)"
    "abs_w (w1\<lparr>packs := (packs w1)(f := None)\<rparr>) = (abs_w w1)(f := None)"
    using set_pack_ok [OF w1(2), of f None] by auto
  with w1 Delete show ?thesis
    by (intro refinesI [where w' = "w1\<lparr>packs := (packs w1)(f := None)\<rparr>"])
       (auto simp: mf_destruct_def sbind_def no_result_def)
qed

text \<open>A program over wrappers: its outcomes and its last state, concrete and abstract.\<close>

fun run_ops :: "abi \<Rightarrow> ('o, 'r) ops \<Rightarrow> 'o mf_op list \<Rightarrow> 'o world \<Rightarrow> 'r option outcome list \<times> 'o world" where
  "run_ops A S [] w = ([], w)"
| "run_ops A S (c # cs) w =
     (let (r, w) = exec A S c w; (rs, w) = run_ops A S cs w in (r # rs, w))"

fun spec_ops :: "abi \<Rightarrow> ('o, 'r) ops \<Rightarrow> 'o mf_op list \<Rightarrow> 'o wrappers \<Rightarrow>
    'r option outcome list \<times> 'o wrappers" where
  "spec_ops A S [] m = ([], m)"
| "spec_ops A S (c # cs) m =
     (let (r, m) = spec A S c m; (rs, m) = spec_ops A S cs m in (r # rs, m))"

fun valid_ops :: "abi \<Rightarrow> ('o, 'r) ops \<Rightarrow> 'o mf_op list \<Rightarrow> 'o wrappers \<Rightarrow> bool" where
  "valid_ops A S [] m \<longleftrightarrow> True"
| "valid_ops A S (c # cs) m \<longleftrightarrow> valid c m \<and> valid_ops A S cs (snd (spec A S c m))"

lemma run_ops_refine:
  "wf A S w \<Longrightarrow> ops_ok S \<Longrightarrow> valid_ops A S cs (abs_w w) \<Longrightarrow>
     wf A S (snd (run_ops A S cs w)) \<and>
     spec_ops A S cs (abs_w w) = (fst (run_ops A S cs w), abs_w (snd (run_ops A S cs w)))"
proof (induction cs arbitrary: w)
  case (Cons c cs)
  then obtain r w' where w': "exec A S c w = (r, w')" "wf A S w'" "spec A S c (abs_w w) = (r, abs_w w')"
    using exec_refines [of A S w c] by (auto simp: refines_def)
  with Cons.IH [of w'] Cons.prems show ?case by (simp add: case_prod_beta Let_def)
qed simp

lemma wf_no_packs:
  assumes "wf A S w" "packs w = (\<lambda>f. None)"
  shows "heap w = (\<lambda>a. None) \<and> ctors w = dtors w"
proof -
  have "full w = {}" "\<And>f. owner w f = None" using assms(2) by (simp_all add: full_def owner_def)
  with assms(1) show ?thesis by (auto simp: wf_def fun_eq_iff)
qed


section \<open>Properties\<close>

text \<open>A sample of the parameters: callables of type \<open>big\<close> go to the heap, others stay inside; calling one
  counts it up.\<close>

definition lp64 :: abi where
  "lp64 = \<lparr>ptr_size = 8, max_align = 16\<rparr>"

definition sample_ops :: "(bool \<times> nat, nat) ops" where
  "sample_ops = \<lparr>otype = (\<lambda>(big, n). \<lparr>csize = (if big then 64 else 16), calign = 8\<rparr>),
     ctor_throws = (\<lambda>(big, n). if n = 99 then Some Other_exception else None),
     move_throws = (\<lambda>fn. None), call = (\<lambda>(big, n). (Ret n, (big, Suc n)))\<rparr>"

lemma sample_ops_ok: "ops_ok sample_ops"
  by (auto simp: ops_ok_def sample_ops_def)

lemma abs_empty: "abs_w empty_world = (\<lambda>f. None)"
  by (simp add: abs_w_def empty_world_def fun_eq_iff)

text \<open>C11. The wrapper implements a map from names to callables: any program that creates wrappers, moves
  callables between them by construction and assignment, resets, calls and destroys them sees the
  outcomes and leaves the contents of that abstract map, whatever the size and alignment of each
  callable and whichever of their constructors throw.\<close>

theorem mfunction_refines_map:
  assumes "ops_ok S" and "valid_ops A S cs (\<lambda>f. None)"
  shows "spec_ops A S cs (\<lambda>f. None) =
    (fst (run_ops A S cs empty_world), abs_w (snd (run_ops A S cs empty_world)))"
  using run_ops_refine [OF wf_empty assms(1), of A cs] assms(2) by (simp add: abs_empty)

theorem mfunction_refines_map_witness:
  "fst (run_ops lp64 sample_ops [New_fn 0 (True, 5), New 1, Move_assign 1 0, Call 1, Call 1, Call 0] empty_world) =
     [Ret None, Ret None, Ret None, Ret (Some 5), Ret (Some 6), Throw (Std_exception ''Invaild function.'')]"
proof -
  let ?cs = "[New_fn 0 (True, 5), New 1, Move_assign 1 0, Call 1, Call 1, Call 0] :: (bool \<times> nat) mf_op list"
  have valid: "valid_ops lp64 sample_ops ?cs (\<lambda>f. None)"
    by (simp add: sample_ops_def spec_take_def moving_throws_def require_on_heap_def is_over_aligned_def
        lp64_def Storage_Size_def)
  have "fst (spec_ops lp64 sample_ops ?cs (\<lambda>f. None)) =
     [Ret None, Ret None, Ret None, Ret (Some 5), Ret (Some 6), Throw (Std_exception ''Invaild function.'')]"
    by (simp add: sample_ops_def spec_take_def moving_throws_def require_on_heap_def is_over_aligned_def
        lp64_def Storage_Size_def Invalid_Function_def)
  with mfunction_refines_map [OF sample_ops_ok valid] show ?thesis by simp
qed

text \<open>No operation on wrappers has undefined behaviour of its own: the only undefined behaviour of a
  program is that of the callables it calls.\<close>

lemma mfunction_no_undefined_behaviour:
  assumes "ops_ok S" and "valid_ops A S cs (\<lambda>f. None)" and "\<And>fn u. fst (call S fn) \<noteq> UB u"
  shows "UB u \<notin> set (fst (run_ops A S cs empty_world))"
proof -
  have step: "fst (spec A S c m) \<noteq> UB u" for c m
  proof (cases c)
    case (Call f)
    with assms(3) show ?thesis
      by (auto simp: Invalid_Function_def split: option.splits) (metis assms(3) obind.elims outcome.distinct)
  qed (auto simp: spec_take_def split: option.splits)
  then have "UB u \<noteq> fst (spec A S c m)" for c m by metis
  then have "UB u \<notin> set (fst (spec_ops A S cs m))" for m
    by (induction cs arbitrary: m) (simp_all add: case_prod_beta Let_def)
  moreover have "spec_ops A S cs (\<lambda>f. None) =
      (fst (run_ops A S cs empty_world), abs_w (snd (run_ops A S cs empty_world)))"
    using run_ops_refine [OF wf_empty assms(1), of A cs] assms(2) by (simp add: abs_empty)
  ultimately show ?thesis by (metis fst_conv)
qed

text \<open>The wrappers that hold a callable, and those whose callable does not fit inside.\<close>

lemma holder_cases:
  assumes wf: "wf A S w" and f: "abs_w w f = Some (Some fn)"
  shows "f \<in> full w \<and> (if require_on_heap A (otype S fn)
    then \<exists>a. owner w f = Some a \<and> heap w a = Some \<lparr>aligned_new = is_over_aligned A (otype S fn), content = Some fn\<rparr>
    else owner w f = None)"
proof -
  from f obtain p where p: "packs w f = Some p" "held (heap w) p = Some fn" by (auto simp: abs_w_def)
  then obtain vt where vt: "vtab p = Some vt" by (cases "vtab p") auto
  from wf_pack [OF wf p(1)] vt show ?thesis
    by (cases rule: pack_ok_cases) (use p vt in \<open>simp_all add: owner_def in_full\<close>)
qed

lemma full_holds:
  assumes wf: "wf A S w" and f: "f \<in> full w"
  shows "\<exists>fn. abs_w w f = Some (Some fn)"
proof -
  from f obtain p vt where p: "packs w f = Some p" "vtab p = Some vt" by (auto simp: full_def)
  from wf_pack [OF wf p(1)] p(2) show ?thesis
    by (cases rule: pack_ok_cases) (use p in \<open>simp_all add: abs_Some\<close>)
qed

lemma owner_full: "owner w f = Some a \<Longrightarrow> f \<in> full w"
  by (auto simp: owner_def owned_def full_def split: option.splits)

definition on_heap :: "abi \<Rightarrow> ('o, 'r) ops \<Rightarrow> 'o world \<Rightarrow> nat set" where
  "on_heap A S w = {f. \<exists>fn. abs_w w f = Some (Some fn) \<and> require_on_heap A (otype S fn)}"

lemma blocks_held:
  assumes wf: "wf A S w"
  shows "bij_betw (\<lambda>f. the (owner w f)) (on_heap A S w) (dom (heap w))"
proof (rule bij_betwI')
  fix f g assume "f \<in> on_heap A S w" "g \<in> on_heap A S w"
  then obtain a b where "owner w f = Some a" "owner w g = Some b"
    using holder_cases [OF wf] by (fastforce simp: on_heap_def)
  then show "(the (owner w f) = the (owner w g)) = (f = g)" using owner_unique [OF wf] by auto
next
  fix f assume "f \<in> on_heap A S w"
  then show "the (owner w f) \<in> dom (heap w)" using holder_cases [OF wf] by (fastforce simp: on_heap_def)
next
  fix a assume "a \<in> dom (heap w)"
  then obtain f where f: "owner w f = Some a" using wf by (auto simp: wf_def)
  with full_holds [OF wf owner_full] obtain fn where fn: "abs_w w f = Some (Some fn)" by blast
  with holder_cases [OF wf] f have "f \<in> on_heap A S w" by (fastforce simp: on_heap_def split: if_splits)
  with f show "\<exists>f\<in>on_heap A S w. a = the (owner w f)" by force
qed

text \<open>C29. Nothing is leaked or destroyed twice. At the end of any program the number of live callables is
  the number of wrappers that hold one; each wrapper whose callable does not fit inside owns a block,
  which holds that callable and came from the \<open>operator new\<close> its alignment asks for; those blocks are
  the whole heap, one for each of these wrappers; so when all wrappers are gone the heap is empty and
  every callable that was constructed has been destroyed.\<close>

theorem mfunction_no_leak:
  assumes "ops_ok S" and "valid_ops A S cs (\<lambda>f. None)" and "w = snd (run_ops A S cs empty_world)"
  shows "ctors w = dtors w + card {f. \<exists>fn. abs_w w f = Some (Some fn)} \<and>
    bij_betw (\<lambda>f. the (owner w f))
      {f. \<exists>fn. abs_w w f = Some (Some fn) \<and> require_on_heap A (otype S fn)} (dom (heap w)) \<and>
    (\<forall>f fn. abs_w w f = Some (Some fn) \<and> require_on_heap A (otype S fn) \<longrightarrow>
      (\<exists>a. owner w f = Some a \<and>
        heap w a = Some \<lparr>aligned_new = is_over_aligned A (otype S fn), content = Some fn\<rparr>)) \<and>
    (packs w = (\<lambda>f. None) \<longrightarrow> heap w = (\<lambda>a. None) \<and> ctors w = dtors w)"
proof -
  have wf: "wf A S w"
    using run_ops_refine [OF wf_empty assms(1), of A cs] assms(2,3) by (simp add: abs_empty)
  have "full w = {f. \<exists>fn. abs_w w f = Some (Some fn)}"
    using full_holds [OF wf] holder_cases [OF wf] by blast
  moreover have "\<forall>f fn. abs_w w f = Some (Some fn) \<and> require_on_heap A (otype S fn) \<longrightarrow>
      (\<exists>a. owner w f = Some a \<and>
        heap w a = Some \<lparr>aligned_new = is_over_aligned A (otype S fn), content = Some fn\<rparr>)"
    using holder_cases [OF wf] by presburger
  ultimately show ?thesis
    using wf_ctors [OF wf] wf_no_packs [OF wf] blocks_held [OF wf] by (simp add: on_heap_def)
qed

theorem mfunction_no_leak_witness:
  "let w = snd (run_ops lp64 sample_ops [New_fn 0 (True, 5), New_fn 1 (True, 99), New_move 2 0] empty_world)
   in (\<exists>a. owner w 2 = Some a \<and> heap w a = Some \<lparr>aligned_new = False, content = Some (True, 5)\<rparr>) \<and>
     ctors w = Suc (dtors w) \<and> card (dom (heap w)) = 1"
proof -
  let ?cs = "[New_fn 0 (True, 5), New_fn 1 (True, 99), New_move 2 0] :: (bool \<times> nat) mf_op list"
  let ?w = "snd (run_ops lp64 sample_ops ?cs empty_world)"
  let ?m = "\<lambda>f :: nat. if f = 2 then Some (Some (True, 5)) else if f = 0 then Some None else None"
  have big: "require_on_heap lp64 (otype sample_ops (True, 5))" "\<not> is_over_aligned lp64 (otype sample_ops (True, 5))"
    by (simp_all add: require_on_heap_def is_over_aligned_def lp64_def Storage_Size_def sample_ops_def)
  have valid: "valid_ops lp64 sample_ops ?cs (\<lambda>f. None)"
    and last: "snd (spec_ops lp64 sample_ops ?cs (\<lambda>f. None)) = ?m"
    by (simp_all add: sample_ops_def spec_take_def moving_throws_def require_on_heap_def
        is_over_aligned_def lp64_def Storage_Size_def fun_eq_iff)
  obtain w where w: "w = ?w" by blast
  have abs: "abs_w w = ?m"
    using run_ops_refine [OF wf_empty sample_ops_ok, of lp64 ?cs] valid last w by (simp add: abs_empty)
  note leak = mfunction_no_leak [OF sample_ops_ok valid w, unfolded abs]
  have sets: "{f. \<exists>fn. ?m f = Some (Some fn)} = {2}"
    "{f. \<exists>fn. ?m f = Some (Some fn) \<and> require_on_heap lp64 (otype sample_ops fn)} = {2}"
    using big(1) by (auto split: if_splits)
  have "card (dom (heap w)) = 1" "ctors w = Suc (dtors w)"
    using leak bij_betw_same_card [of "\<lambda>f. the (owner w f)" "{2}" "dom (heap w)"] unfolding sets by auto
  moreover have "\<exists>a. owner w 2 = Some a \<and> heap w a = Some \<lparr>aligned_new = False, content = Some (True, 5)\<rparr>"
    using leak [THEN conjunct2, THEN conjunct2, THEN conjunct1, rule_format, of 2 "(True, 5)"] big
    by simp
  ultimately show ?thesis unfolding w [symmetric] Let_def by blast
qed

end
