(* ===== verification/Package.thy ===== *)
theory Package
  imports MFunction
begin

text \<open>
  The class \<open>package\<close> of \<open>rpc/threadpool/packagev3.hpp\<close>: a task made from a callable and its arguments,
  detached or with a promise. What it shows: what \<open>make_detach\<close> leaves behind on every path, and that
  a task made by \<open>make\<close> fulfils its promise with the value or the exception of its callable, once.
\<close>

section \<open>make_detach\<close>

text \<open>The temporary wrapper is destroyed at the end of the statement, also when it throws.\<close>

definition with_temporary :: "abi \<Rightarrow> nat \<Rightarrow> ('o world, 'a) op \<Rightarrow> ('o world, 'a) op" where
  "with_temporary A tmp m w = (case m w of
       (Ret x, w') \<Rightarrow> sbind (mf_destruct A tmp) (\<lambda>_ w. (Ret x, w)) w'
     | (Throw e, w') \<Rightarrow> sbind (mf_destruct A tmp) (\<lambda>_ w. (Throw e, w)) w'
     | (UB u, w') \<Rightarrow> (UB u, w'))"

definition make_detach :: "abi \<Rightarrow> ('o, 'r) ops \<Rightarrow> 'o \<Rightarrow> nat \<Rightarrow> nat \<Rightarrow> ('o world, unit) op" where
  "make_detach A S fn tmp callable =
     sbind (mf_construct A S fn tmp) (\<lambda>_. with_temporary A tmp (mf_move_assign A S callable tmp))"

definition package_call :: "('o, 'r) ops \<Rightarrow> nat \<Rightarrow> ('o world, 'r) op" where
  "package_call S callable = invoke S callable"

definition package_empty :: "nat \<Rightarrow> ('o world, bool) op" where
  "package_empty callable = with_pack callable (\<lambda>p w. (Ret (empty p), w))"


section \<open>make\<close>

text \<open>The shared state of a \<open>std::promise\<close>, and the exception its setters throw the second time.\<close>

datatype 'v promise = Unset | Value 'v | Exception exn

definition promise_already_satisfied :: exn where
  "promise_already_satisfied = Std_exception ''promise_already_satisfied''"

fun set_promise :: "'v promise \<Rightarrow> 'v promise \<Rightarrow> 'v promise outcome" where
  "set_promise new Unset = Ret new"
| "set_promise new _ = Throw promise_already_satisfied"

text \<open>The body of the lambda \<open>make\<close> packs: \<open>inv(pack...)\<close> (\<open>callee\<close> here) is the callable applied to its packed arguments.\<close>

definition fulfil :: "'v promise \<Rightarrow> 'o \<Rightarrow> 'v promise \<Rightarrow> unit outcome \<times> 'o \<times> 'v promise" where
  "fulfil new fn mypro = (case set_promise new mypro of
       Ret p \<Rightarrow> (Ret (), fn, p) | Throw e \<Rightarrow> (Throw e, fn, mypro) | UB u \<Rightarrow> (UB u, fn, mypro))"

definition make_call :: "('o \<Rightarrow> 'v outcome \<times> 'o) \<Rightarrow> 'o \<times> 'v promise \<Rightarrow> unit outcome \<times> 'o \<times> 'v promise" where
  "make_call callee = (\<lambda>(fn, mypro). case callee fn of
       (Ret v, fn') \<Rightarrow> (case fulfil (Value v) fn' mypro of
           (Throw e, fn', mypro) \<Rightarrow> fulfil (Exception e) fn' mypro
         | done \<Rightarrow> done)
     | (Throw e, fn') \<Rightarrow> fulfil (Exception e) fn' mypro
     | (UB u, fn') \<Rightarrow> (UB u, fn', mypro))"

text \<open>\<open>make\<close> packs that lambda, with the promise whose future it returns.\<close>

definition make :: "abi \<Rightarrow> ('o \<times> 'v promise, 'r) ops \<Rightarrow> 'o \<Rightarrow> nat \<Rightarrow> nat \<Rightarrow>
    (('o \<times> 'v promise) world, unit) op" where
  "make A S fn tmp callable =
     (let pro = Unset
      in sbind (mf_construct A S (fn, pro) tmp) (\<lambda>_. with_temporary A tmp (mf_move_assign A S callable tmp)))"

lemma make_is_make_detach: "make A S fn tmp callable = make_detach A S (fn, Unset) tmp callable"
  by (simp add: make_def make_detach_def)


section \<open>Properties\<close>

text \<open>\<open>make_detach\<close> stores its callable and leaves nothing else behind: the temporary is gone on every
  path. If the callable's constructor throws the package is as before; if moving it out of the
  temporary throws the package is empty, its old task lost.\<close>

lemma make_detach_effect:
  assumes "wf A S w" and "ops_ok S" and "packs w tmp = None" and "packs w callable \<noteq> None"
  shows "\<exists>w'. wf A S w' \<and> (case ctor_throws S fn of
      Some e \<Rightarrow> make_detach A S fn tmp callable w = (Throw e, w') \<and> abs_w w' = abs_w w
    | None \<Rightarrow> (case moving_throws A S fn of
        Some e \<Rightarrow> make_detach A S fn tmp callable w = (Throw e, w') \<and>
          abs_w w' = (abs_w w)(callable \<mapsto> None)
      | None \<Rightarrow> make_detach A S fn tmp callable w = (Ret (), w') \<and>
          abs_w w' = (abs_w w)(callable \<mapsto> Some fn)))"
proof -
  have ne: "callable \<noteq> tmp" using assms(3,4) by auto
  have refs: "refines A S (exec A S c) v (spec A S c (abs_w v))"
    if "wf A S v" "valid c (abs_w v)" for c :: "'a mf_op" and v
    using exec_refines [OF that(1) assms(2) that(2)] .
  have absn: "abs_w w tmp = None" using assms(3) by simp
  obtain r1 w1 where w1: "no_result (mf_construct A S fn tmp) w = (r1, w1)" "wf A S w1"
    "spec A S (New_fn tmp fn) (abs_w w) = (r1, abs_w w1)"
    using refs [OF assms(1), of "New_fn tmp fn"] assms(3) unfolding refines_def by auto
  show ?thesis
  proof (cases "ctor_throws S fn")
    case (Some e)
    with w1(3) have t: "r1 = Throw e" "abs_w w1 = abs_w w" by auto
    with w1(1) have "mf_construct A S fn tmp w = (Throw e, w1)"
      by (auto simp: no_result_def sbind_def split: prod.splits outcome.splits)
    then have "make_detach A S fn tmp callable w = (Throw e, w1)" by (simp add: make_detach_def)
    with w1(2) t(2) Some show ?thesis by (intro exI [of _ w1]) simp
  next
    case None
    with w1(3) have t: "r1 = Ret None" "abs_w w1 = (abs_w w)(tmp \<mapsto> Some fn)" by auto
    with w1(1) have run1: "mf_construct A S fn tmp w = (Ret (), w1)"
      by (auto simp: no_result_def sbind_def split: prod.splits outcome.splits)
    have v2: "valid (Move_assign callable tmp) (abs_w w1)"
      using assms(4) ne abs_Some [of w callable] by (auto simp: t(2) simp del: abs_None)
    from refs [OF w1(2) v2] obtain r2 w2 where
      w2: "no_result (mf_move_assign A S callable tmp) w1 = (r2, w2)" "wf A S w2"
        "spec_take A S callable tmp ((abs_w w1)(callable \<mapsto> None)) ((abs_w w1)(callable \<mapsto> None)) = (r2, abs_w w2)"
      using ne by (auto simp: refines_def)
    have tmp2: "packs w2 tmp \<noteq> None"
    proof -
      have "abs_w w2 = snd (spec_take A S callable tmp ((abs_w w1)(callable \<mapsto> None))
          ((abs_w w1)(callable \<mapsto> None)))"
        using w2(3) by simp
      then have "abs_w w2 tmp \<noteq> None"
        using ne by (auto simp: spec_take_def t(2) simp del: abs_None split: option.splits)
      then show ?thesis by simp
    qed
    then have v3: "valid (Delete tmp) (abs_w w2)" by simp
    obtain r3 w3 where d3: "exec A S (Delete tmp) w2 = (r3, w3)" "wf A S w3"
      "spec A S (Delete tmp) (abs_w w2) = (r3, abs_w w3)"
      using refs [OF w2(2) v3] unfolding refines_def by blast
    then have w3: "r3 = Ret None" "abs_w w3 = (abs_w w2)(tmp := None)" by simp_all
    with d3 have run3: "mf_destruct A tmp w2 = (Ret (), w3)"
      by (auto simp: no_result_def sbind_def split: prod.splits outcome.splits)
    show ?thesis
    proof (cases "moving_throws A S fn")
      case mv: None
      with w2 ne have r2: "r2 = Ret None" "abs_w w2 = (abs_w w)(callable \<mapsto> Some fn, tmp \<mapsto> None)"
        by (auto simp: spec_take_def t(2) fun_upd_twist)
      with w2(1) have "mf_move_assign A S callable tmp w1 = (Ret (), w2)"
        by (auto simp: no_result_def sbind_def split: prod.splits outcome.splits)
      with run1 run3 have "make_detach A S fn tmp callable w = (Ret (), w3)"
        by (simp add: make_detach_def with_temporary_def)
      moreover have "abs_w w3 = (abs_w w)(callable \<mapsto> Some fn)"
        using r2 w3(2) ne absn by (auto simp: fun_eq_iff simp del: abs_None)
      ultimately show ?thesis using d3(2) None mv by auto
    next
      case (Some e)
      with w2 ne have r2: "r2 = Throw e" "abs_w w2 = (abs_w w)(tmp \<mapsto> Some fn, callable \<mapsto> None)"
        by (auto simp: spec_take_def t(2))
      with w2(1) have "mf_move_assign A S callable tmp w1 = (Throw e, w2)"
        by (auto simp: no_result_def sbind_def split: prod.splits outcome.splits)
      with run1 run3 have "make_detach A S fn tmp callable w = (Throw e, w3)"
        by (simp add: make_detach_def with_temporary_def)
      moreover have "abs_w w3 = (abs_w w)(callable \<mapsto> None)"
        using r2 w3(2) ne absn by (auto simp: fun_eq_iff simp del: abs_None)
      ultimately show ?thesis using d3(2) None Some by auto
    qed
  qed
qed

text \<open>A task made by \<open>make\<close> fulfils its promise with what its callable does: run for the first time it
  lets no exception out and leaves the value, or the exception, of the callable in the promise; run
  again it cannot change the promise any more and throws.\<close>

fun promised :: "'v outcome \<Rightarrow> 'v promise" where
  "promised (Ret v) = Value v"
| "promised (Throw e) = Exception e"
| "promised (UB u) = Unset"

lemma make_call_fulfils:
  assumes "callee fn = (r, fn')" and "\<And>u. r \<noteq> UB u"
  shows "make_call callee (fn, Unset) =
      (Ret (), fn', promised r) \<and>
    (p \<noteq> Unset \<longrightarrow> make_call callee (fn, p) = (Throw promise_already_satisfied, fn', p))"
  using assms by (cases r; cases p) (auto simp: make_call_def fulfil_def)

lemma call_refines:
  assumes "wf A S w" "ops_ok S" "abs_w w f = Some (Some fn)"
  shows "\<exists>w'. package_call S f w = (fst (call S fn), w') \<and> wf A S w' \<and>
    abs_w w' = (abs_w w)(f \<mapsto> Some (snd (call S fn)))"
proof -
  from assms(3) obtain p where "packs w f = Some p" "held (heap w) p = Some fn"
    by (auto simp: abs_w_def split: option.splits)
  from invoke_ok [OF assms(1,2) this] show ?thesis by (auto simp: package_call_def)
qed

text \<open>C30. A task made by \<open>make\<close> fulfils its promise, once. After \<open>make\<close> the package holds the task and
  its promise, with nothing else left behind; the first call lets no exception out and leaves the
  value, or the exception, of the callable in the promise; a second call runs the callable again but
  cannot change the promise any more, and throws. (For a callable that neither its construction nor
  its move makes throw, and that has no undefined behaviour.)\<close>

theorem make_fulfils_once:
  assumes "wf A S w" and "ops_ok S" and "packs w tmp = None" and "packs w callable \<noteq> None"
    and "call S = make_call callee"
    and "ctor_throws S (fn, Unset) = None" and "moving_throws A S (fn, Unset) = None"
    and "callee fn = (r, fn')" and "callee fn' = (r', fn'')"
    and "r \<notin> range UB" and "r' \<notin> range UB"
  shows "\<exists>w1 w2 w3. make A S fn tmp callable w = (Ret (), w1) \<and>
    abs_w w1 = (abs_w w)(callable \<mapsto> Some (fn, Unset)) \<and>
    package_call S callable w1 = (Ret (), w2) \<and>
    abs_w w2 = (abs_w w)(callable \<mapsto> Some (fn', promised r)) \<and>
    package_call S callable w2 = (Throw promise_already_satisfied, w3) \<and>
    abs_w w3 = (abs_w w)(callable \<mapsto> Some (fn'', promised r))"
proof -
  have noub: "r \<noteq> UB u" "r' \<noteq> UB u" for u using assms(10,11) by auto
  have "promised r \<noteq> Unset" using assms(10) by (cases r) auto
  then have c1: "make_call callee (fn, Unset) = (Ret (), fn', promised r)"
    and c2: "make_call callee (fn', promised r) = (Throw promise_already_satisfied, fn'', promised r)"
    using make_call_fulfils [of callee fn r fn'] make_call_fulfils [of callee fn' r' fn'' "promised r"]
      noub assms(8,9) by simp_all
  from make_detach_effect [OF assms(1-4), of "(fn, Unset)"] assms(6,7) obtain w1 where
    w1: "wf A S w1" "make A S fn tmp callable w = (Ret (), w1)"
    "abs_w w1 = (abs_w w)(callable \<mapsto> Some (fn, Unset))" by (auto simp: make_is_make_detach)
  from call_refines [OF w1(1) assms(2), of callable] w1(3) c1 assms(5)
  obtain w2 where w2: "package_call S callable w1 = (Ret (), w2)" "wf A S w2"
    "abs_w w2 = (abs_w w)(callable \<mapsto> Some (fn', promised r))" by auto
  from call_refines [OF w2(2) assms(2), of callable] w2(3) c2 assms(5)
  obtain w3 where "package_call S callable w2 = (Throw promise_already_satisfied, w3)"
    "abs_w w3 = (abs_w w)(callable \<mapsto> Some (fn'', promised r))" by auto
  with w1 w2 show ?thesis by blast
qed

text \<open>A callable that counts its calls, packed on the heap.\<close>

definition counter_ops :: "(nat \<times> nat promise, unit) ops" where
  "counter_ops = \<lparr>otype = (\<lambda>fn. \<lparr>csize = 64, calign = 8\<rparr>), ctor_throws = (\<lambda>fn. None),
     move_throws = (\<lambda>fn. None), call = make_call (\<lambda>n. (Ret n, Suc n))\<rparr>"

theorem make_fulfils_once_witness:
  "\<exists>w w1 w2. make lp64 counter_ops 5 1 0 w = (Ret (), w1) \<and> package_call counter_ops 0 w1 = (Ret (), w2) \<and>
     abs_w w2 0 = Some (Some (6, Value 5))"
proof -
  have ok: "ops_ok counter_ops" by (simp add: ops_ok_def counter_ops_def)
  obtain w where w: "wf lp64 counter_ops w" "abs_w w = (\<lambda>f. None)(0 \<mapsto> None)"
    using run_ops_refine [OF wf_empty ok, of lp64 "[New 0]"] by (fastforce simp: abs_empty)
  then have "packs w 1 = None" "packs w 0 \<noteq> None" by (metis abs_None fun_upd_apply zero_neq_one,
    metis abs_None fun_upd_same option.distinct(1))
  note once = make_fulfils_once [OF w(1) ok this, of "\<lambda>n. (Ret n, Suc n)" 5 "Ret 5" 6 "Ret 6" 7]
  have "call counter_ops = make_call (\<lambda>n. (Ret n, Suc n))" "ctor_throws counter_ops (5, Unset) = None"
    "moving_throws lp64 counter_ops (5, Unset) = None"
    "Ret 5 \<notin> (range UB :: nat outcome set)" "Ret 6 \<notin> (range UB :: nat outcome set)"
    by (auto simp: counter_ops_def moving_throws_def)
  with once obtain w1 w2 where "make lp64 counter_ops 5 1 0 w = (Ret (), w1)"
    "package_call counter_ops 0 w1 = (Ret (), w2)" "abs_w w2 = (abs_w w)(0 \<mapsto> Some (6, Value 5))" by auto
  then show ?thesis by (metis fun_upd_same)
qed

end
