(* ===== verification/SharedState.thy ===== *)
theory SharedState
  imports Package
begin

text \<open>
  \<open>rpc/threadpool/shared_state.hpp\<close>: the state a \<open>Future\<close> shares with the task that will complete it.
  Every member locks the mutex, so each is one function on the state; \<open>set_value\<close>, \<open>set_exception\<close>
  and \<open>set_continuation\<close> execute a continuation after unlocking, so their result here is the
  continuation the caller goes on to execute, if any. The interface \<open>one_shot\<close> states what the thread
  pool relies on; its lemma says which of the attached continuations are executed.
\<close>

section \<open>Promises\<close>

text \<open>The results of a promise in the order of time: it is completed once and then stays.\<close>

instantiation promise :: (type) order_bot
begin

definition less_eq_promise :: "'a promise \<Rightarrow> 'a promise \<Rightarrow> bool" where
  "p \<le> q \<longleftrightarrow> p = Unset \<or> q = p"

definition less_promise :: "'a promise \<Rightarrow> 'a promise \<Rightarrow> bool" where
  "less_promise p q \<longleftrightarrow> p \<le> q \<and> p \<noteq> q"

definition bot_promise :: "'a promise" where
  "bot_promise = Unset"

instance
  by standard (auto simp: less_eq_promise_def less_promise_def bot_promise_def)

end

lemma promise_le_completed [simp]: "p \<noteq> Unset \<Longrightarrow> p \<le> q \<longleftrightarrow> q = p"
  by (simp add: less_eq_promise_def)

lemma promise_le_Unset [simp]: "Unset \<le> q"
  by (simp add: less_eq_promise_def)

lemma promise_le_D: "p \<le> q \<Longrightarrow> p \<noteq> Unset \<Longrightarrow> q = p"
  by simp

section \<open>The state\<close>

text \<open>\<open>promise_\<close> is a \<open>std::promise\<close>: its result, and whether its future was taken (which works once).
  \<open>shared_future_\<close> is valid once \<open>future_retrieved\<close> is set and then refers to that promise. An empty
  \<open>mfunction\<close> is \<^const>\<open>None\<close>; \<open>'c\<close> are the continuations.\<close>

record ('v, 'c) SharedState =
  promise :: "'v promise"
  promise_taken :: bool
  continuation :: "'c option"
  pool_ptr :: "nat option"
  future_retrieved :: bool
  completed :: bool
  continuation_set :: bool

definition new_state :: "('v, 'c) SharedState" where
  "new_state = \<lparr>promise = Unset, promise_taken = False, continuation = None, pool_ptr = None,
     future_retrieved = False, completed = False, continuation_set = False\<rparr>"

definition set_pool :: "nat option \<Rightarrow> ('v, 'c) SharedState \<Rightarrow> ('v, 'c) SharedState" where
  "set_pool p s = s\<lparr>pool_ptr := p\<rparr>"

definition get_pool :: "('v, 'c) SharedState \<Rightarrow> nat option" where
  "get_pool s = pool_ptr s"

definition future_already_retrieved :: exn where
  "future_already_retrieved = Std_exception ''future_already_retrieved''"

definition get_future :: "('v, 'c) SharedState \<Rightarrow> unit outcome \<times> ('v, 'c) SharedState" where
  "get_future s = (if \<not> future_retrieved s then
       if promise_taken s then (Throw future_already_retrieved, s)
       else (Ret (), s\<lparr>promise_taken := True, future_retrieved := True\<rparr>)
     else (Ret (), s))"

definition complete :: "'v promise \<Rightarrow> ('v, 'c) SharedState \<Rightarrow>
    'c option outcome \<times> ('v, 'c) SharedState" where
  "complete r s = (case set_promise r (promise s) of
       Ret p \<Rightarrow> (Ret (continuation s), s\<lparr>promise := p, completed := True, continuation := None\<rparr>)
     | Throw e \<Rightarrow> (Throw e, s)
     | UB u \<Rightarrow> (UB u, s))"

definition set_value :: "'v \<Rightarrow> ('v, 'c) SharedState \<Rightarrow> 'c option outcome \<times> ('v, 'c) SharedState" where
  "set_value v s = complete (Value v) s"

definition set_exception :: "exn \<Rightarrow> ('v, 'c) SharedState \<Rightarrow>
    'c option outcome \<times> ('v, 'c) SharedState" where
  "set_exception e s = complete (Exception e) s"

definition set_continuation :: "'c \<Rightarrow> ('v, 'c) SharedState \<Rightarrow> 'c option \<times> ('v, 'c) SharedState" where
  "set_continuation cont s =
     (if continuation_set s then (None, s)
      else if completed s then (Some cont, s)
      else (None, s\<lparr>continuation := Some cont, continuation_set := True\<rparr>))"


section \<open>The void specialisation\<close>

text \<open>\<open>SharedState<void>\<close> is a class of its own in the source, with the same members.\<close>

definition void_set_pool :: "nat option \<Rightarrow> (unit, 'c) SharedState \<Rightarrow> (unit, 'c) SharedState" where
  "void_set_pool p s = s\<lparr>pool_ptr := p\<rparr>"

definition void_get_pool :: "(unit, 'c) SharedState \<Rightarrow> nat option" where
  "void_get_pool s = pool_ptr s"

definition void_get_future :: "(unit, 'c) SharedState \<Rightarrow> unit outcome \<times> (unit, 'c) SharedState" where
  "void_get_future s = (if \<not> future_retrieved s then
       if promise_taken s then (Throw future_already_retrieved, s)
       else (Ret (), s\<lparr>promise_taken := True, future_retrieved := True\<rparr>)
     else (Ret (), s))"

definition void_set_value :: "(unit, 'c) SharedState \<Rightarrow>
    'c option outcome \<times> (unit, 'c) SharedState" where
  "void_set_value s = (case set_promise (Value ()) (promise s) of
       Ret p \<Rightarrow> (Ret (continuation s), s\<lparr>promise := p, completed := True, continuation := None\<rparr>)
     | Throw e \<Rightarrow> (Throw e, s)
     | UB u \<Rightarrow> (UB u, s))"

definition void_set_exception :: "exn \<Rightarrow> (unit, 'c) SharedState \<Rightarrow>
    'c option outcome \<times> (unit, 'c) SharedState" where
  "void_set_exception e s = (case set_promise (Exception e) (promise s) of
       Ret p \<Rightarrow> (Ret (continuation s), s\<lparr>promise := p, completed := True, continuation := None\<rparr>)
     | Throw e' \<Rightarrow> (Throw e', s)
     | UB u \<Rightarrow> (UB u, s))"

definition void_set_continuation :: "'c \<Rightarrow> (unit, 'c) SharedState \<Rightarrow>
    'c option \<times> (unit, 'c) SharedState" where
  "void_set_continuation cont s =
     (if continuation_set s then (None, s)
      else if completed s then (Some cont, s)
      else (None, s\<lparr>continuation := Some cont, continuation_set := True\<rparr>))"

text \<open>The two classes agree, so everything below holds of both.\<close>

lemma void_specialisation:
  "void_set_pool = set_pool" "void_get_pool = get_pool"
  "void_get_future = get_future" "void_set_value = set_value ()"
  "void_set_exception = set_exception" "void_set_continuation = set_continuation"
  by (simp_all add: fun_eq_iff void_set_pool_def set_pool_def void_get_pool_def get_pool_def
      void_get_future_def get_future_def void_set_value_def set_value_def
      void_set_exception_def set_exception_def complete_def void_set_continuation_def
      set_continuation_def)


section \<open>The interface\<close>

text \<open>A one-shot event with continuations: it is resolved once, hands out the stored continuation then,
  and later ones at once, unless one was stored before.\<close>

datatype ('r, 'c) event_op = Resolve 'r | Attach 'c

fun attached :: "('r, 'c) event_op list \<Rightarrow> 'c list" where
  "attached [] = []"
| "attached (Attach c # xs) = c # attached xs"
| "attached (Resolve r # xs) = attached xs"

fun is_attach :: "('r, 'c) event_op \<Rightarrow> bool" where
  "is_attach (Attach c) = True"
| "is_attach (Resolve r) = False"

text \<open>A sequence of operations: the continuations executed, in order, and the state at the end.\<close>

fun use_event :: "('r \<Rightarrow> 's \<Rightarrow> 'c option outcome \<times> 's) \<Rightarrow> ('c \<Rightarrow> 's \<Rightarrow> 'c option \<times> 's) \<Rightarrow>
    ('r, 'c) event_op list \<Rightarrow> 's \<Rightarrow> 'c list \<times> 's" where
  "use_event resolve attach [] s = ([], s)"
| "use_event resolve attach (Resolve r # xs) s = (case resolve r s of
       (Ret (Some c), s') \<Rightarrow> apfst ((#) c) (use_event resolve attach xs s')
     | (_, s') \<Rightarrow> use_event resolve attach xs s')"
| "use_event resolve attach (Attach c # xs) s = (case attach c s of
       (Some c', s') \<Rightarrow> apfst ((#) c') (use_event resolve attach xs s')
     | (None, s') \<Rightarrow> use_event resolve attach xs s')"

text \<open>The first value or exception offered.\<close>

fun first_resolve :: "('r, 'c) event_op list \<Rightarrow> 'r option" where
  "first_resolve [] = None"
| "first_resolve (Resolve r # xs) = Some r"
| "first_resolve (Attach c # xs) = first_resolve xs"

locale one_shot =
  fixes resolve :: "'r \<Rightarrow> 's \<Rightarrow> 'c option outcome \<times> 's"
    and attach :: "'c \<Rightarrow> 's \<Rightarrow> 'c option \<times> 's"
    and result :: "'s \<Rightarrow> 'r option"
    and stored :: "'s \<Rightarrow> 'c option"
    and closed :: "'s \<Rightarrow> bool"      \<comment> \<open>a continuation was stored\<close>
    and wf_event :: "'s \<Rightarrow> bool"
  assumes resolve_first: "wf_event s \<Longrightarrow> result s = None \<Longrightarrow>
      \<exists>s'. resolve r s = (Ret (stored s), s') \<and> wf_event s' \<and> result s' = Some r \<and> closed s' = closed s"
    and resolve_again: "wf_event s \<Longrightarrow> result s \<noteq> None \<Longrightarrow> \<exists>e. resolve r s = (Throw e, s)"
    and attach_closed: "closed s \<Longrightarrow> attach c s = (None, s)"
    and attach_resolved: "wf_event s \<Longrightarrow> \<not> closed s \<Longrightarrow> result s \<noteq> None \<Longrightarrow> attach c s = (Some c, s)"
    and attach_first: "wf_event s \<Longrightarrow> \<not> closed s \<Longrightarrow> result s = None \<Longrightarrow>
      \<exists>s'. attach c s = (None, s') \<and> wf_event s' \<and> closed s' \<and> result s' = None \<and> stored s' = Some c"
    and stored_closed: "wf_event s \<Longrightarrow> stored s \<noteq> None \<Longrightarrow> closed s"
begin

lemma use_resolved_closed:
  "wf_event s \<Longrightarrow> result s \<noteq> None \<Longrightarrow> closed s \<Longrightarrow> use_event resolve attach xs s = ([], s)"
proof (induction xs)
  case (Cons x xs)
  then show ?case
  proof (cases x)
    case (Resolve r)
    from resolve_again [OF Cons.prems(1,2), of r] obtain e where "resolve r s = (Throw e, s)" by blast
    with Resolve Cons show ?thesis by simp
  qed (simp add: attach_closed)
qed simp

lemma use_resolved:
  "wf_event s \<Longrightarrow> result s \<noteq> None \<Longrightarrow> \<not> closed s \<Longrightarrow> use_event resolve attach xs s = (attached xs, s)"
proof (induction xs)
  case (Cons x xs)
  then show ?case
  proof (cases x)
    case (Resolve r)
    from resolve_again [OF Cons.prems(1,2), of r] obtain e where "resolve r s = (Throw e, s)" by blast
    with Resolve Cons show ?thesis by simp
  qed (simp add: attach_resolved)
qed simp

lemma use_pending_closed:
  "wf_event s \<Longrightarrow> result s = None \<Longrightarrow> closed s \<Longrightarrow> stored s = Some c \<Longrightarrow>
   fst (use_event resolve attach xs s) = (if dropWhile is_attach xs = [] then [] else [c])"
proof (induction xs)
  case (Cons x xs)
  show ?case
  proof (cases x)
    case (Resolve r)
    from resolve_first [OF Cons.prems(1,2), of r] obtain s' where
      "resolve r s = (Ret (stored s), s')" "wf_event s'" "result s' = Some r" "closed s' = closed s"
      by blast
    with Resolve Cons.prems(3,4) show ?thesis by (simp add: use_resolved_closed)
  qed (use Cons in \<open>simp add: attach_closed\<close>)
qed simp

lemma use_pending:
  assumes "wf_event s" "result s = None" "\<not> closed s"
  shows "fst (use_event resolve attach xs s) = (if dropWhile is_attach xs = [] then []
    else case attached (takeWhile is_attach xs) of
        [] \<Rightarrow> attached (dropWhile is_attach xs) | c # cs \<Rightarrow> [c])"
proof (cases xs)
  case (Cons x xs')
  show ?thesis
  proof (cases x)
    case (Resolve r)
    have "stored s = None" using stored_closed assms by blast
    with resolve_first [OF assms(1,2), of r] obtain s' where
      "resolve r s = (Ret None, s')" "wf_event s'" "result s' = Some r" "closed s' = closed s" by auto
    with Cons Resolve assms(3) show ?thesis by (simp add: use_resolved)
  next
    case (Attach c)
    from attach_first [OF assms(1,3,2), of c] obtain s' where
      "attach c s = (None, s')" "wf_event s'" "closed s'" "result s' = None" "stored s' = Some c" by blast
    with Cons Attach show ?thesis by (simp add: use_pending_closed)
  qed
qed simp

lemma use_result:
  "wf_event s \<Longrightarrow> result (snd (use_event resolve attach xs s)) =
     (if result s = None then first_resolve xs else result s)"
proof (induction xs arbitrary: s)
  case (Cons x xs)
  show ?case
  proof (cases x)
    case (Resolve r)
    show ?thesis
    proof (cases "result s")
      case None
      from resolve_first [OF Cons.prems None, of r] obtain s' where
        "resolve r s = (Ret (stored s), s')" "wf_event s'" "result s' = Some r" by blast
      with Resolve None Cons.IH [of s'] show ?thesis by (auto split: option.splits)
    next
      case (Some q)
      with resolve_again [OF Cons.prems, of r] obtain e where "resolve r s = (Throw e, s)" by auto
      with Resolve Some Cons show ?thesis by simp
    qed
  next
    case (Attach c)
    show ?thesis
    proof (cases "closed s \<or> result s \<noteq> None")
      case True
      then have "attach c s = (None, s) \<or> attach c s = (Some c, s)"
        using attach_closed attach_resolved [OF Cons.prems] by blast
      with Attach Cons.IH [OF Cons.prems] True show ?thesis by (cases "result s") auto
    next
      case False
      with attach_first [OF Cons.prems, of c] obtain s' where
        "attach c s = (None, s')" "wf_event s'" "result s' = None" by blast
      with Attach False Cons.IH [of s'] show ?thesis by simp
    qed
  qed
qed simp

end


section \<open>The shared state is a one-shot event\<close>

text \<open>\<open>set_value\<close> and \<open>set_exception\<close> by what they put into the promise.\<close>

datatype 'v settlement = With_value 'v | With_exception exn

fun settle :: "'v settlement \<Rightarrow> ('v, 'c) SharedState \<Rightarrow> 'c option outcome \<times> ('v, 'c) SharedState" where
  "settle (With_value v) s = set_value v s"
| "settle (With_exception e) s = set_exception e s"

fun settled :: "'v promise \<Rightarrow> 'v settlement option" where
  "settled Unset = None"
| "settled (Value v) = Some (With_value v)"
| "settled (Exception e) = Some (With_exception e)"

definition state_ok :: "('v, 'c) SharedState \<Rightarrow> bool" where
  "state_ok s \<longleftrightarrow> (completed s \<longleftrightarrow> promise s \<noteq> Unset) \<and>
     (continuation s \<noteq> None \<longrightarrow> continuation_set s \<and> \<not> completed s) \<and>
     (continuation_set s \<and> \<not> completed s \<longrightarrow> continuation s \<noteq> None) \<and>
     (promise_taken s \<longleftrightarrow> future_retrieved s)"

lemmas state_defs = set_value_def set_exception_def complete_def set_continuation_def get_future_def
  state_ok_def

lemma state_ok_new [simp]: "state_ok new_state"
  by (simp add: state_ok_def new_state_def)

interpretation shared: one_shot settle set_continuation "\<lambda>s. settled (promise s)" continuation
  continuation_set state_ok
proof (unfold_locales, goal_cases)
  case (1 s r)
  then show ?case by (cases "promise s"; cases r) (auto simp: state_defs)
next
  case (2 s r)
  then show ?case by (cases "promise s"; cases r) (auto simp: state_defs)
next
  case (4 s c)
  then show ?case by (cases "promise s") (auto simp: state_defs)
next
  case (5 s c)
  then show ?case by (cases "promise s") (auto simp: state_defs)
qed (auto simp: state_defs)


section \<open>Properties\<close>

text \<open>C35. A continuation runs at most once, and a shared state keeps the first value or exception it is
  given. If a continuation was attached before the state is completed, completion runs the first
  such one and every other one, attached before or after, is silently dropped; otherwise each one
  attached after completion runs at once.\<close>

theorem continuation_runs_once:
  "fst (use_event settle set_continuation xs new_state) =
     (if dropWhile is_attach xs = [] then []
      else case attached (takeWhile is_attach xs) of
          [] \<Rightarrow> attached (dropWhile is_attach xs) | c # cs \<Rightarrow> [c]) \<and>
   settled (promise (snd (use_event settle set_continuation xs new_state))) = first_resolve xs"
  using shared.use_pending [of new_state xs] shared.use_result [of new_state xs]
  by (simp add: new_state_def state_ok_def)

end
