(* ===== verification/Future.thy ===== *)
theory Future
  imports SharedState
begin

text \<open>
  \<open>rpc/threadpool/futurev5.hpp\<close> and the two \<open>then_impl\<close> of \<open>thpoolv5.hpp\<close>: futures over the shared
  states. A \<open>shared_ptr\<close> to a shared state is its index in the list of states (\<^const>\<open>None\<close> for the
  null pointer of a default constructed \<open>Future\<close>). User code is a program over the calls of the pool
  (\<open>prog\<close>), and the callables the pool stores are the lambdas of the source (\<open>task\<close>). \<open>Future<void>\<close> is
  a class of its own in the source; its members are those of \<open>Future<T>\<close> with the value ignored.
\<close>

section \<open>User code and the lambdas of the pool\<close>

text \<open>
  What user code can do: return a value or throw, or make a call of the pool and go on with its
  result. A function passed to the pool is user code too. \<open>Then f g True\<close> is \<open>f.then_inline(g)\<close>.
\<close>

datatype 'v prog =
    Done "exn + 'v"
  | Post "'v prog" "nat option \<Rightarrow> 'v prog"
  | Post_detach "'v prog" "'v prog"
  | Then "nat option" "'v \<Rightarrow> 'v prog" bool "exn + nat option \<Rightarrow> 'v prog"
  | Get "nat option" "exn + 'v \<Rightarrow> 'v prog"
  | Wait_for "nat option" "exn + unit \<Rightarrow> 'v prog"
  | Wait "'v prog"
  | Shutdown "exn option \<Rightarrow> 'v prog"
  | Destroy "exn option \<Rightarrow> 'v prog"

text \<open>
  The callables: the one of \<open>post_detach\<close>, the lambda of \<open>post\<close> with its state, the \<open>continuation\<close> of
  \<open>then_impl\<close> with the state it waits for, the callback and the next state, and the lambda that
  submits a continuation to the pool.
\<close>

datatype 'v task =
    Detached "'v prog"
  | Posted "'v prog" nat
  | Continued nat "'v \<Rightarrow> 'v prog" nat
  | Repost "'v task"

type_synonym 'v states = "('v, 'v task) SharedState list"


section \<open>The members of Future\<close>

definition no_state :: exn where
  "no_state = Std_exception ''no_state''"

definition no_pool :: exn where
  "no_pool = Std_exception ''No thread pool associated with this future''"

definition future_valid :: "nat option \<Rightarrow> bool" where
  "future_valid f \<longleftrightarrow> f \<noteq> None"

text \<open>\<open>std::shared_future::get\<close>: \<^const>\<open>None\<close> while it blocks.\<close>

definition shared_future_get :: "nat \<Rightarrow> 'v states \<Rightarrow> (exn + 'v) option" where
  "shared_future_get n ss = (case promise (ss ! n) of
       Unset \<Rightarrow> None | Value v \<Rightarrow> Some (Inr v) | Exception e \<Rightarrow> Some (Inl e))"

definition future_get :: "nat option \<Rightarrow> 'v states \<Rightarrow> (exn + 'v) option \<times> 'v states" where
  "future_get f ss = (case f of
       None \<Rightarrow> (Some (Inl no_state), ss)
     | Some n \<Rightarrow> (case get_future (ss ! n) of
           (Ret _, s) \<Rightarrow> (shared_future_get n ss, ss[n := s])
         | (Throw e, s) \<Rightarrow> (Some (Inl e), ss[n := s])
         | (UB u, s) \<Rightarrow> (None, ss)))"

definition future_wait :: "nat option \<Rightarrow> 'v states \<Rightarrow> (exn + unit) option \<times> 'v states" where
  "future_wait f ss = (case f of
       None \<Rightarrow> (Some (Inl no_state), ss)
     | Some n \<Rightarrow> (case get_future (ss ! n) of
           (Ret _, s) \<Rightarrow> (map_option (\<lambda>r. Inr ()) (shared_future_get n ss), ss[n := s])
         | (Throw e, s) \<Rightarrow> (Some (Inl e), ss[n := s])
         | (UB u, s) \<Rightarrow> (None, ss)))"

text \<open>
  \<open>then_impl\<close>: the state of the returned future and the callable that \<open>set_continuation\<close> executes in the
  calling thread, if it does. When the state has no pool, the next state is destroyed by the
  exception.
\<close>

definition then_impl :: "nat option \<Rightarrow> ('v \<Rightarrow> 'v prog) \<Rightarrow> bool \<Rightarrow> 'v states \<Rightarrow>
    (exn + nat \<times> 'v task option) \<times> 'v states" where
  "then_impl f func inline_exec ss = (case f of
       None \<Rightarrow> (Inl no_state, ss)
     | Some n \<Rightarrow>
         (let next = length ss; next_state = set_pool (get_pool (ss ! n)) new_state
          in case get_future (ss ! n) of
               (Ret _, s) \<Rightarrow>
                 (let continuation = Continued n func next
                  in if inline_exec
                     then let (now, s) = set_continuation continuation s
                       in (Inr (next, now), ss[n := s] @ [next_state])
                     else (case get_pool s of
                         None \<Rightarrow> (Inl no_pool, ss[n := s])
                       | Some pool \<Rightarrow> let (now, s) = set_continuation (Repost continuation) s
                           in (Inr (next, now), ss[n := s] @ [next_state])))
             | (Throw e, s) \<Rightarrow> (Inl e, ss[n := s])
             | (UB u, s) \<Rightarrow> (Inl Other_exception, ss)))"

definition future_then :: "nat option \<Rightarrow> ('v \<Rightarrow> 'v prog) \<Rightarrow> 'v states \<Rightarrow>
    (exn + nat \<times> 'v task option) \<times> 'v states" where
  "future_then f func ss = then_impl f func False ss"

definition future_then_inline :: "nat option \<Rightarrow> ('v \<Rightarrow> 'v prog) \<Rightarrow> 'v states \<Rightarrow>
    (exn + nat \<times> 'v task option) \<times> 'v states" where
  "future_then_inline f func ss = then_impl f func True ss"

lemma then_calls [simp]:
  "(if b then future_then_inline f g ss else future_then f g ss) = then_impl f g b ss"
  by (simp add: future_then_def future_then_inline_def)

text \<open>On states as the pool keeps them the first call of \<open>get_future\<close> never throws.\<close>

lemma get_future_ok:
  assumes "state_ok s"
  shows "get_future s = (Ret (), s\<lparr>promise_taken := True, future_retrieved := True\<rparr>)"
proof (cases "future_retrieved s")
  case True
  with assms have "promise_taken s" by (simp add: state_ok_def)
  with True have "s = s\<lparr>promise_taken := True, future_retrieved := True\<rparr>" by (cases s) simp
  with True show ?thesis by (simp add: get_future_def)
qed (use assms in \<open>simp add: get_future_def state_ok_def\<close>)


section \<open>The void specialisation\<close>

text \<open>\<open>Future<void>\<close>: \<open>get\<close> returns nothing, and callbacks take no argument.\<close>

definition void_future_get :: "nat option \<Rightarrow> 'v states \<Rightarrow> (exn + unit) option \<times> 'v states" where
  "void_future_get f ss = (case f of
       None \<Rightarrow> (Some (Inl no_state), ss)
     | Some n \<Rightarrow> (case get_future (ss ! n) of
           (Ret _, s) \<Rightarrow> (case shared_future_get n ss of
               None \<Rightarrow> (None, ss[n := s])
             | Some (Inl e) \<Rightarrow> (Some (Inl e), ss[n := s])
             | Some (Inr v) \<Rightarrow> (Some (Inr ()), ss[n := s]))
         | (Throw e, s) \<Rightarrow> (Some (Inl e), ss[n := s])
         | (UB u, s) \<Rightarrow> (None, ss)))"

definition void_future_wait :: "nat option \<Rightarrow> 'v states \<Rightarrow> (exn + unit) option \<times> 'v states" where
  "void_future_wait f ss = (case f of
       None \<Rightarrow> (Some (Inl no_state), ss)
     | Some n \<Rightarrow> (case get_future (ss ! n) of
           (Ret _, s) \<Rightarrow> (if promise (ss ! n) = Unset then None else Some (Inr ()), ss[n := s])
         | (Throw e, s) \<Rightarrow> (Some (Inl e), ss[n := s])
         | (UB u, s) \<Rightarrow> (None, ss)))"

definition void_future_valid :: "nat option \<Rightarrow> bool" where
  "void_future_valid f \<longleftrightarrow> f \<noteq> None"

definition void_then_impl :: "nat option \<Rightarrow> 'v prog \<Rightarrow> bool \<Rightarrow> 'v states \<Rightarrow>
    (exn + nat \<times> 'v task option) \<times> 'v states" where
  "void_then_impl f func inline_exec ss = (case f of
       None \<Rightarrow> (Inl no_state, ss)
     | Some n \<Rightarrow>
         (let next = length ss; next_state = set_pool (get_pool (ss ! n)) new_state
          in case get_future (ss ! n) of
               (Ret _, s) \<Rightarrow>
                 (let continuation = Continued n (\<lambda>_. func) next
                  in if inline_exec
                     then let (now, s) = set_continuation continuation s
                       in (Inr (next, now), ss[n := s] @ [next_state])
                     else (case get_pool s of
                         None \<Rightarrow> (Inl no_pool, ss[n := s])
                       | Some pool \<Rightarrow> let (now, s) = set_continuation (Repost continuation) s
                           in (Inr (next, now), ss[n := s] @ [next_state])))
             | (Throw e, s) \<Rightarrow> (Inl e, ss[n := s])
             | (UB u, s) \<Rightarrow> (Inl Other_exception, ss)))"

definition void_future_then :: "nat option \<Rightarrow> 'v prog \<Rightarrow> 'v states \<Rightarrow>
    (exn + nat \<times> 'v task option) \<times> 'v states" where
  "void_future_then f func ss = void_then_impl f func False ss"

definition void_future_then_inline :: "nat option \<Rightarrow> 'v prog \<Rightarrow> 'v states \<Rightarrow>
    (exn + nat \<times> 'v task option) \<times> 'v states" where
  "void_future_then_inline f func ss = void_then_impl f func True ss"

text \<open>A program over the void class is one over \<open>Future<T>\<close> that ignores the value.\<close>

lemma void_future:
  "void_then_impl f func inline_exec ss = then_impl f (\<lambda>_. func) inline_exec ss"
  "void_future_then f func ss = future_then f (\<lambda>_. func) ss"
  "void_future_then_inline f func ss = future_then_inline f (\<lambda>_. func) ss"
  "void_future_get f ss = apfst (map_option (map_sum id (\<lambda>v. ()))) (future_get f ss)"
  "void_future_wait f ss = future_wait f ss" "void_future_valid f = future_valid f"
  by (auto simp: void_then_impl_def then_impl_def void_future_get_def future_get_def
      void_future_then_def future_then_def void_future_then_inline_def future_then_inline_def
      void_future_wait_def future_wait_def shared_future_get_def void_future_valid_def future_valid_def
      split: option.splits prod.splits outcome.splits sum.splits promise.splits)


section \<open>The header that is not included\<close>

text \<open>
  \<open>futurev5_impl.hpp\<close> defines the two \<open>then_impl\<close> again, for a build that would include it instead: it
  creates the next state first and moves the shared future into the lambda. A moved
  \<open>std::shared_future\<close> refers to the same state, so the definitions differ from those of
  \<open>thpoolv5.hpp\<close> in nothing a caller can see.
\<close>

definition header_then_impl :: "nat option \<Rightarrow> ('v \<Rightarrow> 'v prog) \<Rightarrow> bool \<Rightarrow> 'v states \<Rightarrow>
    (exn + nat \<times> 'v task option) \<times> 'v states" where
  "header_then_impl f func inline_exec ss = (case f of
       None \<Rightarrow> (Inl no_state, ss)
     | Some n \<Rightarrow>
         (let next_state = set_pool (get_pool (ss ! n)) new_state; next_future = length ss;
              (current_future, s) = get_future (ss ! n); ss' = ss[n := s]
          in case current_future of
               Throw e \<Rightarrow> (Inl e, ss')
             | UB u \<Rightarrow> (Inl Other_exception, ss)
             | Ret _ \<Rightarrow>
                 (let continuation = Continued n func next_future
                  in if inline_exec
                     then (case set_continuation continuation s of
                         (now, s) \<Rightarrow> (Inr (next_future, now), ss[n := s] @ [next_state]))
                     else if get_pool s = None then (Inl no_pool, ss')
                     else (case set_continuation (Repost continuation) s of
                         (now, s) \<Rightarrow> (Inr (next_future, now), ss[n := s] @ [next_state])))))"

definition header_void_then_impl :: "nat option \<Rightarrow> 'v prog \<Rightarrow> bool \<Rightarrow> 'v states \<Rightarrow>
    (exn + nat \<times> 'v task option) \<times> 'v states" where
  "header_void_then_impl f func inline_exec ss = (case f of
       None \<Rightarrow> (Inl no_state, ss)
     | Some n \<Rightarrow>
         (let next_state = set_pool (get_pool (ss ! n)) new_state; next_future = length ss;
              (current_future, s) = get_future (ss ! n); ss' = ss[n := s]
          in case current_future of
               Throw e \<Rightarrow> (Inl e, ss')
             | UB u \<Rightarrow> (Inl Other_exception, ss)
             | Ret _ \<Rightarrow>
                 (let continuation = Continued n (\<lambda>_. func) next_future
                  in if inline_exec
                     then (case set_continuation continuation s of
                         (now, s) \<Rightarrow> (Inr (next_future, now), ss[n := s] @ [next_state]))
                     else if get_pool s = None then (Inl no_pool, ss')
                     else (case set_continuation (Repost continuation) s of
                         (now, s) \<Rightarrow> (Inr (next_future, now), ss[n := s] @ [next_state])))))"

lemma header_agrees:
  "header_then_impl f func inline_exec ss = then_impl f func inline_exec ss"
  "header_void_then_impl f func' inline_exec ss = void_then_impl f func' inline_exec ss"
  by (auto simp: header_then_impl_def then_impl_def header_void_then_impl_def void_then_impl_def Let_def
      split: option.splits prod.splits outcome.splits)

end
