(* ===== verification/Pool.thy ===== *)
theory Pool
  imports Future
begin

text \<open>
  The thread pool of \<open>rpc/threadpool/thpoolv5.hpp\<close> as a machine of threads: its workers and the
  threads of the application, interleaved arbitrarily. A thread is a control point with the frames it
  returns to; every atomic operation, locked section and blocking call of the source is one step.
  Undefined behaviour (\<open>fault\<close>) and \<open>std::terminate\<close> (\<open>terminated\<close>) stop the machine.
\<close>

section \<open>State\<close>

text \<open>How a shared state came about (history).\<close>

datatype 'v origin = From_post "'v prog" | From_then nat "'v \<Rightarrow> 'v prog"

text \<open>
  The members of \<open>pool\<close>. The queue of a worker holds the packages, front first, each with the number
  of its post. A condition variable is the list of the threads blocked on it, a mutex the thread that
  holds it. \<open>posted\<close>, \<open>finished\<close> and \<open>origins\<close> are history.
\<close>

record 'v pool =
  queues :: "('v task \<times> nat) list list"
  round_index :: u64
  unfinished :: u64
  shutdown :: bool
  th_mutex :: "nat option"
  th_waiters :: "nat list"
  wait_mutex :: "nat option"
  wait_waiters :: "nat list"
  exited :: "nat list"
  joined :: "nat list"
  states :: "'v states"
  posted :: "'v task list"
  finished :: "nat list"
  origins :: "'v origin list"
  terminated :: bool
  fault :: "fault option"

definition new_pool :: "nat \<Rightarrow> 'v pool" where
  "new_pool th_size = \<lparr>queues = replicate th_size [], round_index = 0, unfinished = 0,
     shutdown = False, th_mutex = None, th_waiters = [], wait_mutex = None, wait_waiters = [],
     exited = [], joined = [], states = [], posted = [], finished = [], origins = [],
     terminated = False, fault = None\<rparr>"

text \<open>
  Frames: a worker running the package of a post; the \<open>try\<close> block of a lambda, before and after the
  user's function returned; the callable of a \<open>post_detach\<close>; user code waiting for a call of the pool.
\<close>

datatype 'v frame =
    Worker nat
  | Publish nat
  | Catching nat
  | Discard
  | User "exn option \<Rightarrow> 'v prog"

datatype 'v control =
    Eval "'v prog" | Blocked nat "exn + 'v \<Rightarrow> 'v prog" | Ended
  | Invoke "'v task" | Back | Raise exn
  | Choose "'v task" | Count nat "'v task" nat | Push nat "'v task" nat | Notify
  | Loop | Own | Steal | Steal_from nat | Finish nat | Announce | Test | Doze | Asleep | Exited
  | Await | Await_doze | Await_asleep
  | Stop | Stop_notify | Join nat

type_synonym 'v thread = "'v control \<times> 'v frame list"


section \<open>Posting\<close>

text \<open>\<open>round_index_.fetch_add(1) % workers_.size()\<close>.\<close>

definition choose_victim :: "'v pool \<Rightarrow> nat \<times> 'v pool" where
  "choose_victim p = (unat (round_index p) mod length (queues p), p\<lparr>round_index := round_index p + 1\<rparr>)"

text \<open>\<open>notify_one\<close> wakes one of the blocked threads, \<open>j\<close>, if there is any.\<close>

definition notify_one :: "nat \<Rightarrow> 'v pool \<Rightarrow> 'v pool option" where
  "notify_one j p = (if th_waiters p = [] then Some p
     else if j \<in> set (th_waiters p) then Some (p\<lparr>th_waiters := removeAll j (th_waiters p)\<rparr>)
     else None)"

fun post_step :: "nat \<Rightarrow> 'v control \<Rightarrow> 'v pool \<Rightarrow> ('v pool \<times> 'v control) option" where
  "post_step j (Choose t) p =
     (if queues p = [] then Some (p\<lparr>fault := Some Division_by_zero\<rparr>, Choose t)
      else let (victim, p) = choose_victim p
        in Some (p\<lparr>posted := posted p @ [t]\<rparr>, Count victim t (length (posted p))))"
| "post_step j (Count victim t m) p = Some (p\<lparr>unfinished := unfinished p + 1\<rparr>, Push victim t m)"
| "post_step j (Push victim t m) p =
     Some (p\<lparr>queues := (queues p)[victim := (t, m) # queues p ! victim]\<rparr>, Notify)"
| "post_step j Notify p = (case notify_one j p of None \<Rightarrow> None | Some p \<Rightarrow> Some (p, Back))"
| "post_step j _ p = None"


section \<open>The worker loop\<close>

text \<open>Taking a package ends with the worker in the call \<open>task()\<close>, above the frame \<^const>\<open>Worker\<close>.\<close>

fun work_step :: "nat \<Rightarrow> 'v control \<Rightarrow> 'v pool \<Rightarrow> ('v pool \<times> 'v thread) option" where
  "work_step i Loop p =
     (if shutdown p then Some (p\<lparr>exited := i # exited p\<rparr>, Exited, []) else Some (p, Own, []))"
| "work_step i Own p = (case queues p ! i of
       (t, m) # q \<Rightarrow> Some (p\<lparr>queues := (queues p)[i := q]\<rparr>, Invoke t, [Worker m])
     | [] \<Rightarrow> Some (p, Steal, []))"
| "work_step i Steal p =
     (if length (queues p) > 1
      then let (victim, p) = choose_victim p;
          victim = (if victim = i then (victim + 1) mod length (queues p) else victim)
        in Some (p, Steal_from victim, [])
      else Some (p, Test, []))"
| "work_step i (Steal_from victim) p = (let q = queues p ! victim
     in if q \<noteq> []
        then Some (p\<lparr>queues := (queues p)[victim := butlast q]\<rparr>,
          Invoke (fst (last q)), [Worker (snd (last q))])
        else Some (p, Test, []))"
| "work_step i (Finish m) p =
     Some (p\<lparr>unfinished := unfinished p - 1, finished := m # finished p\<rparr>, Announce, [])"
| "work_step i Announce p = Some (p\<lparr>wait_waiters := []\<rparr>, Loop, [])"
| "work_step i Test p =
     (if th_mutex p \<noteq> None then None
      else if shutdown p \<or> unfinished p > 0 then Some (p, Loop, [])
      else Some (p\<lparr>th_mutex := Some i\<rparr>, Doze, []))"
| "work_step i Doze p = Some (p\<lparr>th_mutex := None, th_waiters := i # th_waiters p\<rparr>, Asleep, [])"
| "work_step i Asleep p = (if i \<in> set (th_waiters p) then None else Some (p, Test, []))"
| "work_step i _ p = None"


section \<open>Waiting and shutting down\<close>

fun wait_step :: "nat \<Rightarrow> 'v control \<Rightarrow> 'v pool \<Rightarrow> ('v pool \<times> 'v control) option" where
  "wait_step i Await p =
     (if wait_mutex p \<noteq> None then None
      else if unfinished p = 0 then Some (p, Back)
      else Some (p\<lparr>wait_mutex := Some i\<rparr>, Await_doze))"
| "wait_step i Await_doze p =
     Some (p\<lparr>wait_mutex := None, wait_waiters := i # wait_waiters p\<rparr>, Await_asleep)"
| "wait_step i Await_asleep p = (if i \<in> set (wait_waiters p) then None else Some (p, Await))"
| "wait_step i _ p = None"

text \<open>\<open>std::thread::join\<close> on the calling thread throws.\<close>

definition resource_deadlock :: exn where
  "resource_deadlock = Std_exception ''resource_deadlock_would_occur''"

fun stop_step :: "nat \<Rightarrow> 'v control \<Rightarrow> 'v pool \<Rightarrow> ('v pool \<times> 'v control) option" where
  "stop_step i Stop p = Some (p\<lparr>shutdown := True\<rparr>, Stop_notify)"
| "stop_step i Stop_notify p = Some (p\<lparr>th_waiters := []\<rparr>, Join 0)"
| "stop_step i (Join k) p =
     (if k \<ge> length (queues p) then Some (p, Back)
      else if k \<in> set (joined p) then Some (p, Join (k + 1))
      else if k = i then Some (p, Raise resource_deadlock)
      else if k \<in> set (exited p) then Some (p\<lparr>joined := k # joined p\<rparr>, Join (k + 1))
      else None)"
| "stop_step i _ p = None"


section \<open>Running callables and user code\<close>

text \<open>Going on after a call that may have handed out a continuation to execute.\<close>

fun resume :: "'v task option \<Rightarrow> 'v frame list \<Rightarrow> 'v thread" where
  "resume None K = (Back, K)"
| "resume (Some t) K = (Invoke t, K)"

definition with_state :: "nat \<Rightarrow> 'v pool \<Rightarrow> ('v, 'v task) SharedState \<Rightarrow> 'v pool" where
  "with_state n p s = p\<lparr>states := (states p)[n := s]\<rparr>"

text \<open>The call operator of the lambdas, up to the user's function or the end of the call.\<close>

fun invoke_step :: "'v task \<Rightarrow> 'v frame list \<Rightarrow> 'v pool \<Rightarrow> ('v pool \<times> 'v thread) option" where
  "invoke_step (Detached e) K p = Some (p, Eval e, Discard # K)"
| "invoke_step (Posted e n) K p = Some (p, Eval e, Publish n # K)"
| "invoke_step (Continued m g n) K p = (case shared_future_get m (states p) of
       None \<Rightarrow> None
     | Some (Inr v) \<Rightarrow> Some (p, Eval (g v), Publish n # K)
     | Some (Inl e) \<Rightarrow> Some (p, Raise e, Publish n # K))"
| "invoke_step (Repost t) K p = Some (p, Choose t, K)"

text \<open>The user's function returned: the lambda calls \<open>set_value\<close>, still in its \<open>try\<close> block.\<close>

fun return_value :: "'v \<Rightarrow> 'v frame list \<Rightarrow> 'v pool \<Rightarrow> ('v pool \<times> 'v thread) option" where
  "return_value v (Publish n # K) p = (case set_value v (states p ! n) of
       (Ret c, s) \<Rightarrow> Some (with_state n p s, resume c (Catching n # K))
     | (Throw e, s) \<Rightarrow> Some (with_state n p s, Raise e, Catching n # K)
     | (UB u, s) \<Rightarrow> Some (p\<lparr>fault := Some u\<rparr>, Back, Publish n # K))"
| "return_value v (Discard # K) p = Some (p, Back, K)"
| "return_value v [] p = Some (p, Ended, [])"
| "return_value v K p = None"

text \<open>An exception reaches the \<open>catch (...)\<close> of a lambda, the worker loop, or user code.\<close>

fun raise_step :: "exn \<Rightarrow> 'v frame list \<Rightarrow> 'v pool \<Rightarrow> ('v pool \<times> 'v thread) option" where
  "raise_step e [] p = Some (p\<lparr>terminated := True\<rparr>, Raise e, [])"
| "raise_step e (F # K) p =
     (let handler = (\<lambda>n. case set_exception e (states p ! n) of
         (Ret c, s) \<Rightarrow> Some (with_state n p s, resume c K)
       | (Throw e', s) \<Rightarrow> Some (with_state n p s, Raise e', K)
       | (UB u, s) \<Rightarrow> Some (p\<lparr>fault := Some u\<rparr>, Back, K))
      in case F of
           Publish n \<Rightarrow> handler n
         | Catching n \<Rightarrow> handler n
         | Discard \<Rightarrow> Some (p, Raise e, K)
         | User k \<Rightarrow> Some (p, Eval (k (Some e)), K)
         | Worker m \<Rightarrow> Some (p\<lparr>terminated := True\<rparr>, Raise e, F # K))"

fun back_step :: "'v frame list \<Rightarrow> 'v pool \<Rightarrow> ('v pool \<times> 'v thread) option" where
  "back_step (Catching n # K) p = Some (p, Back, K)"
| "back_step (User k # K) p = Some (p, Eval (k None), K)"
| "back_step (Worker m # K) p = Some (p, Finish m, K)"
| "back_step K p = None"

text \<open>A handle user code holds refers to a state that exists.\<close>

definition handle_ok :: "nat option \<Rightarrow> 'v pool \<Rightarrow> bool" where
  "handle_ok f p = (case f of None \<Rightarrow> True | Some n \<Rightarrow> n < length (states p))"

text \<open>\<open>get\<close> and \<open>wait\<close> of a future block on its shared future.\<close>

definition block_on :: "nat option \<Rightarrow> (exn + 'v \<Rightarrow> 'v prog) \<Rightarrow> (exn + 'v) option \<Rightarrow> 'v control" where
  "block_on f k r = (case r of Some r \<Rightarrow> Eval (k r) | None \<Rightarrow> Blocked (the f) k)"

definition new_future :: "'v origin \<Rightarrow> 'v pool \<Rightarrow> nat \<times> 'v pool" where
  "new_future born p = (length (states p),
     p\<lparr>states := states p @ [set_pool (Some 0) new_state], origins := origins p @ [born]\<rparr>)"

text \<open>\<open>post\<close> up to the choice of the queue: the new state and the lambda that will complete it.\<close>

definition post_task :: "'v prog \<Rightarrow> 'v pool \<Rightarrow> nat \<times> 'v task \<times> 'v pool" where
  "post_task e p = (let (n, p) = new_future (From_post e) p in (n, Posted e n, p))"

text \<open>The destructor does what \<open>shutdown\<close> does, unless that was called before.\<close>

definition destructor :: "'v pool \<Rightarrow> 'v control" where
  "destructor p = (if shutdown p then Back else Stop)"

fun eval_step :: "'v prog \<Rightarrow> 'v frame list \<Rightarrow> 'v pool \<Rightarrow> ('v pool \<times> 'v thread) option" where
  "eval_step (Done (Inr v)) K p = return_value v K p"
| "eval_step (Done (Inl e)) K p = Some (p, Raise e, K)"
| "eval_step (Post e k) K p = (let (n, t, p) = post_task e p
     in Some (p, Choose t, User (\<lambda>_. k (Some n)) # K))"
| "eval_step (Post_detach e k) K p = Some (p, Choose (Detached e), User (\<lambda>_. k) # K)"
| "eval_step (Then f g inline_exec k) K p =
     (if \<not> handle_ok f p then None
      else case (if inline_exec then future_then_inline f g (states p) else future_then f g (states p)) of
          (Inl e, ss) \<Rightarrow> Some (p\<lparr>states := ss\<rparr>, Eval (k (Inl e)), K)
        | (Inr (n, now), ss) \<Rightarrow>
            Some (p\<lparr>states := ss, origins := origins p @ [From_then (the f) g]\<rparr>,
              resume now (User (\<lambda>r. k (case r of None \<Rightarrow> Inr (Some n) | Some e \<Rightarrow> Inl e)) # K)))"
| "eval_step (Get f k) K p =
     (if \<not> handle_ok f p then None
      else let (r, ss) = future_get f (states p) in Some (p\<lparr>states := ss\<rparr>, block_on f k r, K))"
| "eval_step (Wait_for f k) K p =
     (if \<not> handle_ok f p then None
      else let (r, ss) = future_wait f (states p)
        in Some (p\<lparr>states := ss\<rparr>, (case r of
            Some r \<Rightarrow> Eval (k r) | None \<Rightarrow> Blocked (the f) (\<lambda>_. k (Inr ()))), K))"
| "eval_step (Wait k) K p = Some (p, Await, User (\<lambda>_. k) # K)"
| "eval_step (Shutdown k) K p = Some (p, Stop, User k # K)"
| "eval_step (Destroy k) K p = Some (p, destructor p, User k # K)"

declare post_task_def [simp] destructor_def [simp]


section \<open>The machine\<close>

text \<open>One step of thread \<open>i\<close>; \<open>j\<close> is the thread a \<open>notify_one\<close> wakes. \<^const>\<open>None\<close>: it is blocked or done.\<close>

definition lift :: "'v frame list \<Rightarrow> ('v pool \<times> 'v control) option \<Rightarrow> ('v pool \<times> 'v thread) option" where
  "lift K r = (case r of None \<Rightarrow> None | Some (p, c) \<Rightarrow> Some (p, c, K))"

fun thread_step :: "nat \<Rightarrow> nat \<Rightarrow> 'v thread \<Rightarrow> 'v pool \<Rightarrow> ('v pool \<times> 'v thread) option" where
  "thread_step j i (Eval e, K) p = eval_step e K p"
| "thread_step j i (Blocked n k, K) p = (case shared_future_get n (states p) of
       None \<Rightarrow> None | Some r \<Rightarrow> Some (p, Eval (k r), K))"
| "thread_step j i (Ended, K) p = None"
| "thread_step j i (Invoke t, K) p = invoke_step t K p"
| "thread_step j i (Back, K) p = back_step K p"
| "thread_step j i (Raise e, K) p = raise_step e K p"
| "thread_step j i (c, K) p =
     (case c of
        Choose t \<Rightarrow> lift K (post_step j c p) | Count v t m \<Rightarrow> lift K (post_step j c p)
      | Push v t m \<Rightarrow> lift K (post_step j c p) | Notify \<Rightarrow> lift K (post_step j c p)
      | Await \<Rightarrow> lift K (wait_step i c p) | Await_doze \<Rightarrow> lift K (wait_step i c p)
      | Await_asleep \<Rightarrow> lift K (wait_step i c p)
      | Stop \<Rightarrow> lift K (stop_step i c p) | Stop_notify \<Rightarrow> lift K (stop_step i c p)
      | Join k \<Rightarrow> lift K (stop_step i c p)
      | _ \<Rightarrow> work_step i c p)"

record 'v machine =
  pool :: "'v pool"
  threads :: "'v thread list"

text \<open>The constructor started \<open>th_size\<close> workers; the application has a thread for each program.\<close>

definition new_machine :: "nat \<Rightarrow> 'v prog list \<Rightarrow> 'v machine" where
  "new_machine th_size es = \<lparr>pool = new_pool th_size,
     threads = replicate th_size (Loop, []) @ map (\<lambda>e. (Eval e, [])) es\<rparr>"

definition run_thread :: "nat \<Rightarrow> nat \<Rightarrow> 'v machine \<Rightarrow> 'v machine option" where
  "run_thread j i w =
     (if i < length (threads w) \<and> \<not> terminated (pool w) \<and> fault (pool w) = None
      then case thread_step j i (threads w ! i) (pool w) of
          None \<Rightarrow> None
        | Some (p, t) \<Rightarrow> Some (w\<lparr>pool := p, threads := (threads w)[i := t]\<rparr>)
      else None)"

text \<open>A blocked thread may also wake up for no reason.\<close>

definition wake_up :: "nat \<Rightarrow> 'v machine \<Rightarrow> 'v machine" where
  "wake_up i w = w\<lparr>pool := (pool w)\<lparr>th_waiters := removeAll i (th_waiters (pool w)),
     wait_waiters := removeAll i (wait_waiters (pool w))\<rparr>\<rparr>"

inductive machine_step :: "'v machine \<Rightarrow> 'v machine \<Rightarrow> bool" where
  thread_runs: "run_thread j i w = Some w' \<Longrightarrow> machine_step w w'"
| spurious_wake_up: "machine_step w (wake_up i w)"

definition machine_init :: "nat \<Rightarrow> 'v machine \<Rightarrow> bool" where
  "machine_init th_size w \<longleftrightarrow> (\<exists>es. w = new_machine th_size es)"


section \<open>Runs\<close>

text \<open>A schedule says which thread runs next, and which one a \<open>notify_one\<close> of it would wake.\<close>

fun run_schedule :: "(nat \<times> nat) list \<Rightarrow> 'v machine \<Rightarrow> 'v machine option" where
  "run_schedule [] w = Some w"
| "run_schedule ((i, j) # s) w = (case run_thread j i w of
       None \<Rightarrow> None | Some w' \<Rightarrow> run_schedule s w')"

lemma run_schedule_reaches: "run_schedule s w = Some w' \<Longrightarrow> machine_step\<^sup>*\<^sup>* w w'"
  by (induction s w rule: run_schedule.induct)
    (auto intro: rtranclp_head machine_step.intros split: option.splits)

lemma machine_init_new [simp]: "machine_init n (new_machine n es)"
  by (auto simp: machine_init_def)

lemmas machine_defs = new_machine_def new_pool_def run_thread_def lift_def choose_victim_def
  notify_one_def new_future_def with_state_def block_on_def handle_ok_def then_impl_def
  future_get_def shared_future_get_def get_future_def set_value_def set_exception_def complete_def
  set_continuation_def set_pool_def get_pool_def new_state_def

end
