(* ===== verification/PoolShape.thy ===== *)
theory PoolShape
  imports Pool
begin

text \<open>
  The shape of the pool machine: what can be above what on the stack of a thread, which callables can
  be at which point, and that every step keeps it and only adds to the history. The accounting of
  tasks and of promises rests on it.
\<close>

section \<open>Sums over threads, queues and states\<close>

lemma sum_list_update:
  fixes f :: "'a \<Rightarrow> 'b :: cancel_comm_monoid_add"
  shows "i < length xs \<Longrightarrow>
    sum_list (map f (xs[i := x])) + f (xs ! i) = sum_list (map f xs) + f x"
  by (induction xs arbitrary: i) (auto split: nat.splits simp: ac_simps)

lemma sum_list_member_le:
  fixes f :: "'a \<Rightarrow> 'b multiset"
  shows "i < length xs \<Longrightarrow> f (xs ! i) \<subseteq># sum_list (map f xs)"
  by (metis mset_subset_eq_add_right nth_mem split_list sum_list_map_remove1 mset_subset_eq_add_left)

lemma nth_update: "m < length xs \<Longrightarrow> xs[n := x] ! m = (if m = n then x else xs ! m)"
  by (cases "n < length xs") (auto simp: nth_list_update)

section \<open>Growth of the pool\<close>

text \<open>States are created and completed once, posts are numbered; nothing of this is ever undone.\<close>

definition extends :: "'v pool \<Rightarrow> 'v pool \<Rightarrow> bool" where
  "extends p p' \<longleftrightarrow> length (queues p') = length (queues p) \<and>
     length (states p) \<le> length (states p') \<and>
     (\<forall>n<length (states p). promise (states p ! n) \<le> promise (states p' ! n)) \<and>
     prefix (origins p) (origins p') \<and> prefix (posted p) (posted p')"

lemma prefix_nth: "prefix xs ys \<Longrightarrow> i < length xs \<Longrightarrow> ys ! i = xs ! i"
  by (auto simp: prefix_def nth_append)

lemma extends_refl [simp]: "extends p p"
  by (simp add: extends_def)

lemma extends_trans:
  assumes "extends p q" "extends q r" shows "extends p r"
proof -
  have "promise (states p ! n) \<le> promise (states r ! n)" if "n < length (states p)" for n
  proof -
    from that assms(1) have "n < length (states q)" "promise (states p ! n) \<le> promise (states q ! n)"
      by (auto simp: extends_def)
    moreover from this(1) assms(2) have "promise (states q ! n) \<le> promise (states r ! n)"
      by (auto simp: extends_def)
    ultimately show ?thesis by (meson order.trans)
  qed
  moreover have "prefix (origins p) (origins r)" "prefix (posted p) (posted r)"
    using assms unfolding extends_def by (meson prefix_order.trans)+
  ultimately show ?thesis using assms by (simp add: extends_def)
qed

definition has_promise :: "'v pool \<Rightarrow> nat \<Rightarrow> bool" where
  "has_promise p n \<longleftrightarrow> n < length (states p) \<and> promise (states p ! n) \<noteq> Unset"

lemma extends_promise:
  "extends p p' \<Longrightarrow> has_promise p n \<Longrightarrow> promise (states p' ! n) = promise (states p ! n)"
  unfolding extends_def has_promise_def by (blast intro: promise_le_D)

definition born :: "'v pool \<Rightarrow> nat \<Rightarrow> 'v origin \<Rightarrow> bool" where
  "born p n x \<longleftrightarrow> n < length (states p) \<and> n < length (origins p) \<and> origins p ! n = x"

definition is_post :: "'v pool \<Rightarrow> nat \<Rightarrow> 'v task \<Rightarrow> bool" where
  "is_post p m t \<longleftrightarrow> m < length (posted p) \<and> posted p ! m = t"

lemma extends_mono:
  "extends p p' \<Longrightarrow> has_promise p n \<Longrightarrow> has_promise p' n"
  "extends p p' \<Longrightarrow> born p n x \<Longrightarrow> born p' n x"
  "extends p p' \<Longrightarrow> is_post p m t \<Longrightarrow> is_post p' m t"
  "extends p p' \<Longrightarrow> length (queues p') = length (queues p)"
  by (auto simp: extends_def has_promise_def born_def is_post_def prefix_nth dest: prefix_length_le)

section \<open>The shape of a thread\<close>

text \<open>A callable that may be executed now: its state exists and the state it waits for is completed.\<close>

fun task_ok :: "'v pool \<Rightarrow> 'v task \<Rightarrow> bool" where
  "task_ok p (Detached e) = True"
| "task_ok p (Posted e n) = born p n (From_post e)"
| "task_ok p (Continued m g n) = (has_promise p m \<and> born p n (From_then m g))"
| "task_ok p (Repost t) = ((\<forall>e. t \<noteq> Detached e) \<and> task_ok p t)"

text \<open>What state \<open>n\<close> may have stored: a continuation that waits for this very state.\<close>

definition stored_ok :: "'v pool \<Rightarrow> nat \<Rightarrow> 'v task \<Rightarrow> bool" where
  "stored_ok p n t \<longleftrightarrow> (\<exists>g m. (t = Continued n g m \<or> t = Repost (Continued n g m)) \<and>
     born p m (From_then n g))"

text \<open>A call of a callable or of the pool returns to one of these frames, user code to one of those
  (or it ends the thread of the application).\<close>

fun call_top :: "'v frame list \<Rightarrow> bool" where
  "call_top (Worker m # K) = True"
| "call_top (Catching n # K) = True"
| "call_top (User k # K) = True"
| "call_top _ = False"

fun user_top :: "bool \<Rightarrow> 'v frame list \<Rightarrow> bool" where
  "user_top w (Publish n # K) = True"
| "user_top w (Discard # K) = True"
| "user_top w [] = (\<not> w)"
| "user_top w _ = False"

definition detached_on :: "'v pool \<Rightarrow> 'v frame list \<Rightarrow> bool" where
  "detached_on p K \<longleftrightarrow> (\<exists>m e. K = [Worker m] \<and> is_post p m (Detached e))"

definition publishes :: "'v pool \<Rightarrow> nat \<Rightarrow> bool" where
  "publishes p n \<longleftrightarrow> (\<exists>e. born p n (From_post e)) \<or> (\<exists>m g. born p n (From_then m g) \<and> has_promise p m)"

fun stack_ok :: "bool \<Rightarrow> 'v pool \<Rightarrow> 'v frame list \<Rightarrow> bool" where
  "stack_ok w p [] = True"
| "stack_ok w p (Worker m # K) = (w \<and> K = [])"
| "stack_ok w p (Publish n # K) = (publishes p n \<and> call_top K \<and> stack_ok w p K)"
| "stack_ok w p (Catching n # K) = (call_top K \<and> stack_ok w p K)"
| "stack_ok w p (Discard # K) = (w \<and> detached_on p K)"
| "stack_ok w p (User k # K) = (user_top w K \<and> stack_ok w p K)"

definition invoke_ok :: "'v pool \<Rightarrow> 'v frame list \<Rightarrow> 'v task \<Rightarrow> bool" where
  "invoke_ok p K t \<longleftrightarrow> task_ok p t \<and> call_top K \<and> ((\<exists>e. t = Detached e) \<longrightarrow> detached_on p K)"

text \<open>An exception on its way never meets a \<open>try\<close> block whose state is completed already, and it
  reaches the loop of a worker only from a callable of \<open>post_detach\<close>.\<close>

fun raise_ok :: "bool \<Rightarrow> 'v pool \<Rightarrow> 'v frame list \<Rightarrow> bool" where
  "raise_ok w p [] = (\<not> w)"
| "raise_ok w p (Worker m # K) = detached_on p (Worker m # K)"
| "raise_ok w p (Catching n # K) = False"
| "raise_ok w p _ = True"

fun control_ok :: "nat \<Rightarrow> 'v pool \<Rightarrow> 'v frame list \<Rightarrow> 'v control \<Rightarrow> bool" where
  "control_ok i p K (Eval e) = user_top (i < length (queues p)) K"
| "control_ok i p K (Blocked m k) = user_top (i < length (queues p)) K"
| "control_ok i p K Ended = (K = [] \<and> \<not> i < length (queues p))"
| "control_ok i p K (Invoke t) = invoke_ok p K t"
| "control_ok i p K (Raise e) = raise_ok (i < length (queues p)) p K"
| "control_ok i p K (Choose t) = (task_ok p t \<and> call_top K)"
| "control_ok i p K (Count v t m) =
     (task_ok p t \<and> is_post p m t \<and> call_top K \<and> v < length (queues p))"
| "control_ok i p K (Push v t m) =
     (task_ok p t \<and> is_post p m t \<and> call_top K \<and> v < length (queues p))"
| "control_ok i p K (Steal_from v) = (i < length (queues p) \<and> K = [] \<and> v < length (queues p) \<and> v \<noteq> i)"
| "control_ok i p K Back = call_top K"
| "control_ok i p K Notify = call_top K"
| "control_ok i p K Await = (\<exists>k K'. K = User k # K')"
| "control_ok i p K Await_doze = (\<exists>k K'. K = User k # K')"
| "control_ok i p K Await_asleep = (\<exists>k K'. K = User k # K')"
| "control_ok i p K Stop = (\<exists>k K'. K = User k # K')"
| "control_ok i p K Stop_notify = (\<exists>k K'. K = User k # K')"
| "control_ok i p K (Join n) = (\<exists>k K'. K = User k # K')"
| "control_ok i p K c = (i < length (queues p) \<and> K = [])"

fun thread_ok :: "nat \<Rightarrow> 'v pool \<Rightarrow> 'v thread \<Rightarrow> bool" where
  "thread_ok i p (c, K) = (stack_ok (i < length (queues p)) p K \<and> control_ok i p K c)"

definition states_ok :: "'v pool \<Rightarrow> bool" where
  "states_ok p \<longleftrightarrow> length (origins p) = length (states p) \<and>
     (\<forall>n<length (states p). state_ok (states p ! n) \<and>
       (\<forall>t. continuation (states p ! n) = Some t \<longrightarrow> stored_ok p n t))"

definition queues_ok :: "'v pool \<Rightarrow> bool" where
  "queues_ok p \<longleftrightarrow> (\<forall>q\<in>set (queues p). \<forall>(t, m)\<in>set q. task_ok p t \<and> is_post p m t)"

section \<open>Growth keeps the shape\<close>

lemma task_ok_mono: "extends p p' \<Longrightarrow> task_ok p t \<Longrightarrow> task_ok p' t"
  by (induction t) (auto intro: extends_mono)

lemma stored_ok_mono: "extends p p' \<Longrightarrow> stored_ok p n t \<Longrightarrow> stored_ok p' n t"
  unfolding stored_ok_def by (blast intro: extends_mono)

lemma detached_on_mono: "extends p p' \<Longrightarrow> detached_on p K \<Longrightarrow> detached_on p' K"
  unfolding detached_on_def by (blast intro: extends_mono)

lemma publishes_mono: "extends p p' \<Longrightarrow> publishes p n \<Longrightarrow> publishes p' n"
  unfolding publishes_def by (blast intro: extends_mono)

lemma stack_ok_mono: "extends p p' \<Longrightarrow> stack_ok w p K \<Longrightarrow> stack_ok w p' K"
  by (induction w p K rule: stack_ok.induct) (auto intro: detached_on_mono publishes_mono)

lemma raise_ok_mono: "extends p p' \<Longrightarrow> raise_ok w p K \<Longrightarrow> raise_ok w p' K"
  by (cases "(w, p, K)" rule: raise_ok.cases) (auto intro: detached_on_mono)

lemma control_ok_mono: "extends p p' \<Longrightarrow> control_ok i p K c \<Longrightarrow> control_ok i p' K c"
  by (cases c) (auto simp: extends_mono(4) invoke_ok_def
      intro: task_ok_mono detached_on_mono raise_ok_mono extends_mono(3))

lemma thread_ok_mono: "extends p p' \<Longrightarrow> thread_ok i p t \<Longrightarrow> thread_ok i p' t"
  by (cases t) (auto simp: extends_mono(4) intro: stack_ok_mono control_ok_mono)

lemma states_ok_same:
  "extends p p' \<Longrightarrow> states p' = states p \<Longrightarrow> origins p' = origins p \<Longrightarrow> states_ok p \<Longrightarrow> states_ok p'"
  unfolding states_ok_def by (auto intro: stored_ok_mono)

lemma queues_ok_same:
  "extends p p' \<Longrightarrow> queues p' = queues p \<Longrightarrow> queues_ok p \<Longrightarrow> queues_ok p'"
  unfolding queues_ok_def by (fastforce intro: task_ok_mono extends_mono(3))

text \<open>What a step has to keep.\<close>

definition keeps :: "nat \<Rightarrow> 'v pool \<Rightarrow> 'v pool \<times> 'v thread \<Rightarrow> bool" where
  "keeps i p r \<longleftrightarrow> (case r of (p', t') \<Rightarrow>
     extends p p' \<and> states_ok p' \<and> queues_ok p' \<and> thread_ok i p' t')"

lemma keepsI:
  assumes "states_ok p" "queues_ok p" "extends p p'" "states p' = states p" "origins p' = origins p"
    "queues p' = queues p" "thread_ok i p (c, K)"
  shows "keeps i p (p', c, K)"
  using assms thread_ok_mono [OF assms(3,7)] unfolding keeps_def
  by (simp add: states_ok_same queues_ok_same del: thread_ok.simps)

text \<open>The step only changed state \<open>n\<close>.\<close>

lemma with_state_simps [simp]:
  "queues (with_state n p s) = queues p" "origins (with_state n p s) = origins p"
  "posted (with_state n p s) = posted p" "states (with_state n p s) = (states p)[n := s]"
  "finished (with_state n p s) = finished p" "unfinished (with_state n p s) = unfinished p"
  by (simp_all add: with_state_def)

lemma with_state_extends:
  assumes "promise (states p ! n) \<le> promise s"
  shows "extends p (with_state n p s)"
  using assms by (auto simp: extends_def nth_update)

lemma states_ok_with_state:
  assumes "states_ok p" "extends p (with_state n p s)" "state_ok s"
    and "\<And>t. continuation s = Some t \<Longrightarrow> stored_ok p n t"
  shows "states_ok (with_state n p s)"
  using assms stored_ok_mono [OF assms(2)]
  by (auto simp: states_ok_def nth_update split: if_splits)

lemma stored_task_ok: "stored_ok p n t \<Longrightarrow> has_promise p n \<Longrightarrow> task_ok p t \<and> (\<forall>e. t \<noteq> Detached e)"
  by (auto simp: stored_ok_def)

text \<open>Completing state \<open>n\<close> and going on with its continuation.\<close>

lemma complete_first:
  "promise s = Unset \<Longrightarrow> r \<noteq> Unset \<Longrightarrow>
   complete r s = (Ret (continuation s), s\<lparr>promise := r, completed := True, continuation := None\<rparr>)"
  by (cases r) (auto simp: complete_def)

lemma keeps_complete:
  assumes ok: "states_ok p" "queues_ok p" and n: "n < length (states p)" "promise (states p ! n) = Unset"
    and r: "r \<noteq> Unset" and K: "call_top K" "stack_ok (i < length (queues p)) p K"
  shows "keeps i p (with_state n p ((states p ! n)\<lparr>promise := r, completed := True, continuation := None\<rparr>),
    resume (continuation (states p ! n)) K)"
proof -
  let ?s = "(states p ! n)\<lparr>promise := r, completed := True, continuation := None\<rparr>"
  let ?p = "with_state n p ?s"
  have ext: "extends p ?p" using n by (intro with_state_extends) simp
  have st: "states_ok ?p"
    using ok n r by (intro states_ok_with_state ext) (auto simp: states_ok_def state_ok_def)
  have q: "queues_ok ?p" using ok(2) ext by (auto intro: queues_ok_same)
  have "has_promise ?p n" using n r by (simp add: has_promise_def)
  then have "task_ok ?p t \<and> (\<forall>e. t \<noteq> Detached e)" if "continuation (states p ! n) = Some t" for t
    using that ok(1) n ext stored_task_ok stored_ok_mono unfolding states_ok_def by blast
  then have "thread_ok i ?p (resume (continuation (states p ! n)) K)"
    using K stack_ok_mono [OF ext K(2)]
    by (cases "continuation (states p ! n)") (auto simp: invoke_ok_def)
  with ext st q show ?thesis by (simp add: keeps_def)
qed

lemma publishes_state: "publishes p n \<Longrightarrow> n < length (states p)"
  by (auto simp: publishes_def born_def)

lemma keeps_invoke:
  assumes "invoke_step t K p = Some r" "states_ok p" "queues_ok p" "stack_ok (i < length (queues p)) p K"
    "invoke_ok p K t"
  shows "keeps i p r"
proof (cases t)
  case (Continued m g n)
  with assms have "publishes p n" unfolding publishes_def invoke_ok_def by auto
  with assms Continued show ?thesis
    by (auto intro!: keepsI split: option.splits sum.splits simp: invoke_ok_def)
qed (use assms in \<open>auto intro!: keepsI simp: invoke_ok_def publishes_def detached_on_def\<close>)

lemma keeps_return:
  assumes "return_value v K p = Some r" "states_ok p" "queues_ok p" "stack_ok (i < length (queues p)) p K"
    "user_top (i < length (queues p)) K"
    and "\<And>n K'. K = Publish n # K' \<Longrightarrow> promise (states p ! n) = Unset"
  shows "keeps i p r"
proof (cases K)
  case Nil
  with assms show ?thesis by (auto intro!: keepsI)
next
  case (Cons F K')
  show ?thesis
  proof (cases F)
    case (Publish n)
    with Cons assms have "n < length (states p)" "promise (states p ! n) = Unset"
      by (auto simp: publishes_state)
    then show ?thesis
      using keeps_complete [of p n "Value v" "Catching n # K'" i] assms Cons Publish
      by (auto simp: set_value_def complete_first)
  qed (use assms Cons in \<open>auto intro!: keepsI simp: detached_on_def\<close>)
qed

lemma keeps_raise:
  assumes "raise_step e K p = Some r" "states_ok p" "queues_ok p" "stack_ok (i < length (queues p)) p K"
    "raise_ok (i < length (queues p)) p K"
    and "\<And>n K'. K = Publish n # K' \<Longrightarrow> promise (states p ! n) = Unset"
  shows "keeps i p r"
proof (cases K)
  case Nil
  with assms show ?thesis by (auto intro!: keepsI simp: extends_def)
next
  case (Cons F K')
  show ?thesis
  proof (cases F)
    case (Publish n)
    with Cons assms have "n < length (states p)" "promise (states p ! n) = Unset"
      by (auto simp: publishes_state)
    then show ?thesis
      using keeps_complete [of p n "Exception e" K' i] assms Cons Publish
      by (auto simp: set_exception_def complete_first)
  qed (use assms Cons in \<open>auto intro!: keepsI simp: detached_on_def extends_def\<close>)
qed

lemma keeps_back:
  assumes "back_step K p = Some r" "states_ok p" "queues_ok p" "stack_ok (i < length (queues p)) p K"
  shows "keeps i p r"
  using assms by (cases K) (auto intro!: keepsI split: frame.splits elim!: back_step.elims)

text \<open>The step only registered the shared future of state \<open>n\<close>.\<close>

lemma keeps_retrieved:
  assumes "states_ok p" "queues_ok p" "n < length (states p)"
    and "stack_ok (i < length (queues p)) p K" "user_top (i < length (queues p)) K"
    and "c = Eval e \<or> c = Blocked m k"
  shows "keeps i p (p\<lparr>states := (states p)[n := (states p ! n)
    \<lparr>promise_taken := True, future_retrieved := True\<rparr>]\<rparr>, c, K)"
proof -
  let ?s = "(states p ! n)\<lparr>promise_taken := True, future_retrieved := True\<rparr>"
  let ?p = "with_state n p ?s"
  have ext: "extends p ?p" by (intro with_state_extends) simp
  moreover have "states_ok ?p"
    using assms by (intro states_ok_with_state ext) (auto simp: states_ok_def state_ok_def)
  moreover have "queues_ok ?p" using assms ext by (auto intro: queues_ok_same)
  ultimately show ?thesis
    using assms stack_ok_mono [OF ext assms(4)] by (auto simp: keeps_def with_state_def)
qed

text \<open>The step created a state after registering with state \<open>n\<close>.\<close>

lemma create_state:
  assumes ok: "states_ok p" "queues_ok p"
    and s: "promise s = promise (states p ! n)" "n < length (states p) \<Longrightarrow> state_ok s"
      "\<And>t. n < length (states p) \<Longrightarrow> continuation s = Some t \<Longrightarrow> stored_ok p n t \<or>
        (\<exists>g. x = From_then n g \<and> (t = Continued n g (length (states p)) \<or>
          t = Repost (Continued n g (length (states p)))))"
    and new: "state_ok s'" "promise s' = Unset" "continuation s' = None"
    and p': "p' = p\<lparr>states := (states p)[n := s] @ [s'], origins := origins p @ [x]\<rparr>"
  shows "extends p p' \<and> states_ok p' \<and> queues_ok p' \<and> born p' (length (states p)) x"
proof -
  have len: "length (origins p) = length (states p)" using ok(1) by (simp add: states_ok_def)
  have ext: "extends p p'"
    using s(1) by (auto simp: p' extends_def nth_append nth_update)
  have b: "born p' (length (states p)) x" using len by (simp add: born_def p' nth_append)
  have "stored_ok p' n t" if "n < length (states p)" "continuation s = Some t" for t
    using s(3) [OF that] b stored_ok_mono [OF ext] unfolding stored_ok_def by blast
  then have "states_ok p'"
    using ok(1) len s(2) new stored_ok_mono [OF ext] unfolding states_ok_def
    by (auto simp: p' nth_append nth_update less_Suc_eq split: if_splits)
  moreover have "queues_ok p'" using ok(2) ext by (auto intro: queues_ok_same simp: p')
  ultimately show ?thesis using ext b by simp
qed

lemma new_state_fields [simp]:
  "promise new_state = Unset" "continuation new_state = None" "state_ok (set_pool q new_state)"
  "promise (set_pool q s) = promise s" "continuation (set_pool q s) = continuation s"
  by (simp_all add: new_state_def set_pool_def state_ok_def)

lemma keeps_new_future:
  assumes "new_future x p = (n, p')" "states_ok p" "queues_ok p"
  shows "extends p p' \<and> states_ok p' \<and> queues_ok p' \<and> born p' n x"
  using create_state [OF assms(2,3), of "states p ! length (states p)" "length (states p)" x
      "set_pool (Some 0) new_state" p'] assms(1)
  by (auto simp: new_future_def)

lemma then_cases:
  assumes "then_impl f g inline_exec (states p) = (x, ss)" "states_ok p" "handle_ok f p"
  obtains (fails) e where "f = None" "x = Inl e" "ss = states p"
  | (no_pool) n where "f = Some n" "n < length (states p)" "x = Inl no_pool"
      "ss = (states p)[n := (states p ! n)\<lparr>promise_taken := True, future_retrieved := True\<rparr>]"
  | (created) n now s t where "f = Some n" "n < length (states p)" "x = Inr (length (states p), now)"
      "ss = (states p)[n := s] @ [set_pool (get_pool (states p ! n)) new_state]"
      "set_continuation t ((states p ! n)\<lparr>promise_taken := True, future_retrieved := True\<rparr>) = (now, s)"
      "t = Continued n g (length (states p)) \<or> t = Repost (Continued n g (length (states p)))"
proof (cases f)
  case None
  with assms fails [of no_state] show thesis by (simp add: then_impl_def)
next
  case (Some n)
  let ?s = "(states p ! n)\<lparr>promise_taken := True, future_retrieved := True\<rparr>"
  from Some assms(3) have n: "n < length (states p)" by (simp add: handle_ok_def)
  with assms(2) have "state_ok (states p ! n)" by (simp add: states_ok_def)
  then have gf: "get_future (states p ! n) = (Ret (), ?s)" by (rule get_future_ok)
  let ?c = "Continued n g (length (states p))"
  obtain now s where sc: "set_continuation ?c ?s = (now, s)" by fastforce
  obtain now' s' where sr: "set_continuation (Repost ?c) ?s = (now', s')" by fastforce
  show thesis
  proof (cases inline_exec)
    case True
    with assms(1) Some gf sc show thesis
      by (intro created [of n now s ?c]) (auto simp: then_impl_def Let_def n)
  next
    case False
    show thesis
    proof (cases "get_pool ?s")
      case None
      with assms(1) Some gf False show thesis
        by (intro no_pool [of n]) (auto simp: then_impl_def Let_def n)
    next
      case (Some q)
      with assms(1) \<open>f = Some n\<close> gf False sr show thesis
        by (intro created [of n now' s' "Repost ?c"]) (auto simp: then_impl_def Let_def n)
    qed
  qed
qed

lemma set_continuation_ok:
  assumes "set_continuation t s = (now, s')" "state_ok s"
  shows "promise s' = promise s" "state_ok s'"
    "continuation s' = Some t' \<Longrightarrow> continuation s = Some t' \<or> t' = t"
    "now = Some t' \<Longrightarrow> t' = t \<and> promise s \<noteq> Unset"
  using assms by (auto simp: set_continuation_def state_ok_def split: if_splits)

lemma keeps_then:
  assumes "eval_step (Then f g inline_exec k) K p = Some r" "states_ok p" "queues_ok p"
    "stack_ok (i < length (queues p)) p K" "user_top (i < length (queues p)) K"
  shows "keeps i p r"
proof -
  obtain x ss where t: "then_impl f g inline_exec (states p) = (x, ss)" by fastforce
  from assms(1) have h: "handle_ok f p" by (simp split: if_splits)
  from t assms(2) h show ?thesis
  proof (cases rule: then_cases)
    case (fails e)
    with t h assms show ?thesis by (auto intro!: keepsI)
  next
    case (no_pool n)
    with t h assms show ?thesis by (auto intro!: keeps_retrieved)
  next
    case (created n now s c)
    let ?s0 = "(states p ! n)\<lparr>promise_taken := True, future_retrieved := True\<rparr>"
    let ?k = "\<lambda>r. k (case r of None \<Rightarrow> Inr (Some (length (states p))) | Some e \<Rightarrow> Inl e)"
    define p' where "p' = p\<lparr>states := (states p)[n := s] @ [set_pool (get_pool (states p ! n)) new_state],
      origins := origins p @ [From_then n g]\<rparr>"
    have r: "r = (p', resume now (User ?k # K))"
      using assms(1) t created h by (auto simp: p'_def split: if_splits)
    have "state_ok ?s0" using assms(2) created(2) by (auto simp: states_ok_def state_ok_def)
    note sc = set_continuation_ok [OF created(5) this]
    have "extends p p' \<and> states_ok p' \<and> queues_ok p' \<and> born p' (length (states p)) (From_then n g)"
    proof (rule create_state [OF assms(2,3) _ _ _ _ _ _ p'_def])
      show "stored_ok p n t' \<or> (\<exists>g'. From_then n g = From_then n g' \<and>
          (t' = Continued n g' (length (states p)) \<or> t' = Repost (Continued n g' (length (states p)))))"
        if "continuation s = Some t'" for t'
        using sc(3) [OF that] assms(2) created(2,6) by (auto simp: states_ok_def)
    qed (use sc in auto)
    moreover from this have "has_promise p' n" if "promise (states p ! n) \<noteq> Unset"
      using that created(2) extends_mono(1) unfolding has_promise_def by blast
    ultimately show ?thesis
      using sc(4) created(6) assms(4,5) stack_ok_mono [of p p' _ K] unfolding r
      by (cases now) (auto simp: keeps_def invoke_ok_def extends_mono(4))
  qed
qed

lemma keeps_get:
  assumes "handle_ok f p" "states_ok p" "queues_ok p"
    and "stack_ok (i < length (queues p)) p K" "user_top (i < length (queues p)) K"
  shows "keeps i p (let (r, ss) = future_get f (states p) in (p\<lparr>states := ss\<rparr>, block_on f k r, K))"
    and "keeps i p (let (r, ss) = future_wait f (states p)
      in (p\<lparr>states := ss\<rparr>, (case r of Some r \<Rightarrow> Eval (k' r) | None \<Rightarrow> Blocked (the f) (\<lambda>_. k' (Inr ()))), K))"
proof -
  have gf: "get_future (states p ! n) = (Ret (), (states p ! n)\<lparr>promise_taken := True, future_retrieved := True\<rparr>)"
    if "f = Some n" for n
    using that assms(1,2) by (intro get_future_ok) (auto simp: handle_ok_def states_ok_def)
  show "keeps i p (let (r, ss) = future_get f (states p) in (p\<lparr>states := ss\<rparr>, block_on f k r, K))"
    using assms gf by (cases f) (auto intro!: keepsI keeps_retrieved
        simp: future_get_def block_on_def handle_ok_def split: option.splits)
  show "keeps i p (let (r, ss) = future_wait f (states p)
      in (p\<lparr>states := ss\<rparr>, (case r of Some r \<Rightarrow> Eval (k' r) | None \<Rightarrow> Blocked (the f) (\<lambda>_. k' (Inr ()))), K))"
    using assms gf by (cases f) (auto intro!: keepsI keeps_retrieved
        simp: future_wait_def handle_ok_def split: option.splits)
qed

lemma keeps_eval:
  assumes "eval_step e K p = Some r" "states_ok p" "queues_ok p"
    "stack_ok (i < length (queues p)) p K" "user_top (i < length (queues p)) K"
    and "\<And>n K'. K = Publish n # K' \<Longrightarrow> promise (states p ! n) = Unset"
  shows "keeps i p r"
proof (cases e)
  case (Done x)
  show ?thesis
  proof (cases x)
    case (Inr v)
    with Done assms show ?thesis by (auto intro: keeps_return)
  next
    case (Inl x)
    with Done assms have "r = (p, Raise x, K)" by simp
    moreover have "raise_ok (i < length (queues p)) p K"
      using assms(4,5) by (cases "(i < length (queues p), p, K)" rule: raise_ok.cases) auto
    ultimately show ?thesis using assms by (auto intro!: keepsI)
  qed
next
  case (Post e' k)
  obtain n p' where n: "new_future (From_post e') p = (n, p')" by fastforce
  from keeps_new_future [OF this assms(2,3)] have "extends p p'" "states_ok p'" "queues_ok p'"
    "born p' n (From_post e')" by auto
  with Post n assms show ?thesis
    by (auto simp: keeps_def extends_mono(4) intro: stack_ok_mono)
next
  case (Then f g inl k)
  with assms show ?thesis by (blast intro: keeps_then)
next
  case (Get f k)
  with assms have h: "handle_ok f p" by (simp split: if_splits)
  with Get assms keeps_get(1) [OF h assms(2-5), of k] show ?thesis
    by (cases "future_get f (states p)") simp
next
  case (Wait_for f k)
  with assms have h: "handle_ok f p" by (simp split: if_splits)
  with Wait_for assms keeps_get(2) [OF h assms(2-5), of k] show ?thesis
    by (cases "future_wait f (states p)") simp
qed (use assms in \<open>auto intro!: keepsI\<close>)

lemma queues_ok_nth:
  "queues_ok p \<Longrightarrow> v < length (queues p) \<Longrightarrow> (t, m) \<in> set (queues p ! v) \<Longrightarrow> task_ok p t \<and> is_post p m t"
  unfolding queues_ok_def by fastforce

text \<open>The step only changed the queue of worker \<open>v\<close>.\<close>

lemma change_queue:
  assumes "states_ok p" "queues_ok p" "\<And>t m. (t, m) \<in> set q \<Longrightarrow> task_ok p t \<and> is_post p m t"
    and p': "p' = p\<lparr>queues := (queues p)[v := q]\<rparr>"
  shows "extends p p' \<and> states_ok p' \<and> queues_ok p'"
proof -
  have ext: "extends p p'" by (simp add: extends_def p')
  moreover have "states_ok p'" using assms(1) ext by (auto intro: states_ok_same simp: p')
  moreover have "queues_ok p'"
    using assms(2,3) task_ok_mono [OF ext] extends_mono(3) [OF ext]
    unfolding queues_ok_def by (fastforce simp: p' dest!: set_update_subset_insert [THEN subsetD])
  ultimately show ?thesis by simp
qed

lemma keeps_post:
  assumes "post_step j c p = Some (p', c')" "states_ok p" "queues_ok p"
    "stack_ok (i < length (queues p)) p K" "control_ok i p K c"
  shows "keeps i p (p', c', K)"
proof (cases "(j, c, p)" rule: post_step.cases)
  case (1 j t p)
  show ?thesis
  proof (cases "queues p = []")
    case True
    with 1 assms show ?thesis by (auto intro!: keepsI simp: extends_def)
  next
    case False
    define p1 where "p1 = p\<lparr>round_index := round_index p + 1, posted := posted p @ [t]\<rparr>"
    have ext: "extends p p1" by (simp add: p1_def extends_def)
    have "is_post p1 (length (posted p)) t" by (simp add: p1_def is_post_def nth_append)
    then have "keeps i p1 (p1, Count (unat (round_index p) mod length (queues p)) t (length (posted p)), K)"
      using 1 False assms ext
      by (intro keepsI) (auto intro: states_ok_same queues_ok_same task_ok_mono stack_ok_mono
          simp: p1_def)
    with 1 False assms ext show ?thesis
      by (auto simp: choose_victim_def p1_def [symmetric] keeps_def)
  qed
next
  case (3 j v t m p)
  with assms have "(t', m') \<in> set ((t, m) # queues p ! v) \<Longrightarrow> task_ok p t' \<and> is_post p m' t'" for t' m'
    using queues_ok_nth [of p v] by auto
  with 3 assms change_queue [of p "(t, m) # queues p ! v" p' v] stack_ok_mono [of p p' _ K]
  show ?thesis by (auto simp: keeps_def)
qed (use assms in \<open>auto intro!: keepsI simp: extends_def notify_one_def split: if_splits\<close>)

lemma keeps_take:
  assumes "states_ok p" "queues_ok p" "i < length (queues p)" "v < length (queues p)"
    and "set q \<subseteq> set (queues p ! v)" "(t, m) \<in> set (queues p ! v)"
  shows "keeps i p (p\<lparr>queues := (queues p)[v := q]\<rparr>, Invoke t, [Worker m])"
proof -
  let ?p = "p\<lparr>queues := (queues p)[v := q]\<rparr>"
  from assms(5) have "(t', m') \<in> set q \<Longrightarrow> task_ok p t' \<and> is_post p m' t'" for t' m'
    using queues_ok_nth [OF assms(2,4)] by blast
  with change_queue [OF assms(1,2), of q ?p v] have ext: "extends p ?p" "states_ok ?p" "queues_ok ?p"
    by auto
  have "task_ok p t" "is_post p m t" using queues_ok_nth [OF assms(2,4,6)] by auto
  then have "task_ok ?p t" "is_post ?p m t"
    using ext(1) by (blast intro: task_ok_mono, blast intro: extends_mono)
  with ext assms(3) show ?thesis by (auto simp: keeps_def invoke_ok_def detached_on_def)
qed

lemma keeps_work:
  assumes "work_step i c p = Some r" "states_ok p" "queues_ok p"
    "i < length (queues p)" "\<And>v. c = Steal_from v \<Longrightarrow> v < length (queues p)"
  shows "keeps i p r"
proof (cases "(i, c, p)" rule: work_step.cases)
  case (2 i p)
  show ?thesis
  proof (cases "queues p ! i")
    case (Cons x q)
    with 2 assms have "r = (p\<lparr>queues := (queues p)[i := q]\<rparr>, Invoke (fst x), [Worker (snd x)])"
      by (auto split: prod.splits)
    with 2 assms Cons show ?thesis by (simp add: keeps_take subset_insertI)
  qed (use 2 assms in \<open>auto intro!: keepsI\<close>)
next
  case (3 i p)
  let ?v = "unat (round_index p) mod length (queues p)"
  have "0 < length (queues p)" using 3 assms by (cases "queues p") auto
  then have "?v < length (queues p)" "(?v + 1) mod length (queues p) < length (queues p)" by simp_all
  moreover have "(?v + 1) mod length (queues p) \<noteq> ?v" if "1 < length (queues p)"
    using that \<open>?v < length (queues p)\<close> by (cases "Suc ?v = length (queues p)") auto
  ultimately show ?thesis using 3 assms
    by (auto intro!: keepsI simp: choose_victim_def extends_def Let_def split: if_splits)
next
  case (4 i v p)
  show ?thesis
  proof (cases "queues p ! v = []")
    case False
    with 4 assms have "r = (p\<lparr>queues := (queues p)[v := butlast (queues p ! v)]\<rparr>,
        Invoke (fst (last (queues p ! v))), [Worker (snd (last (queues p ! v)))])"
      by (simp add: Let_def)
    with 4 assms False show ?thesis by (auto intro!: keeps_take dest: in_set_butlastD)
  qed (use 4 assms in \<open>auto intro!: keepsI\<close>)
qed (use assms in \<open>auto intro!: keepsI simp: extends_def split: if_splits\<close>)

lemma keeps_wait:
  assumes "wait_step i c p = Some (p', c')" "states_ok p" "queues_ok p"
    "stack_ok (i < length (queues p)) p K" "control_ok i p K c"
  shows "keeps i p (p', c', K)"
  using assms by (cases "(i, c, p)" rule: wait_step.cases)
    (auto intro!: keepsI simp: extends_def split: if_splits)

lemma keeps_stop:
  assumes "stop_step i c p = Some (p', c')" "states_ok p" "queues_ok p"
    "stack_ok (i < length (queues p)) p K" "control_ok i p K c"
  shows "keeps i p (p', c', K)"
  using assms by (cases "(i, c, p)" rule: stop_step.cases)
    (auto intro!: keepsI simp: extends_def split: if_splits)

lemma lift_SomeE:
  assumes "lift K r = Some x"
  obtains p c where "r = Some (p, c)" "x = (p, c, K)"
  using assms by (auto simp: lift_def split: option.splits)

text \<open>Every step keeps the shape, provided the promise a lambda is about to complete is open.\<close>

lemma keeps_step:
  assumes "thread_step j i (c, K) p = Some r" "states_ok p" "queues_ok p" "thread_ok i p (c, K)"
    and "\<And>n K'. K = Publish n # K' \<Longrightarrow> promise (states p ! n) = Unset"
  shows "keeps i p r"
proof -
  have K: "stack_ok (i < length (queues p)) p K" and c: "control_ok i p K c" using assms(4) by auto
  show ?thesis
  proof (cases c)
    case (Eval e)
    with assms c K show ?thesis by (auto intro: keeps_eval)
  next
    case (Blocked n k)
    with assms c K show ?thesis by (auto intro!: keepsI split: option.splits)
  next
    case (Invoke t)
    with assms c K show ?thesis by (auto intro: keeps_invoke)
  next
    case Back
    with assms c K show ?thesis by (auto intro: keeps_back)
  next
    case (Raise e)
    with assms c K show ?thesis by (auto intro: keeps_raise)
  qed (use assms(1-3) c K in \<open>auto elim!: lift_SomeE
      intro: keeps_post keeps_wait keeps_stop keeps_work simp del: post_step.simps wait_step.simps
        stop_step.simps work_step.simps\<close>)
qed

end
