(* ===== verification/PoolTasks.thy ===== *)
theory PoolTasks
  imports PoolShape
begin

text \<open>
  The accounting of the pool. Every post is in exactly one place from its number on: being submitted,
  in a queue, running on a worker, or finished; \<open>unfinished_\<close> counts those that were counted and are
  not finished, whatever the interleaving. Every promise has at most one callable that will complete
  it, so no promise is completed twice. Both are equations of multisets over the machine.
\<close>

section \<open>Posts\<close>

fun frame_posts :: "'v frame \<Rightarrow> nat multiset" where
  "frame_posts (Worker m) = {#m#}"
| "frame_posts _ = {#}"

fun uncounted :: "'v thread \<Rightarrow> nat multiset" where
  "uncounted (Count v t m, K) = {#m#}"
| "uncounted _ = {#}"

fun control_posts :: "'v control \<Rightarrow> nat multiset" where
  "control_posts (Push v t m) = {#m#}"
| "control_posts (Finish m) = {#m#}"
| "control_posts _ = {#}"

fun counted :: "'v thread \<Rightarrow> nat multiset" where
  "counted (c, K) = control_posts c + sum_list (map frame_posts K)"

text \<open>Those a worker has taken and not counted off.\<close>

fun finishing :: "'v control \<Rightarrow> nat multiset" where
  "finishing (Finish m) = {#m#}"
| "finishing _ = {#}"

fun on_worker :: "'v thread \<Rightarrow> nat multiset" where
  "on_worker (c, K) = finishing c + sum_list (map frame_posts K)"

definition queued :: "'v pool \<Rightarrow> nat multiset" where
  "queued p = sum_list (map (\<lambda>q. mset (map snd q)) (queues p))"

lemma queued_update:
  assumes "v < length (queues p)" "p' = p\<lparr>queues := (queues p)[v := q]\<rparr>"
  shows "queued p' + mset (map snd (queues p ! v)) = queued p + mset (map snd q)"
  unfolding queued_def assms(2)
  using sum_list_update [OF assms(1), of "\<lambda>q. mset (map snd q)" q] by simp

lemma resume_posts [simp]:
  "counted (resume c K) = sum_list (map frame_posts K)" "uncounted (resume c K) = {#}"
  "on_worker (resume c K) = sum_list (map frame_posts K)"
  by (cases c; simp)+

text \<open>What a step does to a post: nothing or the move from a thread that submits it to a queue, or it
  starts it on a worker, gives it its number, counts it, or finishes it.\<close>

inductive balanced :: "'v pool \<Rightarrow> 'v thread \<Rightarrow> 'v pool \<Rightarrow> 'v thread \<Rightarrow> bool" where
  moved: "counted t' + queued p' = counted t + queued p \<Longrightarrow> uncounted t' = uncounted t \<Longrightarrow>
    on_worker t' = on_worker t \<Longrightarrow> posted p' = posted p \<Longrightarrow> finished p' = finished p \<Longrightarrow>
    unfinished p' = unfinished p \<Longrightarrow> balanced p t p' t'"
| now_started: "counted t' + queued p' = counted t + queued p \<Longrightarrow> uncounted t' = uncounted t \<Longrightarrow>
    on_worker t' = add_mset m (on_worker t) \<Longrightarrow> posted p' = posted p \<Longrightarrow> finished p' = finished p \<Longrightarrow>
    unfinished p' = unfinished p \<Longrightarrow> balanced p t p' t'"
| numbered: "counted t' = counted t \<Longrightarrow> queued p' = queued p \<Longrightarrow> on_worker t' = on_worker t \<Longrightarrow>
    uncounted t' = add_mset (length (posted p)) (uncounted t) \<Longrightarrow> posted p' = posted p @ [x] \<Longrightarrow>
    finished p' = finished p \<Longrightarrow> unfinished p' = unfinished p \<Longrightarrow> balanced p t p' t'"
| now_counted: "counted t' = add_mset m (counted t) \<Longrightarrow> uncounted t = add_mset m (uncounted t') \<Longrightarrow>
    on_worker t' = on_worker t \<Longrightarrow> queued p' = queued p \<Longrightarrow> posted p' = posted p \<Longrightarrow>
    finished p' = finished p \<Longrightarrow> unfinished p' = unfinished p + 1 \<Longrightarrow> balanced p t p' t'"
| now_finished: "counted t = add_mset m (counted t') \<Longrightarrow> uncounted t' = uncounted t \<Longrightarrow>
    on_worker t = add_mset m (on_worker t') \<Longrightarrow> queued p' = queued p \<Longrightarrow> posted p' = posted p \<Longrightarrow>
    finished p' = m # finished p \<Longrightarrow> unfinished p' = unfinished p - 1 \<Longrightarrow> balanced p t p' t'"

lemma balanced_same:
  assumes "queues p' = queues p" "finished p' = finished p" "posted p' = posted p"
    "unfinished p' = unfinished p" "uncounted t' = uncounted t" "counted t' = counted t"
    "on_worker t' = on_worker t"
  shows "balanced p t p' t'"
  using assms by (intro moved) (simp_all add: queued_def)

lemma balanced_post:
  assumes "post_step j c p = Some (p', c')" "control_ok i p K c"
  shows "balanced p (c, K) p' (c', K)"
proof (cases "(j, c, p)" rule: post_step.cases)
  case (1 j t p)
  show ?thesis
  proof (cases "queues p = []")
    case False
    with 1 assms show ?thesis
      by (intro numbered [where x = t]) (auto simp: choose_victim_def queued_def)
  qed (use 1 assms in \<open>auto intro!: balanced_same\<close>)
next
  case (2 j v t m p)
  with assms show ?thesis by (intro now_counted [where m = m]) (auto simp: queued_def)
next
  case (3 j v t m p)
  with assms have "v < length (queues p)" by simp
  from queued_update [OF this refl, of "(t, m) # queues p ! v"] 3 assms
  have "queued p' = add_mset m (queued p)" by auto
  with 3 assms show ?thesis by (intro moved) auto
next
  case (4 j p)
  with assms show ?thesis
    by (auto intro!: balanced_same simp: notify_one_def split: if_splits)
qed (use assms in simp_all)

lemma balanced_work:
  assumes "work_step i c p = Some (p', t')" "control_ok i p K c" "K = []"
  shows "balanced p (c, K) p' t'"
proof (cases "(i, c, p)" rule: work_step.cases)
  case (2 i p)
  show ?thesis
  proof (cases "queues p ! i")
    case (Cons x q)
    with 2 assms queued_update [OF _ refl, of i p q] show ?thesis
      by (intro now_started [where m = "snd x"]) (auto split: prod.splits)
  qed (use 2 assms in \<open>auto intro!: balanced_same\<close>)
next
  case (3 i p)
  with assms show ?thesis
    by (auto intro!: balanced_same simp: choose_victim_def Let_def split: if_splits)
next
  case (4 i v p)
  show ?thesis
  proof (cases "queues p ! v = []")
    case False
    let ?l = "last (queues p ! v)" and ?q = "butlast (queues p ! v)"
    have "mset (map snd (queues p ! v)) = mset (map snd (?q @ [?l]))" using False by simp
    then have q: "mset (map snd (queues p ! v)) = add_mset (snd ?l) (mset (map snd ?q))" by simp
    from 4 assms False have r: "p' = p\<lparr>queues := (queues p)[v := ?q]\<rparr>"
      "t' = (Invoke (fst ?l), [Worker (snd ?l)])" "v < length (queues p)" by (auto simp: Let_def)
    from queued_update [OF r(3,1)] q have "queued p = add_mset (snd ?l) (queued p')" by simp
    with 4 assms(3) r show ?thesis
      by (intro now_started [where m = "snd ?l"]) simp_all
  qed (use 4 assms in \<open>auto intro!: balanced_same\<close>)
next
  case (5 i m p)
  with assms show ?thesis by (intro now_finished [where m = m]) (auto simp: queued_def)
qed (use assms in \<open>auto intro!: balanced_same split: if_splits\<close>)

lemma resume_cases:
  obtains "resume c K = (Back, K)" | t where "resume c K = (Invoke t, K)"
  by (cases c) auto

lemma balanced_invoke:
  "invoke_step t K p = Some (p', t') \<Longrightarrow> balanced p (Invoke t, K) p' t'"
  by (cases t) (auto intro!: balanced_same split: option.splits sum.splits)

lemma balanced_raise:
  "raise_step e K p = Some (p', t') \<Longrightarrow> balanced p (Raise e, K) p' t'"
  by (cases "(e, K, p)" rule: raise_step.cases)
    (auto intro!: balanced_same simp: Let_def split: frame.splits outcome.splits prod.splits)

lemma balanced_return:
  "return_value v K p = Some (p', t') \<Longrightarrow> balanced p (Eval e, K) p' t'"
  by (cases "(v, K, p)" rule: return_value.cases)
    (auto intro!: balanced_same split: outcome.splits prod.splits)

lemma balanced_eval:
  "eval_step e K p = Some (p', t') \<Longrightarrow> balanced p (Eval e, K) p' t'"
proof (cases "(e, K, p)" rule: eval_step.cases)
  case (1 v K' p0)
  moreover assume "eval_step e K p = Some (p', t')"
  ultimately have "return_value v K p = Some (p', t')" by simp
  then have "balanced p (Eval (Done (Inr v)), K) p' t'" by (rule balanced_return)
  with 1 show ?thesis by simp
qed (auto intro!: balanced_same simp: new_future_def block_on_def
    split: prod.splits sum.splits option.splits if_splits)

lemma balanced_step:
  assumes "thread_step j i (c, K) p = Some (p', t')" "control_ok i p K c"
  shows "balanced p (c, K) p' t'"
proof (cases c)
  case (Eval e)
  with assms show ?thesis by (auto intro: balanced_eval)
next
  case (Blocked n k)
  with assms show ?thesis by (auto intro!: balanced_same split: option.splits)
next
  case (Invoke t)
  with assms show ?thesis by (auto intro: balanced_invoke)
next
  case Back
  with assms show ?thesis
    by (cases "(K, p)" rule: back_step.cases) (auto intro!: balanced_same)
next
  case (Raise e)
  with assms show ?thesis by (auto intro: balanced_raise)
next
  case Stop with assms show ?thesis by (auto intro!: balanced_same simp: lift_def)
next
  case Stop_notify with assms show ?thesis by (auto intro!: balanced_same simp: lift_def)
next
  case (Join k)
  with assms show ?thesis by (auto intro!: balanced_same simp: lift_def split: if_splits)
next
  case Await with assms show ?thesis by (auto intro!: balanced_same simp: lift_def split: if_splits)
next
  case Await_doze with assms show ?thesis by (auto intro!: balanced_same simp: lift_def)
next
  case Await_asleep
  with assms show ?thesis by (auto intro!: balanced_same simp: lift_def split: if_splits)
qed (use assms in \<open>auto elim!: lift_SomeE intro: balanced_post balanced_work
    simp del: post_step.simps work_step.simps\<close>)


section \<open>Promises\<close>

text \<open>The state a callable will complete, and those that the frames of a thread will.\<close>

fun task_claims :: "'v task \<Rightarrow> nat multiset" where
  "task_claims (Detached e) = {#}"
| "task_claims (Posted e n) = {#n#}"
| "task_claims (Continued m g n) = {#n#}"
| "task_claims (Repost t) = task_claims t"

definition opt_claims :: "'v task option \<Rightarrow> nat multiset" where
  "opt_claims c = (case c of None \<Rightarrow> {#} | Some t \<Rightarrow> task_claims t)"

lemma opt_claims_simps [simp]: "opt_claims None = {#}" "opt_claims (Some t) = task_claims t"
  by (simp_all add: opt_claims_def)

fun frame_claims :: "'v frame \<Rightarrow> nat multiset" where
  "frame_claims (Publish n) = {#n#}"
| "frame_claims _ = {#}"

fun control_claims :: "'v control \<Rightarrow> nat multiset" where
  "control_claims (Invoke t) = task_claims t"
| "control_claims (Choose t) = task_claims t"
| "control_claims (Count v t m) = task_claims t"
| "control_claims (Push v t m) = task_claims t"
| "control_claims _ = {#}"

fun thread_claims :: "'v thread \<Rightarrow> nat multiset" where
  "thread_claims (c, K) = control_claims c + sum_list (map frame_claims K)"

definition queue_claims :: "'v pool \<Rightarrow> nat multiset" where
  "queue_claims p = sum_list (map (\<lambda>q. sum_list (map (task_claims \<circ> fst) q)) (queues p))"

text \<open>A completed state holds its own claim for good.\<close>

fun state_claim :: "nat \<times> ('v, 'v task) SharedState \<Rightarrow> nat multiset" where
  "state_claim (n, s) = opt_claims (continuation s) + (if promise s = Unset then {#} else {#n#})"

definition state_claims :: "'v states \<Rightarrow> nat multiset" where
  "state_claims ss = sum_list (map state_claim (enumerate 0 ss))"

lemma enumerate_update: "enumerate k (xs[n := x]) = (enumerate k xs)[n := (k + n, x)]"
  by (auto simp: list_eq_iff_nth_eq nth_enumerate_eq nth_update)

lemma state_claims_update:
  assumes "n < length ss"
  shows "state_claims (ss[n := s]) + state_claim (n, ss ! n) = state_claims ss + state_claim (n, s)"
  using sum_list_update [of n "enumerate 0 ss" state_claim "(n, s)"] assms
  by (simp add: state_claims_def enumerate_update nth_enumerate_eq)

lemma state_claims_append [simp]:
  "state_claims (ss @ [s]) = state_claims ss + state_claim (length ss, s)"
  by (simp add: state_claims_def enumerate_append_eq)

lemma state_claims_same:
  "state_claim (n, s) = state_claim (n, ss ! n) \<Longrightarrow> state_claims (ss[n := s]) = state_claims ss"
  using state_claims_update [of n ss s] by (cases "n < length ss") (simp_all add: list_update_beyond)

lemma queue_claims_update:
  assumes "v < length (queues p)" "p' = p\<lparr>queues := (queues p)[v := q]\<rparr>"
  shows "queue_claims p' + sum_list (map (task_claims \<circ> fst) (queues p ! v)) =
    queue_claims p + sum_list (map (task_claims \<circ> fst) q)"
  unfolding queue_claims_def assms(2)
  using sum_list_update [OF assms(1), of "\<lambda>q. sum_list (map (task_claims \<circ> fst) q)" q] by simp

lemma resume_claims [simp]:
  "thread_claims (resume c K) = opt_claims c + sum_list (map frame_claims K)"
  by (cases c) simp_all

text \<open>A step makes no claim but on states it creates.\<close>

definition claims :: "'v pool \<Rightarrow> 'v thread \<Rightarrow> nat multiset" where
  "claims p t = thread_claims t + queue_claims p + state_claims (states p)"

definition claims_ok :: "'v pool \<Rightarrow> 'v thread \<Rightarrow> 'v pool \<Rightarrow> 'v thread \<Rightarrow> bool" where
  "claims_ok p t p' t' \<longleftrightarrow>
     claims p' t' \<subseteq># claims p t + mset [length (states p)..<length (states p')]"

lemma claims_same:
  assumes "queues p' = queues p" "states p' = states p" "thread_claims t' \<subseteq># thread_claims t"
  shows "claims_ok p t p' t'"
  using assms by (simp add: claims_ok_def claims_def queue_claims_def)

lemma claims_complete:
  assumes "n < length (states p)" "promise (states p ! n) = Unset" "r \<noteq> Unset"
    and "control_claims c = {#}" "sum_list (map frame_claims K') = sum_list (map frame_claims K)"
  shows "claims_ok p (c, Publish n # K)
    (with_state n p ((states p ! n)\<lparr>promise := r, completed := True, continuation := None\<rparr>))
    (resume (continuation (states p ! n)) K')"
  using state_claims_update [OF assms(1), of
      "(states p ! n)\<lparr>promise := r, completed := True, continuation := None\<rparr>"] assms
  by (simp add: claims_ok_def claims_def queue_claims_def ac_simps)

lemma claims_raise:
  assumes "raise_step e K p = Some (p', t')" "stack_ok w p K" "raise_ok w p K"
    and "\<And>n K'. K = Publish n # K' \<Longrightarrow> promise (states p ! n) = Unset"
  shows "claims_ok p (Raise e, K) p' t'"
proof (cases K)
  case Nil
  with assms show ?thesis by (auto intro!: claims_same)
next
  case (Cons F K')
  show ?thesis
  proof (cases F)
    case (Publish n)
    with Cons assms have "n < length (states p)" "promise (states p ! n) = Unset"
      by (auto simp: publishes_state)
    then show ?thesis
      using claims_complete [of n p "Exception e" "Raise e" K' K'] assms Cons Publish
      by (auto simp: set_exception_def complete_first)
  qed (use assms Cons in \<open>auto intro!: claims_same\<close>)
qed

lemma claims_return:
  assumes "return_value v K p = Some (p', t')" "stack_ok w p K"
    and "\<And>n K'. K = Publish n # K' \<Longrightarrow> promise (states p ! n) = Unset"
  shows "claims_ok p (Eval e, K) p' t'"
proof (cases K)
  case Nil
  with assms show ?thesis by (auto intro!: claims_same)
next
  case (Cons F K')
  show ?thesis
  proof (cases F)
    case (Publish n)
    with Cons assms have "n < length (states p)" "promise (states p ! n) = Unset"
      by (auto simp: publishes_state)
    then show ?thesis
      using claims_complete [of n p "Value v" "Eval e" "Catching n # K'" K'] assms Cons Publish
      by (auto simp: set_value_def complete_first)
  qed (use assms Cons in \<open>auto intro!: claims_same\<close>)
qed

lemma claims_then:
  assumes "eval_step (Then f g inline_exec k) K p = Some (p', t')" "states_ok p"
  shows "claims_ok p (Eval e, K) p' t'"
proof -
  obtain x ss where t: "then_impl f g inline_exec (states p) = (x, ss)" by fastforce
  from assms(1) have h: "handle_ok f p" by (simp split: if_splits)
  from t assms(2) h show ?thesis
  proof (cases rule: then_cases)
    case (fails e)
    with t h assms show ?thesis by (auto intro!: claims_same)
  next
    case (no_pool n)
    with t h assms show ?thesis
      by (auto simp: claims_ok_def claims_def queue_claims_def state_claims_same)
  next
    case (created n now s c)
    let ?s0 = "(states p ! n)\<lparr>promise_taken := True, future_retrieved := True\<rparr>"
    have ok: "state_ok (states p ! n)" using assms(2) created(2) by (simp add: states_ok_def)
    have c: "task_claims c = {#length (states p)#}" using created(6) by auto
    have "state_claim (n, s) + opt_claims now \<subseteq># add_mset (length (states p)) (state_claim (n, states p ! n))"
      using created(5) ok c by (auto simp: set_continuation_def state_ok_def split: if_splits)
    with state_claims_update [OF created(2), of s]
    have "state_claims ((states p)[n := s]) + opt_claims now \<subseteq># add_mset (length (states p)) (state_claims (states p))"
      by (smt (verit) add.commute add.left_commute add_mset_add_single mset_subset_eq_mono_add_left_cancel)
    with t h created assms(1) show ?thesis
      by (auto simp: claims_ok_def claims_def queue_claims_def ac_simps)
  qed
qed

lemma claims_get:
  assumes "eval_step e K p = Some (p', t')" "states_ok p" "(\<exists>k. e = Get f k) \<or> (\<exists>k. e = Wait_for f k)"
  shows "claims_ok p (Eval e', K) p' t'"
proof (cases f)
  case None
  with assms show ?thesis
    by (auto intro!: claims_same simp: future_get_def future_wait_def block_on_def split: if_splits)
next
  case (Some n)
  with assms have n: "n < length (states p)" by (auto simp: handle_ok_def split: if_splits)
  with assms(2) have "state_ok (states p ! n)" by (simp add: states_ok_def)
  from get_future_ok [OF this] n Some assms(1,3) show ?thesis
    by (auto simp: claims_ok_def claims_def queue_claims_def state_claims_same future_get_def
        future_wait_def block_on_def split: if_splits option.splits)
qed

lemma claims_eval:
  assumes "eval_step e K p = Some (p', t')" "states_ok p" "stack_ok w p K"
    and "\<And>n K'. K = Publish n # K' \<Longrightarrow> promise (states p ! n) = Unset"
  shows "claims_ok p (Eval e, K) p' t'"
proof (cases e)
  case (Done x)
  with assms show ?thesis by (cases x) (auto intro: claims_return claims_same)
next
  case (Post e' k)
  with assms show ?thesis
    by (auto simp: new_future_def claims_ok_def claims_def queue_claims_def)
next
  case (Then f g inl k)
  with assms show ?thesis by (blast intro: claims_then)
next
  case (Get f k)
  with assms show ?thesis by (blast intro: claims_get)
next
  case (Wait_for f k)
  with assms show ?thesis by (blast intro: claims_get)
qed (use assms in \<open>auto intro!: claims_same\<close>)

lemma claims_post:
  assumes "post_step j c p = Some (p', c')" "control_ok i p K c"
  shows "claims_ok p (c, K) p' (c', K)"
proof (cases "(j, c, p)" rule: post_step.cases)
  case (3 j v t m p)
  with assms queue_claims_update [of v p p' "(t, m) # queues p ! v"] show ?thesis
    by (auto simp: claims_ok_def claims_def)
qed (use assms in \<open>auto intro!: claims_same simp: choose_victim_def notify_one_def split: if_splits\<close>)

lemma claims_work:
  assumes "work_step i c p = Some (p', t')" "control_ok i p K c" "K = []"
  shows "claims_ok p (c, K) p' t'"
proof (cases "(i, c, p)" rule: work_step.cases)
  case (2 i p)
  show ?thesis
  proof (cases "queues p ! i")
    case (Cons x q)
    with 2 assms queue_claims_update [of i p p' q] show ?thesis
      by (auto simp: claims_ok_def claims_def ac_simps split: prod.splits)
  qed (use 2 assms in \<open>auto intro!: claims_same\<close>)
next
  case (3 i p)
  with assms show ?thesis
    by (auto intro!: claims_same simp: choose_victim_def Let_def split: if_splits)
next
  case (4 i v p)
  show ?thesis
  proof (cases "queues p ! v = []")
    case False
    let ?l = "last (queues p ! v)" and ?q = "butlast (queues p ! v)" and ?f = "task_claims \<circ> fst"
    have "sum_list (map ?f (queues p ! v)) = sum_list (map ?f (?q @ [?l]))" using False by simp
    then have q: "sum_list (map ?f (queues p ! v)) = sum_list (map ?f ?q) + task_claims (fst ?l)" by simp
    from 4 assms False have r: "p' = p\<lparr>queues := (queues p)[v := ?q]\<rparr>"
      "t' = (Invoke (fst ?l), [Worker (snd ?l)])" "v < length (queues p)" by (auto simp: Let_def)
    from queue_claims_update [OF r(3,1)] q have "queue_claims p = task_claims (fst ?l) + queue_claims p'"
      by (simp add: ac_simps)
    with 4 assms(3) r show ?thesis by (simp add: claims_ok_def claims_def)
  qed (use 4 assms in \<open>auto intro!: claims_same\<close>)
qed (use assms in \<open>auto intro!: claims_same split: if_splits\<close>)

lemma claims_step:
  assumes "thread_step j i (c, K) p = Some (p', t')" "states_ok p" "thread_ok i p (c, K)"
    and "\<And>n K'. K = Publish n # K' \<Longrightarrow> promise (states p ! n) = Unset"
  shows "claims_ok p (c, K) p' t'"
proof -
  have K: "stack_ok (i < length (queues p)) p K" and c: "control_ok i p K c" using assms(3) by auto
  show ?thesis
  proof (cases c)
    case (Eval e)
    with assms K show ?thesis by (auto intro: claims_eval)
  next
    case (Blocked n k)
    with assms show ?thesis by (auto intro!: claims_same split: option.splits)
  next
    case (Invoke t)
    with assms(1) show ?thesis
      by (cases t) (auto intro!: claims_same split: option.splits sum.splits)
  next
    case Back
    with assms(1) show ?thesis
      by (cases "(K, p)" rule: back_step.cases) (auto intro!: claims_same)
  next
    case (Raise e)
    with assms c K show ?thesis by (auto intro: claims_raise)
  next
    case Stop with assms(1) show ?thesis by (auto intro!: claims_same simp: lift_def)
  next
    case Stop_notify with assms(1) show ?thesis by (auto intro!: claims_same simp: lift_def)
  next
    case (Join k)
    with assms(1) show ?thesis by (auto intro!: claims_same simp: lift_def split: if_splits)
  next
    case Await with assms(1) show ?thesis by (auto intro!: claims_same simp: lift_def split: if_splits)
  next
    case Await_doze with assms(1) show ?thesis by (auto intro!: claims_same simp: lift_def)
  next
    case Await_asleep
    with assms(1) show ?thesis by (auto intro!: claims_same simp: lift_def split: if_splits)
  qed (use assms(1) c in \<open>auto elim!: lift_SomeE intro: claims_post claims_work
      simp del: post_step.simps work_step.simps\<close>)
qed


section \<open>The invariant of the machine\<close>

definition total :: "('v thread \<Rightarrow> nat multiset) \<Rightarrow> 'v machine \<Rightarrow> nat multiset" where
  "total f w = sum_list (map f (threads w))"

definition machine_inv :: "nat \<Rightarrow> 'v machine \<Rightarrow> bool" where
  "machine_inv n w \<longleftrightarrow> length (queues (pool w)) = n \<and> n \<le> length (threads w) \<and>
     states_ok (pool w) \<and> queues_ok (pool w) \<and>
     (\<forall>i<length (threads w). thread_ok i (pool w) (threads w ! i)) \<and>
     total uncounted w + total counted w + queued (pool w) + mset (finished (pool w)) =
       mset [0..<length (posted (pool w))] \<and>
     unfinished (pool w) = of_nat (size (total counted w + queued (pool w))) \<and>
     total thread_claims w + queue_claims (pool w) + state_claims (states (pool w))
       \<subseteq># mset [0..<length (states (pool w))]"

lemma total_step:
  assumes "i < length (threads w)" "w' = w\<lparr>pool := p', threads := (threads w)[i := t']\<rparr>"
  shows "total f w' + f (threads w ! i) = total f w + f t'"
  unfolding total_def using sum_list_update [OF assms(1), of f t'] assms(2) by simp

lemma total_member: "i < length (threads w) \<Longrightarrow> f (threads w ! i) \<subseteq># total f w"
  unfolding total_def by (rule sum_list_member_le)

text \<open>Two claims on one promise are impossible.\<close>

lemma publish_open:
  assumes "total thread_claims w + queue_claims (pool w) + state_claims (states (pool w))
      \<subseteq># mset [0..<length (states (pool w))]"
    and "i < length (threads w)" "threads w ! i = (c, Publish n # K)" "n < length (states (pool w))"
  shows "promise (states (pool w) ! n) = Unset"
proof (rule ccontr)
  let ?ss = "states (pool w)"
  assume "promise (?ss ! n) \<noteq> Unset"
  then have "{#n#} \<subseteq># state_claim (n, ?ss ! n)" by simp
  also have "state_claim (n, ?ss ! n) \<subseteq># state_claims ?ss"
    using sum_list_member_le [of n "enumerate 0 ?ss" state_claim] assms(4)
    by (simp add: state_claims_def nth_enumerate_eq)
  finally have "{#n#} \<subseteq># state_claims ?ss" .
  moreover have "{#n#} \<subseteq># total thread_claims w"
    using total_member [OF assms(2), of thread_claims] assms(3) by (auto dest: mset_subset_eqD)
  ultimately have "{#n#} + {#n#} \<subseteq># total thread_claims w + queue_claims (pool w) + state_claims ?ss"
    by (meson mset_subset_eq_add_left mset_subset_eq_mono_add subset_mset.order_trans)
  with assms(1) have "{#n, n#} \<subseteq># mset [0..<length ?ss]" by (auto intro: subset_mset.order_trans)
  then have "2 \<le> count (mset [0..<length ?ss]) n" by (auto dest: mset_subset_eq_count [of _ _ n])
  then show False by (simp add: count_mset_set' split: if_splits)
qed

lemma balanced_total:
  assumes "balanced p t p' t'"
    and A: "A' + counted t = A + counted t'" and U: "U' + uncounted t = U + uncounted t'"
    and posts: "U + A + queued p + mset (finished p) = mset [0..<length (posted p)]"
    and count: "unfinished p = of_nat (size (A + queued p))"
  shows "U' + A' + queued p' + mset (finished p') = mset [0..<length (posted p')] \<and>
    unfinished p' = of_nat (size (A' + queued p'))"
  using assms(1)
proof cases
  case moved
  have "counted t + (A' + queued p') = counted t + (A + queued p)"
    using A moved(1) by (metis add.assoc add.commute)
  then have *: "A' + queued p' = A + queued p" by simp
  moreover have "U' = U" using U moved(2) by simp
  ultimately have "U' + A' + queued p' = U + A + queued p" by (simp add: add.assoc)
  with * moved posts count show ?thesis by simp
next
  case (now_started m)
  have "counted t + (A' + queued p') = counted t + (A + queued p)"
    using A now_started(1) by (metis add.assoc add.commute)
  then have *: "A' + queued p' = A + queued p" by simp
  moreover have "U' = U" using U now_started(2) by simp
  ultimately have "U' + A' + queued p' = U + A + queued p" by (simp add: add.assoc)
  with * now_started posts count show ?thesis by simp
next
  case (numbered x)
  then have "A' = A" "U' = add_mset (length (posted p)) U" using A U by simp_all
  with numbered posts count show ?thesis by simp
next
  case (now_counted m)
  then have "A' = add_mset m A" "U = add_mset m U'" using A U by simp_all
  with now_counted posts count show ?thesis by simp
next
  case (now_finished m)
  then have "A = add_mset m A'" "U' = U" using A U by simp_all
  with now_finished posts count show ?thesis by simp
qed

lemma sum_list_empty [simp]: "sum_list (replicate n {#}) = {#}"
  by (induction n) simp_all

lemma machine_inv_init: "machine_init n w \<Longrightarrow> machine_inv n w"
proof -
  assume "machine_init n w"
  then obtain es where w: "w = new_machine n es" by (auto simp: machine_init_def)
  have "sum_list (map f (threads w)) = {#}"
    if "f (Loop, []) = {#}" "\<And>e. f (Eval e, []) = {#}" for f :: "'a thread \<Rightarrow> nat multiset"
    using that by (simp add: w new_machine_def map_replicate_const sum_list_replicate comp_def)
  then have "total uncounted w = {#}" "total counted w = {#}" "total thread_claims w = {#}"
    by (simp_all add: total_def)
  moreover have "queued (pool w) = {#}" "queue_claims (pool w) = {#}" "state_claims (states (pool w)) = {#}"
    by (simp_all add: w new_machine_def new_pool_def queued_def queue_claims_def state_claims_def
        map_replicate_const sum_list_replicate)
  ultimately show ?thesis
    by (auto simp: machine_inv_def w new_machine_def new_pool_def states_ok_def queues_ok_def nth_append)
qed

definition all_claims :: "'v machine \<Rightarrow> nat multiset" where
  "all_claims w = total thread_claims w + queue_claims (pool w) + state_claims (states (pool w))"

lemma run_facts:
  assumes inv: "machine_inv n w" and step: "run_thread j i w = Some w'"
  obtains p' t' where "i < length (threads w)" "w' = w\<lparr>pool := p', threads := (threads w)[i := t']\<rparr>"
    "thread_step j i (threads w ! i) (pool w) = Some (p', t')"
    "keeps i (pool w) (p', t')" "balanced (pool w) (threads w ! i) p' t'"
    "claims_ok (pool w) (threads w ! i) p' t'"
proof -
  let ?p = "pool w"
  from step obtain p' t' where i: "i < length (threads w)"
    and r: "thread_step j i (threads w ! i) ?p = Some (p', t')"
    and w': "w' = w\<lparr>pool := p', threads := (threads w)[i := t']\<rparr>"
    by (auto simp: run_thread_def split: if_splits option.splits)
  obtain c K where t: "threads w ! i = (c, K)" by fastforce
  from inv i have ok: "states_ok ?p" "queues_ok ?p" "thread_ok i ?p (c, K)"
    by (auto simp: machine_inv_def simp flip: t)
  then have c: "control_ok i ?p K c" by simp
  have top: "promise (states ?p ! n) = Unset" if "K = Publish n # K'" for n K'
    using that ok(3) t inv publish_open [OF _ i, of c n K']
    by (simp add: machine_inv_def publishes_state)
  have "keeps i ?p (p', t')" using keeps_step r ok top unfolding t by blast
  moreover from r c have "balanced ?p (c, K) p' t'" unfolding t by (rule balanced_step)
  moreover have "claims_ok ?p (c, K) p' t'" using claims_step r ok(1,3) top unfolding t by blast
  ultimately show thesis using that i w' r t by metis
qed

lemma claims_run:
  assumes "machine_inv n w" "run_thread j i w = Some w'"
  shows "all_claims w' \<subseteq># all_claims w + mset [length (states (pool w))..<length (states (pool w'))]"
  using assms
proof (cases rule: run_facts)
  case (1 p' t')
  let ?new = "mset [length (states (pool w))..<length (states p')]" and ?t = "threads w ! i"
  have "total thread_claims w' + thread_claims ?t = total thread_claims w + thread_claims t'"
    using total_step [OF 1(1,2), of thread_claims] .
  then have "all_claims w' + thread_claims ?t = total thread_claims w + claims p' t'"
    using 1(2) by (simp add: all_claims_def claims_def ac_simps)
  also have "\<dots> \<subseteq># total thread_claims w + (claims (pool w) ?t + ?new)"
    using 1(6) unfolding claims_ok_def by (rule mset_subset_eq_mono_add [OF subset_mset.order_refl])
  also have "\<dots> = all_claims w + ?new + thread_claims ?t"
    by (simp add: all_claims_def claims_def ac_simps)
  finally have "all_claims w' \<subseteq># all_claims w + ?new"
    by (simp only: mset_subset_eq_mono_add_right_cancel)
  moreover have "pool w' = p'" using 1(2) by simp
  ultimately show ?thesis by simp
qed

lemma machine_inv_run:
  assumes inv: "machine_inv n w" and step: "run_thread j i w = Some w'"
  shows "machine_inv n w'"
  using inv step
proof (cases rule: run_facts)
  case (1 p' t')
  let ?p = "pool w"
  from 1(4) have ext: "extends ?p p'" and ok': "states_ok p'" "queues_ok p'" "thread_ok i p' t'"
    by (auto simp: keeps_def)
  have "thread_ok k p' (threads w' ! k)" if "k < length (threads w')" for k
  proof -
    have k: "k < length (threads w)" using that by (simp add: 1(2))
    with inv have "thread_ok k p' (threads w ! k)"
      unfolding machine_inv_def by (blast intro: thread_ok_mono [OF ext])
    with ok'(3) k show ?thesis by (simp add: 1(2) nth_update del: thread_ok.simps)
  qed
  moreover from balanced_total [OF 1(5), of "total counted w'" "total counted w" "total uncounted w'" "total uncounted w"]
  have "total uncounted w' + total counted w' + queued p' + mset (finished p') = mset [0..<length (posted p')] \<and>
      unfinished p' = of_nat (size (total counted w' + queued p'))"
    using total_step [OF 1(1,2), of counted] total_step [OF 1(1,2), of uncounted] inv
    by (simp add: machine_inv_def)
  moreover have "all_claims w' \<subseteq># mset [0..<length (states p')]"
  proof -
    have len: "length (states ?p) \<le> length (states p')" using ext by (simp add: extends_def)
    have "all_claims w' \<subseteq># all_claims w + mset [length (states ?p)..<length (states p')]"
      using claims_run [OF inv step] 1(2) by simp
    also have "\<dots> \<subseteq># mset [0..<length (states ?p)] + mset [length (states ?p)..<length (states p')]"
      using inv by (intro mset_subset_eq_mono_add) (simp_all add: machine_inv_def all_claims_def)
    also have "\<dots> = mset [0..<length (states p')]"
      using upt_add_eq_append [of 0 "length (states ?p)" "length (states p') - length (states ?p)"] len
      by (simp del: mset_upt mset_append flip: mset_append)
    finally show ?thesis .
  qed
  ultimately show ?thesis
    using inv ok' extends_mono(4) [OF ext] by (simp add: machine_inv_def all_claims_def 1(2))
qed

lemma machine_inv_wake: "machine_inv n w \<Longrightarrow> machine_inv n (wake_up i w)"
proof -
  assume inv: "machine_inv n w"
  have ext: "extends (pool w) (pool (wake_up i w))" by (simp add: wake_up_def extends_def)
  from inv show ?thesis
    using thread_ok_mono [OF ext] states_ok_same [OF ext] queues_ok_same [OF ext]
    by (simp add: machine_inv_def wake_up_def total_def queued_def queue_claims_def)
qed

interpretation machine: invariant_system "machine_init n" machine_step "machine_inv n"
proof
  show "machine_inv n w'" if "machine_inv n w" "machine_step w w'" for w w' :: "'a machine"
    using that(2,1) by cases (auto intro: machine_inv_run machine_inv_wake)
qed (rule machine_inv_init)

end
