(* ===== verification/PoolContract.thy ===== *)
theory PoolContract
  imports PoolTasks
begin

text \<open>
  What the thread pool promises, whatever its threads do: no post is lost or executed twice, \<open>wait\<close>
  returns only when everything counted is finished, no exception of a task of \<open>post\<close> or \<open>then\<close> reaches
  a worker, and what \<open>set_continuation\<close> drops is dropped for good.
\<close>

section \<open>Lemmas\<close>

lemma reachable_inv: "machine_init n w \<Longrightarrow> machine_step\<^sup>*\<^sup>* w w' \<Longrightarrow> machine_inv n w'"
  by (rule machine.inv_reachable)

lemma machine_step_extends:
  assumes "machine_inv n w" "machine_step w w'"
  shows "extends (pool w) (pool w')"
  using assms(2)
proof cases
  case (thread_runs j i)
  with assms(1) show ?thesis by (auto elim!: run_facts simp: keeps_def)
qed (simp add: wake_up_def extends_def)

lemma run_extends:
  assumes "machine_step\<^sup>*\<^sup>* w w'" "machine_inv n w"
  shows "extends (pool w) (pool w')"
proof -
  have "machine_inv n w' \<and> extends (pool w) (pool w')" using assms
  proof (induction rule: rtranclp_induct)
    case (step v v')
    then show ?case using machine_step_extends machine.inv_step extends_trans by blast
  qed simp
  then show ?thesis ..
qed

text \<open>The counter of unfinished posts, as long as there are fewer than 2^64 posts.\<close>

lemma unat_u64: "s < 2 ^ 64 \<Longrightarrow> unat (of_nat s :: u64) = s"
  by (simp add: unat_of_nat take_bit_nat_eq_self)

lemma unfinished_size:
  assumes "machine_inv n w" "length (posted (pool w)) < 2 ^ 64"
  shows "unat (unfinished (pool w)) = size (total counted w + queued (pool w))"
proof -
  let ?s = "size (total counted w + queued (pool w))"
  have eq: "total uncounted w + total counted w + queued (pool w) + mset (finished (pool w)) =
      mset [0..<length (posted (pool w))]" using assms(1) by (simp add: machine_inv_def)
  have "?s \<le> length (posted (pool w))" using arg_cong [OF eq, of size] by simp
  then have "?s < 2 ^ 64" using assms(2) by simp
  then have "unat (of_nat ?s :: u64) = ?s" by (rule unat_u64)
  moreover have "unfinished (pool w) = of_nat ?s" using assms(1) by (simp add: machine_inv_def)
  ultimately show ?thesis by metis
qed

lemma queue_nonempty_unfinished:
  assumes "machine_inv n w" "length (posted (pool w)) < 2 ^ 64" "v < n" "queues (pool w) ! v \<noteq> []"
  shows "0 < unfinished (pool w)"
proof -
  have "mset (map snd (queues (pool w) ! v)) \<subseteq># queued (pool w)"
    unfolding queued_def
    using sum_list_member_le [of v "queues (pool w)" "\<lambda>q. mset (map snd q)"] assms(1,3)
    by (simp add: machine_inv_def)
  with assms(4) have "queued (pool w) \<noteq> {#}" by auto
  then have "size (total counted w + queued (pool w)) \<noteq> 0" by simp
  then have "unat (unfinished (pool w)) \<noteq> 0" using unfinished_size [OF assms(1,2)] by metis
  then show ?thesis by (metis unat_0 word_gt_0)
qed

text \<open>Whether a state can still be completed.\<close>

lemma unclaimed_unset:
  assumes "n < length ss" "n \<notin># state_claims ss"
  shows "promise (ss ! n) = Unset"
proof (rule ccontr)
  assume "promise (ss ! n) \<noteq> Unset"
  then have "n \<in># state_claim (n, ss ! n)" by simp
  moreover have "state_claim (n, ss ! n) \<subseteq># state_claims ss"
    using sum_list_member_le [of n "enumerate 0 ss" state_claim] assms(1)
    by (simp add: state_claims_def nth_enumerate_eq)
  ultimately have "n \<in># state_claims ss" by (rule mset_subset_eqD [rotated])
  with assms(2) show False by simp
qed

lemma no_claim_unset:
  "n < length (states (pool w)) \<Longrightarrow> n \<notin># all_claims w \<Longrightarrow> promise (states (pool w) ! n) = Unset"
  by (rule unclaimed_unset) (simp_all add: all_claims_def)

lemma no_claim_step:
  assumes "machine_inv k w" "machine_step w w'" "n < length (states (pool w))" "n \<notin># all_claims w"
  shows "n < length (states (pool w')) \<and> n \<notin># all_claims w'"
  using assms(2)
proof cases
  case (thread_runs j i)
  from claims_run [OF assms(1) this] assms(3,4)
  have "n \<notin># all_claims w'" by (auto dest: mset_subset_eqD)
  with machine_step_extends [OF assms(1,2)] assms(3) show ?thesis by (simp add: extends_def)
next
  case (spurious_wake_up i)
  with assms(3,4) show ?thesis
    by (simp add: wake_up_def all_claims_def total_def queue_claims_def)
qed

lemma no_claim_run:
  assumes "machine_step\<^sup>*\<^sup>* w w'" "machine_inv k w" "n < length (states (pool w))" "n \<notin># all_claims w"
  shows "promise (states (pool w') ! n) = Unset"
proof -
  have "machine_inv k w' \<and> n < length (states (pool w')) \<and> n \<notin># all_claims w'"
    using assms
  proof (induction rule: rtranclp_induct)
    case (step v v')
    then show ?case using no_claim_step machine.inv_step by blast
  qed simp
  then show ?thesis by (blast intro: no_claim_unset)
qed

text \<open>The pool with workers never divides by zero, and nothing else stops the machine.\<close>

lemma post_fault: "post_step j c p = Some (p', c') \<Longrightarrow> queues p \<noteq> [] \<Longrightarrow> fault p' = fault p"
  by (cases "(j, c, p)" rule: post_step.cases)
    (auto simp: choose_victim_def notify_one_def split: if_splits)

lemma work_fault: "work_step i c p = Some (p', t') \<Longrightarrow> fault p' = fault p \<and> terminated p' = terminated p"
  by (cases "(i, c, p)" rule: work_step.cases)
    (auto simp: choose_victim_def Let_def split: if_splits list.splits)

lemma complete_no_UB: "complete r s \<noteq> (UB u, s')"
  by (cases "promise s"; simp add: complete_def)

lemma step_stops:
  assumes "thread_step j i (c, K) p = Some (p', t')" "queues p \<noteq> []"
  shows "fault p' = fault p \<and> (terminated p' = terminated p \<or>
    (\<exists>e. c = Raise e \<and> (K = [] \<or> (\<exists>m K'. K = Worker m # K'))))"
proof (cases c)
  case (Eval e)
  then have "eval_step e K p = Some (p', t')" using assms(1) by simp
  then show ?thesis
  proof (cases "(e, K, p)" rule: eval_step.cases)
    case (1 v K p)
    then have "return_value v K p = Some (p', t')" using \<open>eval_step e _ _ = _\<close> by simp
    with 1 show ?thesis
      by (cases "(v, K, p)" rule: return_value.cases)
        (auto simp: with_state_def set_value_def complete_no_UB split: prod.splits outcome.splits)
  qed (auto simp: new_future_def split: prod.splits sum.splits if_splits)
next
  case (Invoke t)
  with assms show ?thesis by (cases t) (auto split: option.splits sum.splits)
next
  case (Raise e)
  with assms show ?thesis
    by (cases "(e, K, p)" rule: raise_step.cases)
      (auto simp: Let_def with_state_def set_exception_def complete_no_UB
        split: frame.splits prod.splits outcome.splits)
next
  case Back
  with assms show ?thesis by (cases "(K, p)" rule: back_step.cases) auto
qed (use assms in \<open>auto simp: lift_def choose_victim_def notify_one_def Let_def
    split: if_splits option.splits list.splits prod.splits\<close>)

lemma no_fault_run:
  assumes "machine_step\<^sup>*\<^sup>* w w'" "machine_inv n w" "0 < n" "fault (pool w) = None"
  shows "fault (pool w') = None"
proof -
  have "machine_inv n w' \<and> fault (pool w') = None" using assms
  proof (induction rule: rtranclp_induct)
    case (step v v')
    then have inv: "machine_inv n v" and f: "fault (pool v) = None" by auto
    from step(2) show ?case
    proof cases
      case (thread_runs j i)
      with inv obtain p' t' where "v' = v\<lparr>pool := p', threads := (threads v)[i := t']\<rparr>"
        "thread_step j i (threads v ! i) (pool v) = Some (p', t')" by (auto elim!: run_facts)
      moreover have "queues (pool v) \<noteq> []" using inv assms(3) by (auto simp: machine_inv_def)
      ultimately show ?thesis
        using step_stops [of j i _ _ "pool v" p' t'] f machine_inv_run [OF inv thread_runs]
        by (cases "threads v ! i") auto
    qed (use machine_inv_wake [OF inv] f in \<open>auto simp: wake_up_def\<close>)
  qed simp
  then show ?thesis ..
qed


section \<open>Small machines\<close>

text \<open>One worker; the application posts a task and waits, or detaches one that throws, or calls \<open>then\<close>
  twice on one future.\<close>

definition one_task :: "nat machine" where
  "one_task = new_machine 1 [Post (Done (Inr 7)) (\<lambda>f. Wait (Get f Done))]"

definition throwing_task :: "nat machine" where
  "throwing_task = new_machine 1 [Post_detach (Done (Inl Other_exception)) (Done (Inr 0))]"

definition two_thens :: "nat machine" where
  "two_thens = new_machine 1 [Post (Done (Inr 7)) (\<lambda>f. Then f (\<lambda>v. Done (Inr (v + 1))) False
     (\<lambda>_. Then f (\<lambda>v. Done (Inr (v + 2))) False (\<lambda>_. Done (Inr 0))))]"

definition turns :: "nat \<Rightarrow> nat \<Rightarrow> (nat \<times> nat) list" where
  "turns n i = replicate n (i, 0)"

lemmas small_machines = one_task_def throwing_task_def two_thens_def turns_def machine_defs
  eval_nat_numeral

lemma one_task_runs:
  "\<exists>w' k. run_schedule (turns 7 1 @ turns 7 0) one_task = Some w' \<and> finished (pool w') = [0] \<and>
     length (posted (pool w')) = 1 \<and> threads w' ! 1 = (Await, [User k]) \<and>
     (\<exists>w''. run_thread 0 1 w' = Some w'' \<and> threads w'' ! 1 = (Back, [User k]))"
  by (simp add: small_machines)

section \<open>Properties\<close>

text \<open>C2. No task is lost, duplicated or executed twice. In every reachable state, under any interleaving
  of posts, steals, wake-ups and shutdown, every post made so far is in exactly one place: being
  submitted, in one queue, running on one worker (or just about to be counted off), or finished. A
  queue holds the very callable that was posted.\<close>

theorem each_post_in_one_place:
  assumes "machine_init n w" and "machine_step\<^sup>*\<^sup>* w w'"
  shows "total uncounted w' + total counted w' + queued (pool w') + mset (finished (pool w')) =
      mset [0..<length (posted (pool w'))] \<and> distinct (finished (pool w')) \<and>
    (\<forall>q\<in>set (queues (pool w')). \<forall>(t, m)\<in>set q. m < length (posted (pool w')) \<and> posted (pool w') ! m = t)"
proof -
  let ?all = "total uncounted w' + total counted w' + queued (pool w')"
  have inv: "machine_inv n w'" using assms by (rule reachable_inv)
  then have eq: "?all + mset (finished (pool w')) = mset [0..<length (posted (pool w'))]"
    by (simp add: machine_inv_def)
  obtain ms where "mset ms = ?all" by (metis ex_mset)
  with eq have "mset (ms @ finished (pool w')) = mset [0..<length (posted (pool w'))]" by simp
  then have "distinct (ms @ finished (pool w'))" by (metis distinct_upt mset_eq_imp_distinct_iff)
  then have "distinct (finished (pool w'))" by simp
  with eq inv show ?thesis
    unfolding machine_inv_def queues_ok_def is_post_def by fastforce
qed

theorem each_post_in_one_place_witness:
  "\<exists>w'. run_schedule (turns 7 1 @ turns 7 0) one_task = Some w' \<and>
     total uncounted w' + total counted w' + queued (pool w') + {#0#} = {#0#}"
proof -
  from one_task_runs obtain w' where
    w': "run_schedule (turns 7 1 @ turns 7 0) one_task = Some w'" "finished (pool w') = [0]"
    "length (posted (pool w')) = 1" by blast
  have "machine_init 1 one_task" by (simp add: one_task_def)
  from each_post_in_one_place [OF this run_schedule_reaches [OF w'(1)]] w' show ?thesis by auto
qed

text \<open>C15. \<open>wait\<close> returns only when the work is done. When the predicate of \<open>wait\<close> lets a thread go on, no
  post is in a queue, on a worker or submitted and counted: every post that had reached
  \<open>unfinished_.fetch_add\<close> is finished. (The counter is a \<open>size_t\<close>, so this needs fewer than 2^64 posts.)\<close>

theorem wait_returns_when_done:
  assumes "machine_init n w" and "machine_step\<^sup>*\<^sup>* w w'"
    and "length (posted (pool w')) < 2 ^ 64"
    and "threads w' ! i = (Await, K)" and "run_thread j i w' = Some w''" and "threads w'' ! i = (Back, K)"
  shows "queued (pool w') = {#} \<and> total counted w' = {#} \<and>
    total uncounted w' + mset (finished (pool w')) = mset [0..<length (posted (pool w'))]"
proof -
  let ?c = "total counted w' + queued (pool w')"
  have inv: "machine_inv n w'" using assms(1,2) by (rule reachable_inv)
  then have eq: "total uncounted w' + ?c + mset (finished (pool w')) = mset [0..<length (posted (pool w'))]"
    by (simp add: machine_inv_def ac_simps)
  from assms(4,5,6) have "unfinished (pool w') = 0"
    by (auto simp: run_thread_def lift_def nth_update split: if_splits)
  then have "size ?c = 0" using unfinished_size [OF inv assms(3)] by (metis unat_0)
  then have "?c = {#}" by (simp only: size_eq_0_iff_empty)
  with eq show ?thesis by simp
qed

theorem wait_returns_when_done_witness:
  "\<exists>w'. run_schedule (turns 7 1 @ turns 7 0) one_task = Some w' \<and> queued (pool w') = {#}"
proof -
  from one_task_runs obtain w' w'' k where
    w': "run_schedule (turns 7 1 @ turns 7 0) one_task = Some w'" "length (posted (pool w')) = 1"
    "threads w' ! 1 = (Await, [User k])" "run_thread 0 1 w' = Some w''"
    "threads w'' ! 1 = (Back, [User k])" by blast
  have "machine_init 1 one_task" by (simp add: one_task_def)
  from wait_returns_when_done [OF this run_schedule_reaches [OF w'(1)] _ w'(3,4,5)] w'(1,2)
  show ?thesis by simp
qed

text \<open>C18. An exception that leaves the callable of a \<open>post\<close> or of a \<open>then\<close> never reaches a worker: when
  \<open>std::terminate\<close> is called, the exception came out of the callable of a \<open>post_detach\<close>, or out of the
  application's own thread. The pool itself has no undefined behaviour when it has a worker.\<close>

theorem only_detached_tasks_terminate:
  assumes "machine_init n w" and "machine_step\<^sup>*\<^sup>* w w'" and "0 < n"
    and "run_thread j i w' = Some w''" and "terminated (pool w'')"
  shows "fault (pool w'') = None \<and>
    (n \<le> i \<or> (\<exists>m e. snd (threads w' ! i) = [Worker m] \<and> posted (pool w') ! m = Detached e))"
proof -
  from assms(1) have "fault (pool w) = None" by (auto simp: machine_init_def new_machine_def new_pool_def)
  with assms have "fault (pool w'') = None"
    by (intro no_fault_run [of w w'' n] machine_inv_init)
      (auto intro: rtranclp.rtrancl_into_rtrancl thread_runs)
  have inv: "machine_inv n w'" using assms(1,2) by (rule reachable_inv)
  obtain c K where t: "threads w' ! i = (c, K)" by fastforce
  from assms(4) have nt: "\<not> terminated (pool w')" and i: "i < length (threads w')"
    by (auto simp: run_thread_def split: if_splits)
  from inv assms(4) obtain p' t' where "pool w'' = p'"
    "thread_step j i (c, K) (pool w') = Some (p', t')" by (auto elim!: run_facts simp: t)
  moreover have "queues (pool w') \<noteq> []" "length (queues (pool w')) = n"
    using inv assms(3) by (auto simp: machine_inv_def)
  ultimately have "\<exists>e. c = Raise e \<and> (K = [] \<or> (\<exists>m K'. K = Worker m # K'))"
    using step_stops nt assms(5) by blast
  moreover have "thread_ok i (pool w') (c, K)"
    using inv i by (auto simp: machine_inv_def simp flip: t)
  ultimately show ?thesis
    using \<open>length (queues (pool w')) = n\<close> \<open>fault (pool w'') = None\<close>
    by (auto simp: t detached_on_def is_post_def)
qed

theorem only_detached_tasks_terminate_witness:
  "\<exists>w'. run_schedule (turns 7 1 @ turns 5 0) throwing_task = Some w' \<and>
     (\<exists>m e. snd (threads w' ! 0) = [Worker m] \<and> posted (pool w') ! m = Detached e)"
proof -
  have "\<exists>w' w''. run_schedule (turns 7 1 @ turns 5 0) throwing_task = Some w' \<and>
      run_thread 0 0 w' = Some w'' \<and> terminated (pool w'')"
    by (simp add: small_machines)
  then obtain w' w'' where w': "run_schedule (turns 7 1 @ turns 5 0) throwing_task = Some w'"
    "run_thread 0 0 w' = Some w''" "terminated (pool w'')" by blast
  have "machine_init 1 throwing_task" by (simp add: throwing_task_def)
  from only_detached_tasks_terminate [OF this run_schedule_reaches [OF w'(1)] _ w'(2,3)] w'(1)
  show ?thesis by auto
qed

text \<open>C17. The lambdas find the promises as they need them: a continuation that a thread is about to
  execute never blocks in \<open>current_future.get()\<close>, since the state it waits for is completed, and a
  lambda about to complete its own state finds it open, so \<open>promise_.set_value\<close> never throws.\<close>

theorem lambdas_find_promises_ready:
  assumes "machine_init n w" and "machine_step\<^sup>*\<^sup>* w w'" and "i < length (threads w')"
  shows "(threads w' ! i = (Invoke (Continued m g k), K) \<longrightarrow>
      shared_future_get m (states (pool w')) \<noteq> None) \<and>
    (threads w' ! i = (c, Publish m # K) \<longrightarrow> promise (states (pool w') ! m) = Unset)"
proof -
  have inv: "machine_inv n w'" using assms(1,2) by (rule reachable_inv)
  then have ok: "thread_ok i (pool w') (threads w' ! i)" using assms(3) by (simp add: machine_inv_def)
  show ?thesis
  proof (intro conjI impI)
    assume "threads w' ! i = (Invoke (Continued m g k), K)"
    with ok show "shared_future_get m (states (pool w')) \<noteq> None"
      by (auto simp: invoke_ok_def has_promise_def shared_future_get_def split: promise.splits)
  next
    assume "threads w' ! i = (c, Publish m # K)"
    with ok inv assms(3) show "promise (states (pool w') ! m) = Unset"
      by (intro publish_open) (auto simp: machine_inv_def publishes_state)
  qed
qed

theorem lambdas_find_promises_ready_witness:
  "\<exists>w' c. run_schedule (turns 7 1 @ turns 3 0) one_task = Some w' \<and>
     threads w' ! 0 = (c, [Publish 0, Worker 0]) \<and> promise (states (pool w') ! 0) = Unset"
proof -
  have "\<exists>w' c. run_schedule (turns 7 1 @ turns 3 0) one_task = Some w' \<and>
      threads w' ! 0 = (c, [Publish 0, Worker 0]) \<and> 0 < length (threads w')"
    by (simp add: small_machines)
  then obtain w' c where w': "run_schedule (turns 7 1 @ turns 3 0) one_task = Some w'"
    "threads w' ! 0 = (c, [Publish 0, Worker 0])" "0 < length (threads w')" by blast
  have "machine_init 1 one_task" by (simp add: one_task_def)
  from lambdas_find_promises_ready [OF this run_schedule_reaches [OF w'(1)] w'(3)] w'(1,2)
  show ?thesis by auto
qed

text \<open>C36. A second \<open>then\<close> on a future whose first continuation was stored is dropped for good: the call
  succeeds and returns a future, but that future is never completed, whatever happens after.\<close>

theorem second_then_never_completes:
  assumes "machine_init n w" and "machine_step\<^sup>*\<^sup>* w w'"
    and "threads w' ! i = (Eval (Then (Some m) g inline_exec k), K)"
    and "continuation_set (states (pool w') ! m)" and "pool_ptr (states (pool w') ! m) \<noteq> None"
    and "run_thread j i w' = Some v" and "machine_step\<^sup>*\<^sup>* v v'"
  shows "fst (threads v ! i) = Back \<and> length (states (pool w')) < length (states (pool v')) \<and>
    promise (states (pool v') ! length (states (pool w'))) = Unset"
proof -
  let ?n = "length (states (pool w'))" and ?p = "pool w'"
  let ?s = "(states ?p ! m)\<lparr>promise_taken := True, future_retrieved := True\<rparr>"
  let ?next = "set_pool (get_pool (states ?p ! m)) new_state"
  have inv: "machine_inv n w'" using assms(1,2) by (rule reachable_inv)
  from assms(3,6) have m: "m < ?n" by (auto simp: run_thread_def handle_ok_def split: if_splits)
  with inv have "state_ok (states ?p ! m)" by (simp add: machine_inv_def states_ok_def)
  then have "then_impl (Some m) g inline_exec (states ?p) =
      (Inr (?n, None), (states ?p)[m := ?s] @ [?next])"
    using assms(4,5) by (auto simp: then_impl_def get_future_ok set_continuation_def get_pool_def Let_def)
  with assms(3,6) obtain k' where v: "v = w'\<lparr>pool := ?p\<lparr>states := (states ?p)[m := ?s] @ [?next],
      origins := origins ?p @ [From_then m g]\<rparr>, threads := (threads w')[i := (Back, User k' # K)]\<rparr>"
    and i: "i < length (threads w')"
    by (auto simp: run_thread_def split: if_splits)
  have "total thread_claims v = total thread_claims w'"
    using total_step [OF i v, of thread_claims] assms(3) by simp
  then have "all_claims v = all_claims w'"
    by (simp add: all_claims_def v queue_claims_def state_claims_same)
  moreover have "?n \<notin># all_claims w'"
    using inv by (auto simp: machine_inv_def all_claims_def dest: mset_subset_eqD)
  moreover have inv': "machine_inv n v" using machine_inv_run [OF inv assms(6)] .
  moreover have "?n < length (states (pool v))" by (simp add: v)
  moreover have "extends (pool v) (pool v')" using inv' run_extends assms(7) by blast
  then have "length (states (pool v)) \<le> length (states (pool v'))" by (simp add: extends_def)
  ultimately have "promise (states (pool v') ! ?n) = Unset" "?n < length (states (pool v'))"
    using no_claim_run [OF assms(7)] by auto
  with i show ?thesis by (simp add: v)
qed

theorem second_then_never_completes_witness:
  "\<exists>v. run_schedule (turns 9 1) two_thens = Some v \<and>
     (\<forall>v'. machine_step\<^sup>*\<^sup>* v v' \<longrightarrow> promise (states (pool v') ! 2) = Unset)"
proof -
  have "\<exists>w' v g k. run_schedule (turns 8 1) two_thens = Some w' \<and> run_schedule (turns 9 1) two_thens = Some v \<and>
      threads w' ! 1 = (Eval (Then (Some 0) g False k), []) \<and> continuation_set (states (pool w') ! 0) \<and>
      pool_ptr (states (pool w') ! 0) \<noteq> None \<and> run_thread 0 1 w' = Some v \<and> length (states (pool w')) = 2"
    by (simp add: small_machines)
  then obtain w' v g k where w': "run_schedule (turns 8 1) two_thens = Some w'"
    "run_schedule (turns 9 1) two_thens = Some v"
    "threads w' ! 1 = (Eval (Then (Some 0) g False k), [])" "continuation_set (states (pool w') ! 0)"
    "pool_ptr (states (pool w') ! 0) \<noteq> None" "run_thread 0 1 w' = Some v" "length (states (pool w')) = 2"
    by blast
  have "machine_init 1 two_thens" by (simp add: two_thens_def)
  from second_then_never_completes [OF this run_schedule_reaches [OF w'(1)] w'(3-6)] w'(2,7)
  show ?thesis by auto
qed

end
