(* ===== verification/PoolChain.thy ===== *)
theory PoolChain
  imports PoolContract
begin

text \<open>
  The values of futures. A future of \<open>post\<close> holds the result of the posted function, and a future of
  \<open>then\<close> the result of the callback on the value it continues, or the exception of the future before
  it, whichever threads executed them and in which order. The statement is about functions that only
  compute (\<open>pure\<close>): what others return may depend on the interleaving.
\<close>

section \<open>What a state is expected to hold\<close>

fun outcome_of :: "exn + 'v \<Rightarrow> 'v promise" where
  "outcome_of (Inl e) = Exception e"
| "outcome_of (Inr v) = Value v"

fun pure_result :: "'v prog \<Rightarrow> 'v promise option" where
  "pure_result (Done r) = Some (outcome_of r)"
| "pure_result e = None"

definition expected :: "'v pool \<Rightarrow> nat \<Rightarrow> 'v promise option" where
  "expected p n = (case origins p ! n of
       From_post e \<Rightarrow> pure_result e
     | From_then m g \<Rightarrow> (case promise (states p ! m) of
           Unset \<Rightarrow> None
         | Value v \<Rightarrow> pure_result (g v)
         | Exception e \<Rightarrow> Some (Exception e)))"

lemma expected_stable:
  assumes "extends p p'" "publishes p n"
  shows "expected p' n = expected p n"
proof -
  have o: "origins p' ! n = origins p ! n"
    using assms by (auto simp: publishes_def born_def extends_def prefix_nth)
  show ?thesis
  proof (cases "origins p ! n")
    case (From_then m g)
    with assms(2) have "has_promise p m" by (auto simp: publishes_def born_def)
    with assms(1) have "promise (states p' ! m) = promise (states p ! m)" by (rule extends_promise)
    with o From_then show ?thesis by (simp add: expected_def)
  qed (simp add: expected_def o)
qed

text \<open>The user's function of the innermost lambda is about to give what its state expects; lambdas below
  it run functions that are not pure.\<close>

definition frames_none :: "'v pool \<Rightarrow> 'v frame list \<Rightarrow> bool" where
  "frames_none p K \<longleftrightarrow> (\<forall>n. Publish n \<in> set K \<longrightarrow> expected p n = None)"

fun yields :: "'v control \<Rightarrow> 'v promise \<Rightarrow> bool" where
  "yields (Eval e) r = (pure_result e = Some r)"
| "yields (Raise e) r = (r = Exception e)"
| "yields c r = False"

fun chain_ok :: "'v pool \<Rightarrow> 'v thread \<Rightarrow> bool" where
  "chain_ok p (c, Publish n # K) = ((\<forall>r. expected p n = Some r \<longrightarrow> yields c r) \<and> frames_none p K)"
| "chain_ok p (c, K) = frames_none p K"

definition explained :: "'v pool \<Rightarrow> bool" where
  "explained p \<longleftrightarrow> (\<forall>n. has_promise p n \<longrightarrow>
     publishes p n \<and> (\<forall>r. expected p n = Some r \<longrightarrow> promise (states p ! n) = r))"

lemma frames_none_simps [simp]:
  "frames_none p []"
  "frames_none p (Publish n # K) \<longleftrightarrow> expected p n = None \<and> frames_none p K"
  "frames_none p (Catching n # K) \<longleftrightarrow> frames_none p K"
  "frames_none p (User k # K) \<longleftrightarrow> frames_none p K"
  "frames_none p (Discard # K) \<longleftrightarrow> frames_none p K"
  "frames_none p (Worker m # K) \<longleftrightarrow> frames_none p K"
  by (auto simp: frames_none_def)

lemma stack_publishes: "stack_ok w p K \<Longrightarrow> Publish n \<in> set K \<Longrightarrow> publishes p n"
  by (induction w p K rule: stack_ok.induct) (auto simp: detached_on_def)

lemma chain_ok_mono:
  assumes "extends p p'" "stack_ok w p K" "chain_ok p (c, K)"
  shows "chain_ok p' (c, K)"
proof -
  have "expected p' n = expected p n" if "Publish n \<in> set K" for n
    using expected_stable [OF assms(1)] stack_publishes [OF assms(2) that] .
  with assms(3) show ?thesis
    by (cases "(p, c, K)" rule: chain_ok.cases) (auto simp: frames_none_def)
qed

lemma chain_top: "call_top K \<Longrightarrow> chain_ok p (c, K) = frames_none p K"
  by (cases "(p, c, K)" rule: chain_ok.cases) auto

lemma chain_frames:
  "chain_ok p (c, K) \<Longrightarrow> (\<And>r. \<not> yields c r) \<Longrightarrow> frames_none p K"
  by (cases "(p, c, K)" rule: chain_ok.cases) auto

lemma frames_chain: "frames_none p K \<Longrightarrow> chain_ok p (c, K)"
  by (cases "(p, c, K)" rule: chain_ok.cases) auto

section \<open>Every step keeps it\<close>

lemma explained_mono:
  assumes "extends p p'" "explained p" "\<And>n. has_promise p' n \<Longrightarrow> has_promise p n"
  shows "explained p'"
  unfolding explained_def
proof (intro allI impI)
  fix n assume "has_promise p' n"
  with assms(3) have h: "has_promise p n" by blast
  with assms(2) have e: "publishes p n" "\<forall>r. expected p n = Some r \<longrightarrow> promise (states p ! n) = r"
    by (auto simp: explained_def)
  moreover have "promise (states p' ! n) = promise (states p ! n)"
    using assms(1) h by (rule extends_promise)
  ultimately show "publishes p' n \<and> (\<forall>r. expected p' n = Some r \<longrightarrow> promise (states p' ! n) = r)"
    using publishes_mono [OF assms(1)] expected_stable [OF assms(1)] by auto
qed

lemma explained_same: "extends p p' \<Longrightarrow> states p' = states p \<Longrightarrow> explained p \<Longrightarrow> explained p'"
  by (erule explained_mono) (simp_all add: has_promise_def)

text \<open>Completing a state with what it expects.\<close>

lemma explained_complete:
  assumes "explained p" "publishes p n" "promise (states p ! n) = Unset" "promise s \<noteq> Unset"
    and "\<And>r. expected p n = Some r \<Longrightarrow> promise s = r"
  shows "explained (with_state n p s)"
  unfolding explained_def
proof (intro allI impI)
  let ?p = "with_state n p s"
  have ext: "extends p ?p" using assms(3) by (intro with_state_extends) simp
  have n: "n < length (states p)" using assms(2) by (rule publishes_state)
  fix k assume k: "has_promise ?p k"
  have pub: "publishes p k" and ex: "expected p k = Some r \<Longrightarrow> promise (states ?p ! k) = r" for r
  proof -
    show "publishes p k"
      using k assms(1,2) by (cases "k = n") (auto simp: explained_def has_promise_def nth_update)
    show "promise (states ?p ! k) = r" if "expected p k = Some r"
      using that k assms(1,5) n
      by (cases "k = n") (auto simp: explained_def has_promise_def nth_update)
  qed
  then show "publishes ?p k \<and> (\<forall>r. expected ?p k = Some r \<longrightarrow> promise (states ?p ! k) = r)"
    using publishes_mono [OF ext] expected_stable [OF ext] by auto
qed

lemma resume_chain: "frames_none p K \<Longrightarrow> chain_ok p (resume c K)"
  by (cases c) (auto intro: frames_chain)

lemma resume_stack [simp]: "snd (resume c K) = K"
  by (cases c) simp_all

lemma chain_return:
  assumes "return_value v K p = Some (p', t')" "stack_ok w p K" "chain_ok p (Eval (Done (Inr v)), K)"
    and "explained p" "\<And>n K'. K = Publish n # K' \<Longrightarrow> promise (states p ! n) = Unset"
  shows "chain_ok p t' \<and> stack_ok w p (snd t') \<and> explained p'"
proof (cases K)
  case Nil
  with assms show ?thesis by auto
next
  case (Cons F K')
  show ?thesis
  proof (cases F)
    case (Publish n)
    with Cons assms have n: "publishes p n" "promise (states p ! n) = Unset" by auto
    with Cons Publish assms(1) have
      "p' = with_state n p ((states p ! n)\<lparr>promise := Value v, completed := True, continuation := None\<rparr>)"
      "t' = resume (continuation (states p ! n)) (Catching n # K')"
      by (simp_all add: set_value_def complete_first)
    moreover have "r = Value v" if "expected p n = Some r" for r
      using that assms(3) Cons Publish by simp
    ultimately show ?thesis
      using explained_complete [OF assms(4) n] assms(2,3) Cons Publish
      by (simp add: resume_chain del: chain_ok.simps(2-))
  qed (use assms Cons in \<open>auto simp: detached_on_def\<close>)
qed

lemma chain_raise:
  assumes "raise_step e K p = Some (p', t')" "stack_ok w p K" "chain_ok p (Raise e, K)" "raise_ok w p K"
    and "explained p" "\<And>n K'. K = Publish n # K' \<Longrightarrow> promise (states p ! n) = Unset"
    and "extends p p'"
  shows "chain_ok p t' \<and> stack_ok w p (snd t') \<and> explained p'"
proof (cases K)
  case Nil
  with assms show ?thesis by (auto intro: explained_same)
next
  case (Cons F K')
  show ?thesis
  proof (cases F)
    case (Publish n)
    with Cons assms have n: "publishes p n" "promise (states p ! n) = Unset" by auto
    with Cons Publish assms(1) have
      "p' = with_state n p ((states p ! n)\<lparr>promise := Exception e, completed := True, continuation := None\<rparr>)"
      "t' = resume (continuation (states p ! n)) K'"
      by (simp_all add: set_exception_def complete_first)
    moreover have "r = Exception e" if "expected p n = Some r" for r
      using that assms(3) Cons Publish by simp
    ultimately show ?thesis
      using explained_complete [OF assms(5) n] assms(2,3) Cons Publish
      by (simp add: resume_chain)
  qed (use assms Cons in \<open>auto intro: explained_same frames_chain simp: detached_on_def\<close>)
qed

lemma chain_invoke:
  assumes "invoke_step t K p = Some (p', t')" "stack_ok w p K" "invoke_ok p K t" "frames_none p K"
  shows "chain_ok p t' \<and> stack_ok w p (snd t') \<and> p' = p"
proof (cases t)
  case (Posted e n)
  with assms have "publishes p n" "expected p n = pure_result e"
    by (auto simp: invoke_ok_def publishes_def expected_def born_def)
  with Posted assms show ?thesis by (auto simp: invoke_ok_def)
next
  case (Continued m g n)
  with assms have "publishes p n"
    "expected p n = (case promise (states p ! m) of Unset \<Rightarrow> None
       | Value v \<Rightarrow> pure_result (g v) | Exception e \<Rightarrow> Some (Exception e))"
    by (auto simp: invoke_ok_def publishes_def expected_def born_def)
  with Continued assms show ?thesis
    by (auto simp: invoke_ok_def shared_future_get_def split: promise.splits)
qed (use assms in \<open>auto simp: invoke_ok_def detached_on_def intro: frames_chain\<close>)

lemma has_promise_update:
  "promise s = promise (states p ! n) \<Longrightarrow> promise s' = Unset \<Longrightarrow>
   has_promise (p\<lparr>states := (states p)[n := s] @ [s'], origins := os\<rparr>) k \<Longrightarrow> has_promise p k"
  "promise s = promise (states p ! n) \<Longrightarrow>
   has_promise (p\<lparr>states := (states p)[n := s]\<rparr>) k \<Longrightarrow> has_promise p k"
  by (auto simp: has_promise_def nth_append nth_update less_Suc_eq split: if_splits)

lemma eval_keeps_promises:
  assumes "eval_step e K p = Some (p', t')" "states_ok p" "\<And>r. e \<noteq> Done r" "has_promise p' k"
  shows "has_promise p k"
proof (cases e)
  case (Done r)
  with assms(3) [of r] show ?thesis by simp
next
  case (Post e' k')
  with assms show ?thesis
    by (auto simp: new_future_def has_promise_def nth_append less_Suc_eq split: if_splits)
next
  case (Then f g inl k')
  obtain x ss where t: "then_impl f g inl (states p) = (x, ss)" by fastforce
  from Then assms(1) have h: "handle_ok f p" by (simp split: if_splits)
  from t assms(2) h show ?thesis
  proof (cases rule: then_cases)
    case (created n now s c)
    let ?s0 = "(states p ! n)\<lparr>promise_taken := True, future_retrieved := True\<rparr>"
    have "state_ok ?s0" using assms(2) created(2) by (auto simp: states_ok_def state_ok_def)
    from set_continuation_ok(1) [OF created(5) this] have "promise s = promise (states p ! n)" by simp
    with Then t h created assms(1,4) show ?thesis
      by (auto elim: has_promise_update(1) [rotated 2])
  qed (use Then t h assms(1,4) in \<open>auto simp: has_promise_def nth_update split: if_splits\<close>)
next
  case (Get f k')
  with assms show ?thesis
    by (auto simp: handle_ok_def future_get_def has_promise_def nth_update get_future_def
        split: option.splits if_splits prod.splits outcome.splits)
next
  case (Wait_for f k')
  with assms show ?thesis
    by (auto simp: handle_ok_def future_wait_def has_promise_def nth_update get_future_def
        split: option.splits if_splits prod.splits outcome.splits)
qed (use assms in auto)

lemma eval_frames:
  assumes "eval_step e K p = Some (p', c', K')" "\<And>r. e \<noteq> Done r"
  shows "K' = K \<or> (\<exists>k. K' = User k # K)"
  using assms
  by (cases "(e, K, p)" rule: eval_step.cases)
    (auto split: prod.splits sum.splits option.splits if_splits elim!: resume.elims)

lemma chain_eval:
  assumes "eval_step e K p = Some (p', t')" "stack_ok w p K" "user_top w K" "states_ok p"
    and "chain_ok p (Eval e, K)" "explained p" "extends p p'"
    and "\<And>n K'. K = Publish n # K' \<Longrightarrow> promise (states p ! n) = Unset"
  shows "chain_ok p t' \<and> stack_ok w p (snd t') \<and> explained p'"
proof (cases "\<exists>r. e = Done r")
  case True
  then obtain r where e: "e = Done r" by blast
  show ?thesis
  proof (cases r)
    case (Inr v)
    with e assms show ?thesis by (intro chain_return) auto
  next
    case (Inl x)
    with e assms show ?thesis
      by (cases "(p, Eval e, K)" rule: chain_ok.cases) auto
  qed
next
  case False
  then have np: "e \<noteq> Done r" for r by blast
  then have "pure_result e = None" by (cases e) auto
  with assms(5) have fn: "frames_none p K" by (intro chain_frames) auto
  obtain c' K' where t': "t' = (c', K')" by fastforce
  with eval_frames [of e K p p' c' K'] assms(1) np have K': "K' = K \<or> (\<exists>k. K' = User k # K)" by blast
  with fn have "frames_none p K'" by auto
  moreover have "stack_ok w p K'" using K' assms(2,3) by auto
  moreover have "explained p'"
    using explained_mono [OF assms(7,6)] eval_keeps_promises [OF assms(1,4) np] by blast
  ultimately show ?thesis by (simp add: t' frames_chain)
qed

lemma chain_other:
  assumes "thread_step j i (c, K) p = Some (p', t')" "control_ok i p K c" "stack_ok w p K"
    and "frames_none p K" "w \<longleftrightarrow> i < length (queues p)"
    and "\<And>e. c \<noteq> Eval e" "\<And>e. c \<noteq> Raise e" "\<And>t. c \<noteq> Invoke t"
  shows "frames_none p (snd t') \<and> stack_ok w p (snd t') \<and> states p' = states p"
proof (cases c)
  case (Choose t)
  with assms show ?thesis by (auto simp: lift_def choose_victim_def split: if_splits)
next
  case Notify
  with assms show ?thesis by (auto simp: lift_def notify_one_def split: if_splits option.splits)
next
  case Back
  with assms show ?thesis by (cases "(K, p)" rule: back_step.cases) auto
next
  case Own
  with assms show ?thesis by (auto split: list.splits)
next
  case Steal
  with assms show ?thesis by (auto simp: choose_victim_def Let_def split: if_splits)
next
  case (Steal_from v)
  with assms show ?thesis by (auto simp: Let_def split: if_splits)
qed (use assms in \<open>auto simp: lift_def split: if_splits option.splits\<close>)

lemma chain_step:
  assumes "thread_step j i (c, K) p = Some (p', t')" "states_ok p" "thread_ok i p (c, K)"
    and "chain_ok p (c, K)" "explained p" "extends p p'"
    and "\<And>n K'. K = Publish n # K' \<Longrightarrow> promise (states p ! n) = Unset"
  shows "chain_ok p' t' \<and> explained p'"
proof -
  let ?w = "i < length (queues p)"
  have st: "stack_ok ?w p K" and ct: "control_ok i p K c" using assms(3) by simp_all
  have "chain_ok p t' \<and> stack_ok ?w p (snd t') \<and> explained p'"
  proof (cases c)
    case (Eval e)
    with assms st ct show ?thesis by (intro chain_eval) auto
  next
    case (Raise e)
    with assms st ct show ?thesis by (intro chain_raise) auto
  next
    case (Invoke t)
    with assms(4) ct have "frames_none p K" by (simp add: chain_top invoke_ok_def)
    with Invoke assms(1,5) st ct chain_invoke [of t K p p' t' ?w] show ?thesis by auto
  next
    case (Blocked m k)
    with assms(1) st have "frames_none p K" "p' = p" "snd t' = K"
      using assms(4) chain_frames [of p c K] by (auto split: option.splits)
    with st assms(5) show ?thesis by (cases t') (auto intro: frames_chain)
  next
    case Ended
    with assms(1) show ?thesis by simp
  qed (use chain_other [OF assms(1) ct st _ refl] assms(4-6) chain_frames [of p c K] in
      \<open>(cases t', auto intro: frames_chain explained_same)[1]\<close>)+
  then show ?thesis
    using chain_ok_mono [OF assms(6), of ?w "snd t'" "fst t'"] by simp
qed

section \<open>The invariant\<close>

definition chain_inv :: "nat \<Rightarrow> 'v machine \<Rightarrow> bool" where
  "chain_inv n w \<longleftrightarrow> machine_inv n w \<and> explained (pool w) \<and>
     (\<forall>i<length (threads w). chain_ok (pool w) (threads w ! i))"

lemma chain_inv_init: "machine_init n w \<Longrightarrow> chain_inv n w"
  using machine_inv_init [of n w]
  by (auto simp: machine_init_def new_machine_def chain_inv_def new_pool_def explained_def
      has_promise_def nth_append)

lemma other_thread:
  assumes "machine_inv n w" "extends (pool w) p'" "k < length (threads w)" "chain_ok (pool w) (threads w ! k)"
  shows "chain_ok p' (threads w ! k)"
proof -
  obtain c K where t: "threads w ! k = (c, K)" by fastforce
  with assms(1,3) have "thread_ok k (pool w) (c, K)" by (auto simp: machine_inv_def simp flip: t)
  then have "stack_ok (k < length (queues (pool w))) (pool w) K" by simp
  from chain_ok_mono [OF assms(2) this] assms(4) show ?thesis by (simp add: t)
qed

lemma chain_inv_run:
  assumes "chain_inv n w" "run_thread j i w = Some w'"
  shows "chain_inv n w'"
proof -
  have inv: "machine_inv n w" using assms(1) by (simp add: chain_inv_def)
  from inv assms(2) show ?thesis
  proof (cases rule: run_facts)
    case (1 p' t')
    let ?p = "pool w"
    have ext: "extends ?p p'" using 1(4) by (simp add: keeps_def)
    obtain c K where t: "threads w ! i = (c, K)" by fastforce
    have ok: "states_ok ?p" "thread_ok i ?p (c, K)"
      using inv 1(1) by (auto simp: machine_inv_def simp flip: t)
    have "promise (states ?p ! m) = Unset" if "K = Publish m # K'" for m K'
      using that ok(2) t inv publish_open [OF _ 1(1), of c m K']
      by (simp add: machine_inv_def publishes_state)
    moreover have "chain_ok ?p (c, K)" "explained ?p"
      using assms(1) 1(1) by (auto simp: chain_inv_def simp flip: t)
    ultimately have "chain_ok p' t' \<and> explained p'"
      using chain_step [OF _ ok _ _ ext] 1(3) unfolding t by blast
    moreover have "chain_ok p' (threads w ! k)" if "k < length (threads w)" for k
      using that assms(1) by (intro other_thread [OF inv ext]) (auto simp: chain_inv_def)
    ultimately show ?thesis
      using machine_inv_run [OF inv assms(2)] 1(1,2) by (auto simp: chain_inv_def nth_update)
  qed
qed

lemma chain_inv_wake:
  assumes "chain_inv n w" shows "chain_inv n (wake_up i w)"
proof -
  have inv: "machine_inv n w" using assms by (simp add: chain_inv_def)
  have ext: "extends (pool w) (pool (wake_up i w))" by (simp add: wake_up_def extends_def)
  have "explained (pool (wake_up i w))"
    using assms ext by (intro explained_same [OF ext]) (auto simp: wake_up_def chain_inv_def)
  moreover have "chain_ok (pool (wake_up i w)) (threads w ! k)" if "k < length (threads w)" for k
    using that assms by (intro other_thread [OF inv ext]) (auto simp: chain_inv_def)
  ultimately show ?thesis
    using machine_inv_wake [OF inv] by (auto simp: chain_inv_def wake_up_def)
qed

interpretation chain: invariant_system "machine_init n" machine_step "chain_inv n"
proof
  show "chain_inv n w'" if "chain_inv n w" "machine_step w w'" for w w' :: "'a machine"
    using that(2,1) by cases (auto intro: chain_inv_run chain_inv_wake)
qed (rule chain_inv_init)

section \<open>Properties\<close>

text \<open>C3. Futures hold the right results. A completed future of \<open>post\<close> holds what the posted function
  returned or threw; a completed future of \<open>then\<close> implies that the future it continues is completed,
  and holds its exception, or what the callback returned or threw on its value. This is so in every
  reachable state, whichever threads ran the tasks and in whatever order, for functions that only
  compute.\<close>

theorem futures_hold_results:
  assumes "machine_init k w" and "machine_step\<^sup>*\<^sup>* w w'"
    and "n < length (states (pool w'))" and "promise (states (pool w') ! n) \<noteq> Unset"
  shows "case origins (pool w') ! n of
      From_post e \<Rightarrow> (\<forall>r. e = Done r \<longrightarrow> promise (states (pool w') ! n) = outcome_of r)
    | From_then m g \<Rightarrow> (case promise (states (pool w') ! m) of
          Unset \<Rightarrow> False
        | Exception e \<Rightarrow> promise (states (pool w') ! n) = Exception e
        | Value v \<Rightarrow> (\<forall>r. g v = Done r \<longrightarrow> promise (states (pool w') ! n) = outcome_of r))"
proof -
  have "chain_inv k w'" using assms(1,2) by (rule chain.inv_reachable)
  then have "publishes (pool w') n"
    "\<forall>r. expected (pool w') n = Some r \<longrightarrow> promise (states (pool w') ! n) = r"
    using assms(3,4) by (auto simp: chain_inv_def explained_def has_promise_def)
  then show ?thesis
    by (auto simp: expected_def publishes_def born_def has_promise_def
        split: origin.splits promise.splits)
qed

definition post_then :: "nat machine" where
  "post_then = new_machine 1 [Post (Done (Inr 7)) (\<lambda>f. Then f (\<lambda>v. Done (Inr (v + 1))) False
     (\<lambda>_. Done (Inr 0)))]"

lemma post_then_runs:
  "map_option (\<lambda>w. (map promise (states (pool w)), origins (pool w)))
     (run_schedule (turns 7 1 @ turns 17 0) post_then) =
   Some ([Value 7, Value 8], [From_post (Done (Inr 7)), From_then 0 (\<lambda>v. Done (Inr (v + 1)))])"
  by (simp add: post_then_def small_machines)

theorem futures_hold_results_witness:
  "\<exists>w'. run_schedule (turns 7 1 @ turns 17 0) post_then = Some w' \<and>
     promise (states (pool w') ! 0) = Value 7 \<and> promise (states (pool w') ! 1) = Value 8"
proof -
  from post_then_runs obtain w' where w': "run_schedule (turns 7 1 @ turns 17 0) post_then = Some w'"
    and p: "map promise (states (pool w')) = [Value 7, Value 8]"
    and o: "origins (pool w') = [From_post (Done (Inr 7)), From_then 0 (\<lambda>v. Done (Inr (v + 1)))]"
    by auto
  have len: "length (states (pool w')) = 2" using arg_cong [OF p, of length] by simp
  have pr: "promise (states (pool w') ! i) = [Value 7, Value 8] ! i" if "i < 2" for i
    using that len nth_map [of i "states (pool w')" promise] unfolding p by simp
  have set: "promise (states (pool w') ! 0) \<noteq> Unset" "promise (states (pool w') ! 1) \<noteq> Unset"
    using pr [of 0] pr [of 1] by simp_all
  have "machine_init 1 post_then" by (simp add: post_then_def)
  note results = futures_hold_results [OF this run_schedule_reaches [OF w']]
  from results [of 0] len set(1) o have "promise (states (pool w') ! 0) = Value 7" by simp
  with results [of 1] len set(2) o w' show ?thesis by auto
qed

end
