(* ===== verification/PoolProgress.thy ===== *)
theory PoolProgress
  imports PoolContract
begin

text \<open>
  Progress of the pool: what a thread that cannot run can be waiting for. Together with the invariant
  of \<^theory_text>\<open>PoolShape\<close> it is the type safety of the machine: no reachable configuration is stuck
  for any other reason, and a mutex is only ever held by a thread that can go on.
\<close>

section \<open>Waiting\<close>

definition bad_handle :: "'v prog \<Rightarrow> 'v pool \<Rightarrow> bool" where
  "bad_handle e p = (case e of
       Then f g b k \<Rightarrow> \<not> handle_ok f p | Get f k \<Rightarrow> \<not> handle_ok f p
     | Wait_for f k \<Rightarrow> \<not> handle_ok f p | _ \<Rightarrow> False)"

text \<open>Done; blocked on a future without a result; blocked on a condition variable or on a mutex another
  thread holds; joining a worker that still runs. User code can also hold a handle to a state that
  never existed, which no code of the library gives it.\<close>

fun waits :: "nat \<Rightarrow> 'v thread \<Rightarrow> 'v pool \<Rightarrow> bool" where
  "waits i (Ended, K) p = True"
| "waits i (Exited, K) p = True"
| "waits i (Blocked n k, K) p = (promise (states p ! n) = Unset)"
| "waits i (Asleep, K) p = (i \<in> set (th_waiters p))"
| "waits i (Await_asleep, K) p = (i \<in> set (wait_waiters p))"
| "waits i (Test, K) p = (th_mutex p \<noteq> None)"
| "waits i (Await, K) p = (wait_mutex p \<noteq> None)"
| "waits i (Join k, K) p = (k < length (queues p) \<and> k \<noteq> i \<and> k \<notin> set (exited p))"
| "waits i (Eval e, K) p = bad_handle e p"
| "waits i (c, K) p = False"

section \<open>Every other thread can run\<close>

lemma return_runs: "user_top w K \<Longrightarrow> return_value v K p \<noteq> None"
  by (cases "(w, K)" rule: user_top.cases) (auto split: prod.splits outcome.splits)

lemma raise_runs: "raise_step e K p \<noteq> None"
  by (cases "(e, K, p)" rule: raise_step.cases)
    (auto simp: Let_def split: frame.splits prod.splits outcome.splits)

lemma back_runs: "call_top K \<Longrightarrow> back_step K p \<noteq> None"
  by (cases K rule: call_top.cases) auto

lemma invoke_runs: "task_ok p t \<Longrightarrow> invoke_step t K p \<noteq> None"
  by (cases t) (auto simp: has_promise_def shared_future_get_def split: promise.splits)

lemma eval_runs:
  assumes "user_top w K" "\<not> bad_handle e p"
  shows "eval_step e K p \<noteq> None"
  using assms return_runs [OF assms(1), of _ p]
  by (cases "(e, K, p)" rule: eval_step.cases)
    (auto simp: bad_handle_def split: prod.splits sum.splits)

lemma notify_runs: "\<exists>j. notify_one j p \<noteq> None"
  by (cases "th_waiters p") (auto simp: notify_one_def)

lemma lift_runs: "lift K r \<noteq> None \<longleftrightarrow> r \<noteq> None"
  by (auto simp: lift_def split: option.splits)

lemma progress:
  assumes "thread_ok i p (c, K)" "\<not> waits i (c, K) p"
  shows "\<exists>j. thread_step j i (c, K) p \<noteq> None"
proof (cases c)
  case (Eval e)
  with assms eval_runs [of "i < length (queues p)" K e p] show ?thesis by auto
next
  case (Blocked n k)
  with assms show ?thesis by (auto simp: shared_future_get_def split: promise.splits)
next
  case (Invoke t)
  with assms invoke_runs [of p t K] show ?thesis by (auto simp: invoke_ok_def)
next
  case Back
  with assms back_runs [of K p] show ?thesis by auto
next
  case (Raise e)
  with raise_runs [of e K p] show ?thesis by auto
next
  case Notify
  with notify_runs [of p] show ?thesis by (auto simp: lift_def split: option.splits)
qed (use assms in \<open>auto simp: lift_def choose_victim_def Let_def split: list.splits if_splits\<close>)


section \<open>Mutexes and exits\<close>

text \<open>A mutex is held exactly while its holder is between the predicate and the blocking, and a worker
  is joinable exactly when its loop has returned.\<close>

definition sync_ok :: "nat \<Rightarrow> 'v control \<Rightarrow> 'v pool \<Rightarrow> bool" where
  "sync_ok i c p \<longleftrightarrow> (th_mutex p = Some i \<longleftrightarrow> c = Doze) \<and> (wait_mutex p = Some i \<longleftrightarrow> c = Await_doze) \<and>
     (i \<in> set (exited p) \<longleftrightarrow> c = Exited)"

definition same_sync :: "nat \<Rightarrow> 'v pool \<Rightarrow> 'v pool \<Rightarrow> bool" where
  "same_sync k p p' \<longleftrightarrow> (th_mutex p' = Some k \<longleftrightarrow> th_mutex p = Some k) \<and>
     (wait_mutex p' = Some k \<longleftrightarrow> wait_mutex p = Some k) \<and> (k \<in> set (exited p') \<longleftrightarrow> k \<in> set (exited p))"

lemma sync_other: "same_sync k p p' \<Longrightarrow> sync_ok k c p' = sync_ok k c p"
  by (simp add: same_sync_def sync_ok_def)

lemma sync_same:
  assumes "th_mutex p' = th_mutex p" "wait_mutex p' = wait_mutex p" "exited p' = exited p"
    "sync_ok i c p" "c \<notin> {Doze, Await_doze, Exited}" "fst t' \<notin> {Doze, Await_doze, Exited}"
  shows "sync_ok i (fst t') p' \<and> (\<forall>k. same_sync k p p')"
  using assms by (auto simp: sync_ok_def same_sync_def)

lemma resume_control [simp]:
  "fst (resume c K) \<noteq> Doze" "fst (resume c K) \<noteq> Await_doze" "fst (resume c K) \<noteq> Exited"
  by (cases c; simp)+

lemma block_on_control [simp]:
  "block_on f k r \<noteq> Doze" "block_on f k r \<noteq> Await_doze" "block_on f k r \<noteq> Exited"
  by (simp_all add: block_on_def split: option.split)

lemma sync_step:
  assumes "thread_step j i (c, K) p = Some (p', t')" "sync_ok i c p"
  shows "sync_ok i (fst t') p' \<and> (\<forall>k. k \<noteq> i \<longrightarrow> same_sync k p p')"
proof (cases c)
  case (Eval e)
  with assms(1) have e: "eval_step e K p = Some (p', t')" by simp
  show ?thesis
  proof (cases "(e, K, p)" rule: eval_step.cases)
    case (1 v K' p0)
    with e have "return_value v K p = Some (p', t')" by simp
    with assms(2) Eval sync_same [of p' p i c t'] show ?thesis
      by (cases "(v, K, p)" rule: return_value.cases)
        (auto simp: with_state_def split: prod.splits outcome.splits)
  qed (use assms(2) Eval e sync_same [of p' p i c t'] in \<open>auto simp: new_future_def
      split: prod.splits sum.splits if_splits option.splits\<close>)
next
  case (Invoke t)
  with assms sync_same [of p' p i c t'] show ?thesis
    by (cases t) (auto split: option.splits sum.splits)
next
  case (Raise e)
  with assms sync_same [of p' p i c t'] show ?thesis
    by (cases "(e, K, p)" rule: raise_step.cases)
      (auto simp: Let_def with_state_def split: frame.splits prod.splits outcome.splits)
next
  case Back
  with assms sync_same [of p' p i c t'] show ?thesis by (cases "(K, p)" rule: back_step.cases) auto
qed (use assms in \<open>auto simp: lift_def choose_victim_def notify_one_def Let_def sync_ok_def same_sync_def
    split: if_splits option.splits list.splits prod.splits\<close>)

definition sync_inv :: "nat \<Rightarrow> 'v machine \<Rightarrow> bool" where
  "sync_inv n w \<longleftrightarrow> machine_inv n w \<and> (\<forall>k<length (threads w). sync_ok k (fst (threads w ! k)) (pool w)) \<and>
     (\<forall>k\<ge>length (threads w). th_mutex (pool w) \<noteq> Some k \<and> wait_mutex (pool w) \<noteq> Some k)"

lemma sync_inv_run:
  assumes "sync_inv n w" "run_thread j i w = Some w'"
  shows "sync_inv n w'"
proof -
  from assms(1) have inv: "machine_inv n w" by (simp add: sync_inv_def)
  from inv assms(2) obtain p' t' where i: "i < length (threads w)"
    and w': "w' = w\<lparr>pool := p', threads := (threads w)[i := t']\<rparr>"
    and step: "thread_step j i (threads w ! i) (pool w) = Some (p', t')" by (auto elim!: run_facts)
  from assms(1) i have "sync_ok i (fst (threads w ! i)) (pool w)" by (simp add: sync_inv_def)
  with step have t: "sync_ok i (fst t') p'" and others: "\<And>k. k \<noteq> i \<Longrightarrow> same_sync k (pool w) p'"
    using sync_step [of j i "fst (threads w ! i)" "snd (threads w ! i)"] by simp_all
  show ?thesis
    unfolding sync_inv_def
  proof (intro conjI allI impI)
    show "machine_inv n w'" using inv assms(2) by (rule machine_inv_run)
    show "sync_ok k (fst (threads w' ! k)) (pool w')" if "k < length (threads w')" for k
      using that assms(1) t sync_other [OF others, of k]
      by (cases "k = i") (simp_all add: w' sync_inv_def)
    fix k assume "k \<ge> length (threads w')"
    with i have "same_sync k (pool w) p'" "k \<ge> length (threads w)" by (auto intro: others simp: w')
    with assms(1) show "th_mutex (pool w') \<noteq> Some k" "wait_mutex (pool w') \<noteq> Some k"
      by (simp_all add: w' same_sync_def sync_inv_def)
  qed
qed

interpretation sync: invariant_system "machine_init n" machine_step "sync_inv n"
proof
  show "sync_inv n w" if "machine_init n w" for w :: "'a machine"
  proof -
    obtain es where w: "w = new_machine n es" using \<open>machine_init n w\<close> by (auto simp: machine_init_def)
    have "fst (threads w ! k) \<in> {Loop, Eval (es ! (k - n))}" if "k < length (threads w)" for k
      using that by (auto simp: w new_machine_def nth_append)
    with machine_inv_init [OF \<open>machine_init n w\<close>] show ?thesis
      by (fastforce simp: sync_inv_def sync_ok_def w new_machine_def new_pool_def)
  qed
  show "sync_inv n w'" if "sync_inv n w" "machine_step w w'" for w w' :: "'a machine"
    using that(2,1)
  proof cases
    case (spurious_wake_up i)
    with that(1) machine_inv_wake [of n w i] show ?thesis by (auto simp: sync_inv_def sync_ok_def wake_up_def)
  qed (auto intro: sync_inv_run)
qed

lemma stuck_waits:
  assumes "machine_inv n w" "i < length (threads w)" "\<not> terminated (pool w)" "fault (pool w) = None"
    and "\<not> waits i (threads w ! i) (pool w)"
  shows "\<exists>j w'. run_thread j i w = Some w'"
proof -
  have "thread_ok i (pool w) (threads w ! i)" using assms(1,2) by (simp add: machine_inv_def)
  with assms(5) have "\<exists>j. thread_step j i (threads w ! i) (pool w) \<noteq> None"
    using progress [of i "pool w" "fst (threads w ! i)" "snd (threads w ! i)"] by simp
  then obtain j p' t' where "thread_step j i (threads w ! i) (pool w) = Some (p', t')" by auto
  with assms(2-4) have "run_thread j i w = Some (w\<lparr>pool := p', threads := (threads w)[i := t']\<rparr>)"
    by (simp add: run_thread_def)
  then show ?thesis by blast
qed

section \<open>Property\<close>

text \<open>C6. The machine of the pool is type safe: in every reachable state a thread that cannot run
  is at a place where it waits. It has returned, or it waits for a future without a result, for a
  notification, for the exit of a worker, or for a mutex. (User code that makes up a handle of a state
  that does not exist has no step either.) A mutex is held by one thread only, at the point where it
  is about to block on the condition variable, and that thread can run; so the mutexes never deadlock. A worker that is waited for by \<open>join\<close> is still in its loop.\<close>

theorem stuck_thread_waits:
  assumes "machine_init n w" and "machine_step\<^sup>*\<^sup>* w w'" and "i < length (threads w')"
    and "\<not> terminated (pool w')" and "fault (pool w') = None" and "\<forall>j. run_thread j i w' = None"
  shows "waits i (threads w' ! i) (pool w') \<and>
    (\<forall>k. th_mutex (pool w') = Some k \<longrightarrow> fst (threads w' ! k) = Doze \<and> run_thread 0 k w' \<noteq> None) \<and>
    (\<forall>k. wait_mutex (pool w') = Some k \<longrightarrow> fst (threads w' ! k) = Await_doze \<and> run_thread 0 k w' \<noteq> None) \<and>
    (\<forall>k K. threads w' ! i = (Join k, K) \<longrightarrow> fst (threads w' ! k) \<noteq> Exited)"
proof (intro conjI allI impI)
  have s: "sync_inv n w'" using assms(1,2) by (rule sync.inv_reachable)
  then have inv: "machine_inv n w'" by (simp add: sync_inv_def)
  show waits: "waits i (threads w' ! i) (pool w')"
    using stuck_waits [OF inv assms(3-5)] assms(6) by auto
  have holder: "k < length (threads w') \<and> sync_ok k (fst (threads w' ! k)) (pool w')"
    if "th_mutex (pool w') = Some k \<or> wait_mutex (pool w') = Some k" for k
    using s that unfolding sync_inv_def by (meson not_le)
  have doze: "run_thread 0 k w' \<noteq> None"
    if "k < length (threads w')" "fst (threads w' ! k) = Doze \<or> fst (threads w' ! k) = Await_doze" for k
    using that assms(4,5) by (cases "threads w' ! k") (auto simp: run_thread_def lift_def)
  fix k
  show "fst (threads w' ! k) = Doze" "run_thread 0 k w' \<noteq> None" if "th_mutex (pool w') = Some k"
    using holder [of k] doze [of k] that by (auto simp: sync_ok_def)
  show "fst (threads w' ! k) = Await_doze" "run_thread 0 k w' \<noteq> None" if "wait_mutex (pool w') = Some k"
    using holder [of k] doze [of k] that by (auto simp: sync_ok_def)
  show "fst (threads w' ! k) \<noteq> Exited" if "threads w' ! i = (Join k, K)" for K
  proof -
    have "k < length (threads w')" "k \<notin> set (exited (pool w'))"
      using that waits inv by (auto simp: machine_inv_def)
    with s show ?thesis by (auto simp: sync_inv_def sync_ok_def)
  qed
qed

text \<open>Two workers that find nothing to do: one is about to block, the other waits for the mutex.\<close>

theorem stuck_thread_waits_witness:
  "\<exists>w'. run_schedule (turns 5 0 @ turns 4 1) (new_machine 2 [] :: nat machine) = Some w' \<and>
     th_mutex (pool w') = Some 0 \<and> waits 1 (threads w' ! 1) (pool w') \<and> run_thread 0 0 w' \<noteq> None"
proof -
  have "\<exists>w'. run_schedule (turns 5 0 @ turns 4 1) (new_machine 2 [] :: nat machine) = Some w' \<and>
     th_mutex (pool w') = Some 0 \<and> 1 < length (threads w') \<and> \<not> terminated (pool w') \<and>
     fault (pool w') = None \<and> (\<forall>j. run_thread j 1 w' = None)"
    by (simp add: small_machines)
  then obtain w' where w': "run_schedule (turns 5 0 @ turns 4 1) (new_machine 2 [] :: nat machine) = Some w'"
    "th_mutex (pool w') = Some 0" "1 < length (threads w')" "\<not> terminated (pool w')"
    "fault (pool w') = None" "\<forall>j. run_thread j 1 w' = None" by blast
  from stuck_thread_waits [OF machine_init_new run_schedule_reaches [OF w'(1)] w'(3-6)] w'(1,2)
  show ?thesis by blast
qed

end
