(* ===== verification/PoolDone.thy ===== *)
theory PoolDone
  imports PoolChain PoolProgress
begin

text \<open>
  What a finished post has done: the future of a finished \<open>post\<close> or \<open>then\<close> is completed. So is,
  once \<open>wait\<close> returned, the future of everything that was counted.
\<close>

section \<open>Posts and their futures\<close>

text \<open>The state the lambda of a post completes itself.\<close>

fun own_state :: "'v task \<Rightarrow> nat option" where
  "own_state (Posted e n) = Some n"
| "own_state (Continued m g n) = Some n"
| "own_state t = None"

definition started :: "'v pool \<Rightarrow> nat \<Rightarrow> bool" where
  "started p m \<longleftrightarrow> m < length (posted p) \<and> task_ok p (posted p ! m)"

definition fulfilled :: "'v pool \<Rightarrow> nat \<Rightarrow> bool" where
  "fulfilled p m \<longleftrightarrow> started p m \<and>
     (\<forall>n. own_state (posted p ! m) = Some n \<longrightarrow> has_promise p n)"

definition underway :: "'v pool \<Rightarrow> nat \<Rightarrow> 'v thread \<Rightarrow> bool" where
  "underway p m t \<longleftrightarrow> started p m \<and> (\<forall>n. own_state (posted p ! m) = Some n \<longrightarrow>
     has_promise p n \<or> Publish n \<in> set (snd t) \<or> t = (Invoke (posted p ! m), [Worker m]))"

definition done_ok :: "'v pool \<Rightarrow> 'v thread \<Rightarrow> bool" where
  "done_ok p t \<longleftrightarrow> (\<forall>m. Worker m \<in> set (snd t) \<longrightarrow> underway p m t) \<and>
     (\<forall>m. fst t = Finish m \<longrightarrow> fulfilled p m)"

lemma extends_started:
  "extends p p' \<Longrightarrow> started p m \<Longrightarrow> started p' m \<and> posted p' ! m = posted p ! m"
  unfolding started_def using extends_mono(3) [of p p' m "posted p ! m"] task_ok_mono [of p p']
  by (auto simp: is_post_def)

lemma fulfilled_mono: "extends p p' \<Longrightarrow> fulfilled p m \<Longrightarrow> fulfilled p' m"
  unfolding fulfilled_def using extends_started [of p p' m] extends_mono(1) [of p p'] by auto

lemma underway_mono: "extends p p' \<Longrightarrow> underway p m t \<Longrightarrow> underway p' m t"
  unfolding underway_def using extends_started [of p p' m] extends_mono(1) [of p p'] by auto

lemma done_ok_mono: "extends p p' \<Longrightarrow> done_ok p t \<Longrightarrow> done_ok p' t"
  unfolding done_ok_def using underway_mono [of p p'] fulfilled_mono [of p p'] by blast

text \<open>A step that takes no post, ends no call of a worker and pops only completed lambdas.\<close>

lemma done_frames:
  assumes "done_ok p (c, K)" "extends p p'" "\<And>m. Worker m \<in> set (snd t') \<Longrightarrow> Worker m \<in> set K"
    and "\<And>n. Publish n \<in> set K \<Longrightarrow> Publish n \<in> set (snd t') \<or> has_promise p' n"
    and "\<And>m. fst t' \<noteq> Finish m" "\<And>t. c \<noteq> Invoke t"
  shows "done_ok p' t'"
proof -
  have "done_ok p' (c, K)" using assms(1,2) by (blast intro: done_ok_mono)
  with assms(3-6) show ?thesis unfolding done_ok_def underway_def by fastforce
qed

definition keeps_frames :: "'v frame list \<Rightarrow> 'v thread \<Rightarrow> bool" where
  "keeps_frames K t \<longleftrightarrow> (\<forall>m. Worker m \<in> set (snd t) \<longrightarrow> Worker m \<in> set K) \<and>
     (\<forall>n. Publish n \<in> set K \<longrightarrow> Publish n \<in> set (snd t)) \<and> (\<forall>m. fst t \<noteq> Finish m)"

lemma done_keeps:
  "done_ok p (c, K) \<Longrightarrow> extends p p' \<Longrightarrow> keeps_frames K t' \<Longrightarrow> (\<And>t. c \<noteq> Invoke t) \<Longrightarrow> done_ok p' t'"
  by (rule done_frames [where c = c and K = K]) (auto simp: keeps_frames_def)

lemma resume_not_finish [simp]: "fst (resume c K) \<noteq> Finish m"
  by (cases c) simp_all

lemma block_on_not_finish [simp]: "block_on f k r \<noteq> Finish m"
  by (simp add: block_on_def split: option.split)

lemma done_return:
  assumes "return_value v K p = Some (p', t')" "stack_ok w p K" "done_ok p (c, K)" "extends p p'"
    and "\<And>n K'. K = Publish n # K' \<Longrightarrow> promise (states p ! n) = Unset" "\<And>t. c \<noteq> Invoke t"
  shows "done_ok p' t'"
proof (cases "(v, K, p)" rule: return_value.cases)
  case (1 v' n K' p0)
  with assms have "n < length (states p)" "promise (states p ! n) = Unset"
    by (auto simp: publishes_state)
  with 1 assms have "p' = with_state n p ((states p ! n)\<lparr>promise := Value v, completed := True, continuation := None\<rparr>)"
    and t: "t' = resume (continuation (states p ! n)) (Catching n # K')"
    by (auto simp: set_value_def complete_first)
  then have "has_promise p' n"
    using \<open>n < length (states p)\<close> by (simp add: has_promise_def)
  with 1 assms t show ?thesis by (intro done_frames [OF assms(3,4)]) auto
qed (use assms in \<open>auto intro!: done_frames [OF assms(3,4)]\<close>)

lemma done_raise:
  assumes "raise_step e K p = Some (p', t')" "stack_ok w p K" "raise_ok w p K" "done_ok p (c, K)"
    and "extends p p'" "\<And>n K'. K = Publish n # K' \<Longrightarrow> promise (states p ! n) = Unset" "\<And>t. c \<noteq> Invoke t"
  shows "done_ok p' t'"
proof (cases "\<exists>n K'. K = Publish n # K'")
  case True
  then obtain n K' where K: "K = Publish n # K'" by blast
  with assms have "n < length (states p)" "promise (states p ! n) = Unset"
    by (auto simp: publishes_state)
  with K assms have "p' = with_state n p ((states p ! n)\<lparr>promise := Exception e, completed := True, continuation := None\<rparr>)"
    and t: "t' = resume (continuation (states p ! n)) K'"
    by (auto simp: set_exception_def complete_first)
  then have "has_promise p' n"
    using \<open>n < length (states p)\<close> by (simp add: has_promise_def)
  with K assms t show ?thesis by (intro done_frames [OF assms(4,5)]) auto
next
  case False
  then have "keeps_frames K t'"
  proof (cases K)
    case (Cons F K')
    with False assms(1,3) show ?thesis by (cases F) (auto simp: keeps_frames_def)
  qed (use assms(1) in \<open>auto simp: keeps_frames_def\<close>)
  with assms(4,5,7) show ?thesis by (blast intro: done_keeps)
qed

lemma done_invoke:
  assumes "invoke_step t K p = Some (p', t')" "done_ok p (Invoke t, K)"
  shows "done_ok p' t'"
proof -
  have "started p m" "own_state (posted p ! m) = Some n \<Longrightarrow> Publish n \<notin> set K \<Longrightarrow>
      \<not> has_promise p n \<Longrightarrow> posted p ! m = t" if "Worker m \<in> set K" for m n
    using assms(2) that by (auto simp: done_ok_def underway_def)
  with assms(1) show ?thesis
    by (cases t) (fastforce simp: done_ok_def underway_def split: option.splits sum.splits)+
qed

lemma done_back:
  assumes "back_step K p = Some (p', t')" "stack_ok w p K" "done_ok p (Back, K)"
  shows "done_ok p' t'"
  using assms by (cases "(K, p)" rule: back_step.cases)
    (auto simp: done_ok_def underway_def fulfilled_def)

lemma done_work:
  assumes "work_step i c p = Some (p', t')" "queues_ok p" "extends p p'" "done_ok p (c, [])"
    and "i < length (queues p)" "\<And>v. c = Steal_from v \<Longrightarrow> v < length (queues p)"
  shows "done_ok p' t' \<and> (\<forall>m\<in>set (finished p'). m \<in> set (finished p) \<or> fulfilled p' m)"
proof -
  have taken: "done_ok p' (Invoke t, [Worker m])"
    if "(t, m) \<in> set (queues p ! v)" "v < length (queues p)" for t m v
  proof -
    have "started p m" using queues_ok_nth [OF assms(2) that(2,1)] by (auto simp: started_def is_post_def)
    with extends_started [OF assms(3)] queues_ok_nth [OF assms(2) that(2,1)] show ?thesis
      by (auto simp: done_ok_def underway_def is_post_def)
  qed
  show ?thesis
  proof (cases "(i, c, p)" rule: work_step.cases)
    case (2 i p)
    with assms taken [of _ _ i] show ?thesis
      by (cases "queues p ! i") (auto simp: done_ok_def split: prod.splits)
  next
    case (4 i v p)
    with assms taken [of "fst (last (queues p ! v))" "snd (last (queues p ! v))" v] show ?thesis
      by (auto simp: done_ok_def Let_def split: if_splits)
  next
    case (5 i m p)
    with assms fulfilled_mono [OF assms(3), of m] show ?thesis by (auto simp: done_ok_def)
  qed (use assms in \<open>auto simp: done_ok_def choose_victim_def Let_def split: if_splits\<close>)
qed

text \<open>Only the worker loop finishes a post.\<close>

lemma finished_step:
  assumes "thread_step j i (c, K) p = Some (p', t')" "\<And>m. c \<noteq> Finish m"
  shows "finished p' = finished p"
proof (cases c)
  case (Eval e)
  then have e: "eval_step e K p = Some (p', t')" using assms(1) by simp
  then show ?thesis
  proof (cases "(e, K, p)" rule: eval_step.cases)
    case (1 v K p)
    with e have "return_value v K p = Some (p', t')" by simp
    with 1 show ?thesis
      by (cases "(v, K, p)" rule: return_value.cases) (auto split: prod.splits outcome.splits)
  qed (auto simp: new_future_def split: prod.splits sum.splits if_splits)
next
  case (Invoke t)
  with assms show ?thesis by (cases t) (auto split: option.splits sum.splits)
next
  case (Raise e)
  with assms show ?thesis
    by (cases "(e, K, p)" rule: raise_step.cases)
      (auto simp: Let_def split: frame.splits prod.splits outcome.splits)
next
  case Back
  with assms show ?thesis by (cases "(K, p)" rule: back_step.cases) auto
qed (use assms in \<open>auto simp: lift_def choose_victim_def notify_one_def Let_def
    split: if_splits option.splits list.splits prod.splits\<close>)

lemma done_eval:
  assumes "eval_step e K p = Some (p', t')" "stack_ok w p K" "extends p p'" "done_ok p (Eval e, K)"
    and "\<And>n K'. K = Publish n # K' \<Longrightarrow> promise (states p ! n) = Unset"
  shows "done_ok p' t'"
proof (cases "(e, K, p)" rule: eval_step.cases)
  case (1 v K' p0)
  with assms have "return_value v K p = Some (p', t')" by simp
  from done_return [OF this assms(2,4,3,5)] show ?thesis by simp
next
  case (5 f g inline_exec k K p)
  with assms(1) have "keeps_frames K t'"
    by (auto simp: keeps_frames_def split: prod.splits sum.splits if_splits)
  with 5 assms show ?thesis by (blast intro: done_keeps)
next
  case (6 f k K p)
  with assms(1) have "keeps_frames K t'"
    by (auto simp: keeps_frames_def split: prod.splits if_splits)
  with 6 assms show ?thesis by (blast intro: done_keeps)
next
  case (7 f k K p)
  with assms(1) have "keeps_frames K t'"
    by (auto simp: keeps_frames_def split: prod.splits if_splits option.splits)
  with 7 assms show ?thesis by (blast intro: done_keeps)
qed (use assms(1) done_keeps [OF assms(4,3)] in \<open>auto simp: keeps_frames_def split: prod.splits\<close>)

lemma done_step:
  assumes "thread_step j i (c, K) p = Some (p', t')" "queues_ok p" "thread_ok i p (c, K)" "extends p p'"
    and "done_ok p (c, K)" "\<And>n K'. K = Publish n # K' \<Longrightarrow> promise (states p ! n) = Unset"
  shows "done_ok p' t' \<and> (\<forall>m\<in>set (finished p'). m \<in> set (finished p) \<or> fulfilled p' m)"
proof -
  have K: "stack_ok (i < length (queues p)) p K" and c: "control_ok i p K c" using assms(3) by auto
  note keep = done_keeps [OF assms(5,4)]
  have w: ?thesis if "work_step i c p = Some (p', t')" "i < length (queues p)" "K = []"
  proof -
    have "v < length (queues p)" if "c = Steal_from v" for v using that c by simp
    with done_work [OF that(1) assms(2,4) _ that(2)] assms(5) that(3) show ?thesis by blast
  qed
  have "done_ok p' t'" if "\<And>m. c \<noteq> Finish m"
  proof (cases c)
    case (Eval e)
    with assms K show ?thesis by (auto intro: done_eval)
  next
    case (Blocked n k)
    with assms(1) show ?thesis by (auto intro!: keep simp: keeps_frames_def split: option.splits)
  next
    case (Invoke t)
    with assms show ?thesis by (auto intro: done_invoke)
  next
    case Back
    with assms K show ?thesis by (auto intro: done_back)
  next
    case (Raise e)
    with assms K c show ?thesis by (auto intro: done_raise)
  qed (use assms(1) c that w keep [of t'] in \<open>auto elim!: lift_SomeE
      simp: choose_victim_def keeps_frames_def split: if_splits option.splits prod.splits
      simp del: work_step.simps\<close>)
  moreover have "\<forall>m\<in>set (finished p'). m \<in> set (finished p)" if "\<And>m. c \<noteq> Finish m"
    using finished_step [OF assms(1) that] by simp
  moreover have ?thesis if "c = Finish m" for m
    using w assms(1) c that by simp
  ultimately show ?thesis by blast
qed

section \<open>The invariant\<close>

definition done_inv :: "nat \<Rightarrow> 'v machine \<Rightarrow> bool" where
  "done_inv n w \<longleftrightarrow> machine_inv n w \<and> (\<forall>i<length (threads w). done_ok (pool w) (threads w ! i)) \<and>
     (\<forall>m\<in>set (finished (pool w)). fulfilled (pool w) m)"

lemma open_top:
  assumes "machine_inv n w" "i < length (threads w)" "threads w ! i = (c, Publish m # K)"
  shows "promise (states (pool w) ! m) = Unset"
proof -
  have "stack_ok (i < length (queues (pool w))) (pool w) (Publish m # K)"
    using assms by (metis machine_inv_def thread_ok.simps)
  then have "publishes (pool w) m" by simp
  with publish_open [OF _ assms(2), of c m K] assms(1,3) show ?thesis
    by (simp add: machine_inv_def publishes_state)
qed

lemma done_inv_run:
  assumes "done_inv n w" "run_thread j i w = Some w'"
  shows "done_inv n w'"
proof -
  from assms(1) have inv: "machine_inv n w" by (simp add: done_inv_def)
  from inv assms(2) obtain p' t' where i: "i < length (threads w)"
    and w': "w' = w\<lparr>pool := p', threads := (threads w)[i := t']\<rparr>"
    and step: "thread_step j i (threads w ! i) (pool w) = Some (p', t')"
    and ext: "extends (pool w) p'" by (auto elim!: run_facts simp: keeps_def)
  obtain c K where t: "threads w ! i = (c, K)" by fastforce
  have "done_ok p' t' \<and> (\<forall>m\<in>set (finished p'). m \<in> set (finished (pool w)) \<or> fulfilled p' m)"
    using step inv ext assms(1) i open_top [OF inv i]
    unfolding t by (intro done_step [of j i c K]) (auto simp: machine_inv_def done_inv_def simp flip: t)
  then have "done_ok p' t'" and "\<forall>m\<in>set (finished p'). fulfilled p' m"
    using assms(1) fulfilled_mono [OF ext] unfolding done_inv_def by blast+
  with assms(1) machine_inv_run [OF inv assms(2)] done_ok_mono [OF ext] show ?thesis
    by (auto simp: done_inv_def w' nth_update)
qed

interpretation done_tasks: invariant_system "machine_init n" machine_step "done_inv n"
proof
  show "done_inv n w" if init: "machine_init n w" for w :: "'a machine"
  proof -
    obtain es where w: "w = new_machine n es" using init by (auto simp: machine_init_def)
    have "\<exists>e. threads w ! k = (Loop, []) \<or> threads w ! k = (Eval e, [])" if "k < length (threads w)" for k
      using that by (auto simp: w new_machine_def nth_append)
    with machine_inv_init [OF init] show ?thesis
      by (fastforce simp: done_inv_def done_ok_def w new_machine_def new_pool_def)
  qed
  show "done_inv n w'" if "done_inv n w" "machine_step w w'" for w w' :: "'a machine"
    using that(2,1)
  proof cases
    case (spurious_wake_up i)
    have "extends (pool w) (pool w')" by (simp add: spurious_wake_up wake_up_def extends_def)
    from done_ok_mono [OF this] fulfilled_mono [OF this] that(1) machine_inv_wake [of n w i]
    show ?thesis by (simp add: done_inv_def spurious_wake_up wake_up_def)
  qed (auto intro: done_inv_run)
qed


lemma outcome_of_eq: "outcome_of r = x \<longleftrightarrow>
    (case x of Unset \<Rightarrow> False | Value v \<Rightarrow> r = Inr v | Exception e \<Rightarrow> r = Inl e)"
  by (cases r) (auto split: promise.splits)

lemma finished_completed:
  assumes "machine_init k w" and "machine_step\<^sup>*\<^sup>* w w'" and "m \<in> set (finished (pool w'))"
    and "posted (pool w') ! m = Posted e n \<or> posted (pool w') ! m = Continued l g n"
  shows "shared_future_get n (states (pool w')) \<noteq> None \<and>
    (\<forall>r. e = Done r \<and> posted (pool w') ! m = Posted e n \<longrightarrow> shared_future_get n (states (pool w')) = Some r)"
proof -
  have f: "fulfilled (pool w') m"
    using done_tasks.inv_reachable [OF assms(1,2)] assms(3) by (simp add: done_inv_def)
  with assms(4) have h: "has_promise (pool w') n" by (auto simp: fulfilled_def)
  have "explained (pool w')"
    using chain.inv_reachable [OF assms(1,2)] by (simp add: chain_inv_def)
  with h have x: "\<forall>r. expected (pool w') n = Some r \<longrightarrow> promise (states (pool w') ! n) = r"
    by (simp add: explained_def)
  have "promise (states (pool w') ! n) = outcome_of r" if "posted (pool w') ! m = Posted (Done r) n" for r
    using that f x by (auto simp: fulfilled_def started_def born_def expected_def)
  with h show ?thesis
    by (auto simp: shared_future_get_def has_promise_def outcome_of_eq split: promise.splits)
qed

section \<open>Property\<close>

text \<open>C16. A finished post has completed its future: when the worker has counted off the
  callable of a \<open>post\<close> or the lambda of a \<open>then\<close>, the state of its future holds a value or an exception,
  and for a posted function that only computes it is the function's own. So after \<open>wait\<close> every future of a counted post can be read without blocking.\<close>

theorem finished_posts_are_completed:
  assumes "machine_init k w" and "machine_step\<^sup>*\<^sup>* w w'" and "m \<in> set (finished (pool w'))"
    and "posted (pool w') ! m = Posted e n \<or> posted (pool w') ! m = Continued l g n"
  shows "shared_future_get n (states (pool w')) \<noteq> None \<and>
    (\<forall>r. e = Done r \<and> posted (pool w') ! m = Posted e n \<longrightarrow> shared_future_get n (states (pool w')) = Some r)"
  using assms by (rule finished_completed)

lemma one_task_finishes:
  "map_option (\<lambda>w. (finished (pool w), posted (pool w))) (run_schedule (turns 7 1 @ turns 7 0) one_task) =
   Some ([0], [Posted (Done (Inr 7)) 0])"
  by (simp add: small_machines)

theorem finished_posts_are_completed_witness:
  "\<exists>w'. run_schedule (turns 7 1 @ turns 7 0) one_task = Some w' \<and>
     shared_future_get 0 (states (pool w')) = Some (Inr 7)"
proof -
  from one_task_finishes obtain w' where
    w': "run_schedule (turns 7 1 @ turns 7 0) one_task = Some w'" "finished (pool w') = [0]"
    "posted (pool w') = [Posted (Done (Inr 7)) 0]" by auto
  have "machine_init 1 one_task" by (simp add: one_task_def)
  from finished_posts_are_completed [OF this run_schedule_reaches [OF w'(1)], of 0 "Done (Inr 7)" 0] w'
  show ?thesis by auto
qed

end
