(* ===== verification/PoolDrain.thy ===== *)
theory PoolDrain
  imports PoolDone
begin

text \<open>
  A worker empties its own queue. Left alone, it executes every package of the queue, and the
  continuations they release, in finitely many steps, for callables that only compute. The measure
  counts the steps that the packages, the frames and the stored continuations still cost.
\<close>

section \<open>Callables that only compute\<close>

fun simple_task :: "'v task \<Rightarrow> bool" where
  "simple_task (Detached e) = (\<exists>v. e = Done (Inr v))"
| "simple_task (Posted e n) = (\<exists>r. e = Done r)"
| "simple_task (Continued m g n) = (\<forall>v. \<exists>r. g v = Done r)"
| "simple_task (Repost t) = simple_task t"

fun publish_top :: "'v frame list \<Rightarrow> bool" where
  "publish_top (Publish n # K) = True"
| "publish_top K = False"

fun simple_control :: "'v frame list \<Rightarrow> 'v control \<Rightarrow> bool" where
  "simple_control K (Eval e) = ((\<exists>v. e = Done (Inr v)) \<or> (\<exists>x. e = Done (Inl x)) \<and> publish_top K)"
| "simple_control K (Raise e) = publish_top K"
| "simple_control K (Invoke t) = simple_task t"
| "simple_control K (Choose t) = simple_task t"
| "simple_control K (Count v t m) = simple_task t"
| "simple_control K (Push v t m) = simple_task t"
| "simple_control K c = (c \<in> {Back, Notify, Loop, Own, Announce} \<or> (\<exists>m. c = Finish m))"

definition simple_thread :: "'v thread \<Rightarrow> bool" where
  "simple_thread t \<longleftrightarrow> simple_control (snd t) (fst t) \<and> (\<forall>k. User k \<notin> set (snd t))"

text \<open>The callables in the queues of the workers \<open>V\<close> and the stored continuations.\<close>

definition simple_pool :: "nat set \<Rightarrow> 'v pool \<Rightarrow> bool" where
  "simple_pool V p \<longleftrightarrow> (\<forall>v\<in>V. \<forall>(t, m)\<in>set (queues p ! v). simple_task t) \<and>
     (\<forall>s\<in>set (states p). \<forall>t. continuation s = Some t \<longrightarrow> simple_task t) \<and>
     \<not> shutdown p \<and> \<not> terminated p \<and> fault p = None"

section \<open>The measure\<close>

fun task_cost :: "'v task \<Rightarrow> nat" where
  "task_cost (Repost t) = task_cost t + 12"
| "task_cost t = 4"

fun frame_cost :: "'v frame \<Rightarrow> nat" where
  "frame_cost (Worker m) = 4"
| "frame_cost F = 1"

fun control_cost :: "'v control \<Rightarrow> nat" where
  "control_cost (Invoke t) = task_cost t"
| "control_cost (Choose t) = task_cost t + 10"
| "control_cost (Count v t m) = task_cost t + 9"
| "control_cost (Push v t m) = task_cost t + 8"
| "control_cost (Finish m) = 3"
| "control_cost (Eval e) = 2"
| "control_cost Announce = 2"
| "control_cost Notify = 1"
| "control_cost (Raise e) = 1"
| "control_cost c = 0"

definition queue_cost :: "('v task \<times> nat) list \<Rightarrow> nat" where
  "queue_cost q = sum_list (map (\<lambda>(t, m). task_cost t + 6) q)"

definition state_cost :: "('v, 'v task) SharedState \<Rightarrow> nat" where
  "state_cost s = (case continuation s of None \<Rightarrow> 0 | Some t \<Rightarrow> task_cost t)"

definition pool_cost :: "'v pool \<Rightarrow> nat" where
  "pool_cost p = sum_list (map queue_cost (queues p)) + sum_list (map state_cost (states p))"

definition thread_cost :: "'v thread \<Rightarrow> nat" where
  "thread_cost t = control_cost (fst t) + sum_list (map frame_cost (snd t))"

lemma queue_cost_simps [simp]:
  "queue_cost [] = 0" "queue_cost ((t, m) # q) = task_cost t + 6 + queue_cost q"
  by (simp_all add: queue_cost_def)

lemma thread_cost_resume [simp]: "thread_cost (resume c K) =
    (case c of None \<Rightarrow> 0 | Some t \<Rightarrow> task_cost t) + sum_list (map frame_cost K)"
  by (cases c) (simp_all add: thread_cost_def)

text \<open>Completing a state hands its continuation to the thread.\<close>

lemma complete_cost:
  assumes "n < length (states p)" "continuation s = None"
  shows "pool_cost (with_state n p s) + state_cost (states p ! n) = pool_cost p"
  using sum_list_update [OF assms(1), of state_cost s] assms(2)
  by (simp add: pool_cost_def state_cost_def)

text \<open>Changing a queue.\<close>

lemma nth_change: "v < length xs \<Longrightarrow> xs[v := x] ! m = (if m = v then x else xs ! m)"
  by simp

lemma queue_change_cost:
  assumes "v < length (queues p)"
  shows "pool_cost (p\<lparr>queues := (queues p)[v := q]\<rparr>) + queue_cost (queues p ! v) = pool_cost p + queue_cost q"
  using sum_list_update [OF assms, of queue_cost q] by (simp add: pool_cost_def)

section \<open>One step\<close>

text \<open>Where a post of the queue of worker \<open>i\<close> is.\<close>

definition in_hand :: "nat \<Rightarrow> nat \<Rightarrow> 'v pool \<Rightarrow> 'v thread \<Rightarrow> bool" where
  "in_hand m i p t \<longleftrightarrow> m \<in> snd ` set (queues p ! i) \<or> Worker m \<in> set (snd t) \<or> fst t = Finish m \<or>
     m \<in> set (finished p)"

text \<open>What a step of worker \<open>i\<close> on its callables keeps, and that it makes progress.\<close>

definition loop_cost :: "'v thread \<Rightarrow> nat" where
  "loop_cost t = (if fst t = Loop then 1 else 0)"

definition drains :: "nat \<Rightarrow> nat set \<Rightarrow> 'v pool \<Rightarrow> 'v thread \<Rightarrow> 'v pool \<Rightarrow> 'v thread \<Rightarrow> bool" where
  "drains i V p t p' t' \<longleftrightarrow> simple_thread t' \<and> simple_pool V p' \<and> fst t' \<noteq> Own \<and>
     pool_cost p' + thread_cost t' + loop_cost t' < pool_cost p + thread_cost t \<and>
     (\<forall>m. in_hand m i p t \<longrightarrow> in_hand m i p' t')"

lemma drains_same:
  assumes "simple_pool V p" "queues p' = queues p" "states p' = states p" "shutdown p' = shutdown p"
    "terminated p' = terminated p" "fault p' = fault p" "set (finished p) \<subseteq> set (finished p')"
    and "simple_thread t'" "fst t' \<noteq> Own" "thread_cost t' + loop_cost t' < thread_cost t"
    and "\<And>m. Worker m \<in> set (snd t) \<or> fst t = Finish m \<Longrightarrow>
      Worker m \<in> set (snd t') \<or> fst t' = Finish m \<or> m \<in> set (finished p')"
  shows "drains i V p t p' t'"
  using assms unfolding drains_def simple_pool_def in_hand_def pool_cost_def by auto

lemma drains_complete:
  assumes "simple_pool V p" "n < length (states p)" "continuation s = None"
    and "simple_thread (c, Publish n # K)" "\<And>m. c \<noteq> Finish m"
    and "K' = K \<and> control_cost c > 0 \<or> K' = Catching n # K \<and> control_cost c > 0"
  shows "drains i V p (c, Publish n # K) (with_state n p s) (resume (continuation (states p ! n)) K')"
proof -
  have "simple_task t" if "continuation (states p ! n) = Some t" for t
    using that assms(1,2) by (auto simp: simple_pool_def)
  then have "simple_thread (resume (continuation (states p ! n)) K')"
    using assms(4,6) by (cases "continuation (states p ! n)") (auto simp: simple_thread_def)
  moreover have "simple_pool V (with_state n p s)"
    using assms(1,3) by (auto simp: simple_pool_def with_state_def dest!: set_update_subset_insert [THEN subsetD])
  ultimately show ?thesis
    using complete_cost [OF assms(2,3)] assms(5,6)
    by (auto simp: drains_def thread_cost_def loop_cost_def state_cost_def in_hand_def split: option.splits)
qed

lemma drains_return:
  assumes "return_value v K p = Some (p', t')" "stack_ok w p K" "K \<noteq> []" "simple_pool V p"
    "simple_thread (Eval (Done (Inr v)), K)"
    and "\<And>n K'. K = Publish n # K' \<Longrightarrow> promise (states p ! n) = Unset"
  shows "drains i V p (Eval (Done (Inr v)), K) p' t'"
proof (cases "(v, K, p)" rule: return_value.cases)
  case (1 v n K' p)
  with assms have "n < length (states p)" "promise (states p ! n) = Unset"
    by (auto simp: publishes_state)
  with 1 assms drains_complete [of V p n "(states p ! n)\<lparr>promise := Value v, completed := True, continuation := None\<rparr>"
      "Eval (Done (Inr v))" K' "Catching n # K'"] show ?thesis
    by (auto simp: set_value_def complete_first)
qed (use assms in \<open>auto intro!: drains_same simp: simple_thread_def thread_cost_def loop_cost_def\<close>)

lemma drains_raise:
  assumes "raise_step e K p = Some (p', t')" "stack_ok w p K" "simple_pool V p"
    "simple_thread (Raise e, K)"
    and "\<And>n K'. K = Publish n # K' \<Longrightarrow> promise (states p ! n) = Unset"
  shows "drains i V p (Raise e, K) p' t'"
proof -
  from assms(4) obtain n K' where K: "K = Publish n # K'"
    by (cases K rule: publish_top.cases) (auto simp: simple_thread_def)
  with assms have "n < length (states p)" "promise (states p ! n) = Unset"
    by (auto simp: publishes_state)
  with K assms drains_complete [of V p n "(states p ! n)\<lparr>promise := Exception e, completed := True, continuation := None\<rparr>"
      "Raise e" K' K'] show ?thesis
    by (auto simp: set_exception_def complete_first)
qed

lemma drains_invoke:
  assumes "invoke_step t K p = Some (p', t')" "simple_pool V p" "simple_thread (Invoke t, K)"
  shows "drains i V p (Invoke t, K) p' t'"
proof (cases t)
  case (Continued m g n)
  have "(\<exists>x. g v = Done (Inr x)) \<or> (\<exists>x. g v = Done (Inl x))" for v
    using assms(3) Continued by (auto simp: simple_thread_def) (metis sum.exhaust)
  with Continued assms show ?thesis
    by (auto intro!: drains_same simp: simple_thread_def thread_cost_def loop_cost_def split: option.splits sum.splits)
next
  case (Posted e n)
  with assms obtain r where "e = Done r" by (auto simp: simple_thread_def)
  with Posted assms show ?thesis
    by (cases r) (auto intro!: drains_same simp: simple_thread_def thread_cost_def loop_cost_def)
qed (use assms in \<open>auto intro!: drains_same simp: simple_thread_def thread_cost_def loop_cost_def\<close>)

lemma drains_back:
  assumes "back_step K p = Some (p', t')" "simple_pool V p" "simple_thread (Back, K)"
  shows "drains i V p (Back, K) p' t'"
  using assms by (cases "(K, p)" rule: back_step.cases)
    (auto intro!: drains_same simp: simple_thread_def thread_cost_def loop_cost_def)

lemma drains_push:
  assumes "simple_pool V p" "simple_thread (Push v t m, K)" "i < length (queues p)" "v < length (queues p)"
  shows "drains i V p (Push v t m, K) (p\<lparr>queues := (queues p)[v := (t, m) # queues p ! v]\<rparr>) (Notify, K)"
  using assms queue_change_cost [OF assms(4), of "(t, m) # queues p ! v"]
  by (auto simp: drains_def simple_thread_def simple_pool_def thread_cost_def loop_cost_def
      in_hand_def nth_change)

text \<open>Taking a package from the queue of a worker.\<close>

lemma drains_take:
  assumes "simple_pool V p" "v \<in> V" "v < length (queues p)" "set (queues p ! v) = insert (t, m) (set q)"
    and "queue_cost (queues p ! v) = task_cost t + 6 + queue_cost q" "control_cost c = 0"
    and "\<And>m. c \<noteq> Finish m"
  shows "drains i V p (c, []) (p\<lparr>queues := (queues p)[v := q]\<rparr>) (Invoke t, [Worker m])"
proof -
  have "\<forall>(t', m')\<in>insert (t, m) (set q). simple_task t'"
    using assms(1,2) unfolding simple_pool_def assms(4) [symmetric] by blast
  then have "simple_pool V (p\<lparr>queues := (queues p)[v := q]\<rparr>)" "simple_task t"
    using assms(1,3) by (auto simp: simple_pool_def nth_change)
  then show ?thesis
    using queue_change_cost [OF assms(3), of q] assms(3-)
    by (auto simp: drains_def simple_thread_def thread_cost_def loop_cost_def in_hand_def nth_change)
qed

lemma queue_cost_append [simp]: "queue_cost (q @ q') = queue_cost q + queue_cost q'"
  by (simp add: queue_cost_def)

lemma drains_own:
  assumes "work_step i Own p = Some (p', t')" "simple_pool V p" "queues p ! i \<noteq> []" "i < length (queues p)"
    and "i \<in> V"
  shows "drains i V p (Own, []) p' t'"
proof -
  obtain t m q where q: "queues p ! i = (t, m) # q" using assms(3) by (cases "queues p ! i") auto
  with assms drains_take [of V p i t m q Own i] show ?thesis by simp
qed

lemma drains_steal:
  assumes "work_step i (Steal_from v) p = Some (p', t')" "simple_pool V p" "queues p ! v \<noteq> []"
    and "v < length (queues p)" "v \<in> V"
  shows "drains i V p (Steal_from v, []) p' t'"
proof -
  obtain t m q where q: "queues p ! v = q @ [(t, m)]"
    using assms(3) by (metis append_butlast_last_id surj_pair)
  with assms drains_take [of V p v t m q "Steal_from v" i] show ?thesis by (simp add: Let_def)
qed

lemma drains_step:
  assumes "thread_step j i (c, K) p = Some (p', t')" "thread_ok i p (c, K)" "i < length (queues p)"
    and "\<And>n K'. K = Publish n # K' \<Longrightarrow> promise (states p ! n) = Unset"
    and "simple_thread (c, K)" "simple_pool V p" "c = Own \<Longrightarrow> queues p ! i \<noteq> []"
    and "i \<in> V" "c \<noteq> Loop"
  shows "drains i V p (c, K) p' t'"
proof -
  have K: "stack_ok True p K" and c: "control_ok i p K c" using assms(2,3) by auto
  show ?thesis
  proof (cases c)
    case (Eval e)
    show ?thesis
    proof (cases "\<exists>v. e = Done (Inr v)")
      case True
      moreover have "K \<noteq> []" using Eval c assms(3) by auto
      ultimately show ?thesis using Eval assms(1,4-6) K by (auto intro: drains_return)
    next
      case False
      with Eval assms(1,5,6) show ?thesis
        by (auto intro!: drains_same simp: simple_thread_def thread_cost_def loop_cost_def)
    qed
  next
    case (Invoke t)
    with assms show ?thesis by (auto intro: drains_invoke)
  next
    case Back
    with assms show ?thesis by (auto intro: drains_back)
  next
    case (Raise e)
    with assms K show ?thesis by (auto intro: drains_raise)
  next
    case (Choose t)
    have "queues p \<noteq> []" using assms(3) by auto
    with Choose assms(1) have
      "p' = p\<lparr>round_index := round_index p + 1, posted := posted p @ [t]\<rparr>"
      "\<exists>v. t' = (Count v t (length (posted p)), K)" by (auto simp: lift_def choose_victim_def)
    with Choose assms(5,6) show ?thesis
      by (auto intro!: drains_same simp: simple_thread_def thread_cost_def loop_cost_def)
  next
    case (Push v t m)
    with assms c show ?thesis by (auto intro: drains_push simp: lift_def)
  next
    case Notify
    with assms show ?thesis
      by (auto intro!: drains_same simp: simple_thread_def thread_cost_def loop_cost_def lift_def notify_one_def
          split: if_splits)
  next
    case Own
    with assms c show ?thesis by (auto intro: drains_own simp del: work_step.simps)
  qed (use assms(1,5-9) c in \<open>auto intro!: drains_same simp: simple_thread_def thread_cost_def loop_cost_def lift_def\<close>)
qed

section \<open>The whole queue\<close>

definition draining :: "nat \<Rightarrow> nat \<Rightarrow> nat set \<Rightarrow> 'v machine \<Rightarrow> bool" where
  "draining n i M w \<longleftrightarrow> machine_inv n w \<and> i < n \<and> simple_thread (threads w ! i) \<and> simple_pool {i} (pool w) \<and>
     (fst (threads w ! i) = Own \<longrightarrow> queues (pool w) ! i \<noteq> []) \<and>
     (\<forall>m\<in>M. in_hand m i (pool w) (threads w ! i))"

definition cost :: "nat \<Rightarrow> 'v machine \<Rightarrow> nat" where
  "cost i w = pool_cost (pool w) + thread_cost (threads w ! i) + loop_cost (threads w ! i)"

definition drained :: "nat \<Rightarrow> 'v machine \<Rightarrow> bool" where
  "drained i w \<longleftrightarrow> threads w ! i = (Loop, []) \<and> queues (pool w) ! i = []"

lemma simple_no_wait: "simple_thread t \<Longrightarrow> \<not> waits i t p"
  by (cases t; cases "fst t") (auto simp: simple_thread_def bad_handle_def)

lemma drain_progress:
  assumes "draining n i M w" "\<not> drained i w"
  shows "\<exists>j w'. run_thread j i w = Some w' \<and> draining n i M w' \<and> cost i w' < cost i w"
proof -
  let ?p = "pool w"
  from assms(1) have inv: "machine_inv n w" and simple: "simple_thread (threads w ! i)" "simple_pool {i} ?p"
    and i: "i < length (threads w)" "i < length (queues ?p)"
    by (auto simp: draining_def machine_inv_def)
  obtain c K where t: "threads w ! i = (c, K)" by fastforce
  have ok: "thread_ok i ?p (c, K)" using inv i by (auto simp: machine_inv_def simp flip: t)
  have "\<not> terminated ?p" "fault ?p = None" "\<not> waits i (threads w ! i) ?p"
    using simple(2) simple_no_wait [OF simple(1)] by (simp_all add: simple_pool_def)
  from stuck_waits [OF inv i(1) this] obtain j w' where run: "run_thread j i w = Some w'" by blast
  from inv run obtain p' t' where w': "w' = w\<lparr>pool := p', threads := (threads w)[i := t']\<rparr>"
    and step: "thread_step j i (c, K) ?p = Some (p', t')" and ext: "extends ?p p'"
    by (auto elim!: run_facts simp: keeps_def t)
  have "draining n i M w' \<and> cost i w' < cost i w"
  proof (cases "c = Loop")
    case True
    then have "p' = ?p" "t' = (Own, [])" "K = []"
      using step ok i(2) simple(2) by (auto simp: simple_pool_def)
    with True show ?thesis
      using machine_inv_run [OF inv run] assms i(1)
      by (auto simp: draining_def drained_def cost_def w' t thread_cost_def loop_cost_def simple_thread_def
          in_hand_def)
  next
    case False
    have "drains i {i} ?p (c, K) p' t'"
    proof (rule drains_step [OF step ok i(2)])
      show "promise (states ?p ! m) = Unset" if "K = Publish m # K'" for m K'
        using open_top [OF inv i(1)] that t by blast
      show "queues ?p ! i \<noteq> []" if "c = Own" using that assms(1) t by (auto simp: draining_def)
    qed (use simple t False in simp_all)
    then show ?thesis
      using machine_inv_run [OF inv run] assms(1) i(1)
      by (auto simp: draining_def drains_def cost_def w' t)
  qed
  with run show ?thesis by blast
qed

lemma drain_run:
  "draining n i M w \<Longrightarrow> \<exists>s w'. (\<forall>x\<in>set s. fst x = i) \<and> length s \<le> cost i w \<and>
     run_schedule s w = Some w' \<and> draining n i M w' \<and> drained i w'"
proof (induction "cost i w" arbitrary: w rule: less_induct)
  case less
  show ?case
  proof (cases "drained i w")
    case True
    with less.prems show ?thesis by (intro exI [of _ "[]"]) simp
  next
    case False
    with less.prems obtain j v where v: "run_thread j i w = Some v" "draining n i M v" "cost i v < cost i w"
      using drain_progress by blast
    from less.hyps [OF v(3,2)] obtain s w' where "\<forall>x\<in>set s. fst x = i" "length s \<le> cost i v"
      "run_schedule s v = Some w'" "draining n i M w'" "drained i w'" by blast
    with v(1,3) show ?thesis by (intro exI [of _ "(i, j) # s"]) auto
  qed
qed

section \<open>Property\<close>

text \<open>C5. A worker empties its own queue. Take any reachable state in which worker \<open>i\<close> is at the
  head of its loop and the pool is not shut down, and let the callables of its queue and the stored
  continuations be functions that only compute (or throw, but for \<open>post_detach\<close>). Then the worker
  alone, with nobody else taking a step, executes the whole queue in finitely many steps, bounded by \<open>cost\<close>: it gets back
  to the head of the loop with the queue empty, every post that was in it is finished, and the
  future of each \<open>post\<close> holds the result of its function. Nothing in the loop can make it wait.\<close>

theorem worker_drains_its_queue:
  assumes "machine_init n w" and "machine_step\<^sup>*\<^sup>* w w'" and "i < n"
    and "threads w' ! i = (Loop, [])" and "simple_pool {i} (pool w')"
  shows "\<exists>s w''. (\<forall>x\<in>set s. fst x = i) \<and> length s \<le> cost i w' \<and> run_schedule s w' = Some w'' \<and>
    threads w'' ! i = (Loop, []) \<and> queues (pool w'') ! i = [] \<and>
    (\<forall>(t, m)\<in>set (queues (pool w') ! i). m \<in> set (finished (pool w'')) \<and>
      (\<forall>r k. t = Posted (Done r) k \<longrightarrow> shared_future_get k (states (pool w'')) = Some r))"
proof -
  let ?q = "queues (pool w') ! i"
  have inv: "machine_inv n w'" using assms(1,2) by (rule reachable_inv)
  then have "draining n i (snd ` set ?q) w'"
    using assms(3-5) by (auto simp: draining_def simple_thread_def in_hand_def)
  from drain_run [OF this] obtain s w'' where s: "\<forall>x\<in>set s. fst x = i" "length s \<le> cost i w'" "run_schedule s w' = Some w''"
    and d: "draining n i (snd ` set ?q) w''" "drained i w''" by blast
  have steps: "machine_step\<^sup>*\<^sup>* w' w''" using s(3) by (rule run_schedule_reaches)
  have "m \<in> set (finished (pool w'')) \<and>
      (\<forall>r k. t = Posted (Done r) k \<longrightarrow> shared_future_get k (states (pool w'')) = Some r)"
    if "(t, m) \<in> set ?q" for t m
  proof -
    have fin: "m \<in> set (finished (pool w''))"
      using d that by (auto simp: draining_def drained_def in_hand_def image_iff)
    have "is_post (pool w') m t"
      using queues_ok_nth [OF _ _ that] inv assms(3) by (auto simp: machine_inv_def)
    with run_extends [OF steps inv] have "posted (pool w'') ! m = t"
      using extends_mono(3) by (auto simp: is_post_def)
    with finished_completed [OF assms(1) rtranclp_trans [OF assms(2) steps] fin] fin
    show ?thesis by auto
  qed
  then have "\<forall>(t, m)\<in>set ?q. m \<in> set (finished (pool w'')) \<and>
      (\<forall>r k. t = Posted (Done r) k \<longrightarrow> shared_future_get k (states (pool w'')) = Some r)" by auto
  with s d(2) show ?thesis unfolding drained_def by blast
qed

text \<open>A worker that has not run yet, with a task in its queue that another continues.\<close>

theorem worker_drains_its_queue_witness:
  "\<exists>w' s w''. run_schedule (turns 7 1) one_task = Some w' \<and> run_schedule s w' = Some w'' \<and>
     queues (pool w'') ! 0 = [] \<and> 0 \<in> set (finished (pool w'')) \<and>
     shared_future_get 0 (states (pool w'')) = Some (Inr 7)"
proof -
  have "\<exists>w'. run_schedule (turns 7 1) one_task = Some w' \<and> threads w' ! 0 = (Loop, []) \<and>
      queues (pool w') ! 0 = [(Posted (Done (Inr 7)) 0, 0)] \<and> simple_pool {0} (pool w')"
    by (simp add: small_machines simple_pool_def)
  then obtain w' where w': "run_schedule (turns 7 1) one_task = Some w'" "threads w' ! 0 = (Loop, [])"
    "queues (pool w') ! 0 = [(Posted (Done (Inr 7)) 0, 0)]" "simple_pool {0} (pool w')" by blast
  have "machine_init 1 one_task" by (simp add: one_task_def)
  from worker_drains_its_queue [OF this run_schedule_reaches [OF w'(1)] _ w'(2,4)] w'(1,3)
  show ?thesis by fastforce
qed

end
