(* ===== verification/Fairness.thy ===== *)
theory Fairness
  imports Prelude
begin

text \<open>
  Fair runs, and the rule by which something happens in each of them. A system has labelled steps
  (which thread moves) and steps of its environment; a run is infinite and may stutter, and it is
  weakly fair: no label stays enabled for ever without its step being taken.
\<close>

definition runs :: "('l \<Rightarrow> 's \<Rightarrow> 's \<Rightarrow> bool) \<Rightarrow> ('s \<Rightarrow> 's \<Rightarrow> bool) \<Rightarrow> (nat \<Rightarrow> 'l option) \<Rightarrow> (nat \<Rightarrow> 's) \<Rightarrow> bool" where
  "runs step env l s \<longleftrightarrow> (\<forall>k. case l k of
     Some i \<Rightarrow> step i (s k) (s (Suc k)) | None \<Rightarrow> env (s k) (s (Suc k)))"

definition fair :: "('l \<Rightarrow> 's \<Rightarrow> 's \<Rightarrow> bool) \<Rightarrow> (nat \<Rightarrow> 'l option) \<Rightarrow> (nat \<Rightarrow> 's) \<Rightarrow> bool" where
  "fair step l s \<longleftrightarrow> (\<forall>i k. \<exists>j\<ge>k. l j = Some i \<or> (\<nexists>t. step i (s j) t))"

lemma runs_step:
  assumes "runs step env l s"
  obtains (Step) i where "l k = Some i" "step i (s k) (s (Suc k))"
  | (Env) "l k = None" "env (s k) (s (Suc k))"
  using assms unfolding runs_def by (metis option.case_eq_if option.collapse)

text \<open>
  The contract of a helpful label: in a state with rank \<open>a\<close> for the label \<open>h\<close>, the step of \<open>h\<close> is
  enabled and leads to a lower rank, and every other step does so too or keeps the rank for \<open>h\<close>.
\<close>

locale helpful =
  fixes step :: "'l \<Rightarrow> 's \<Rightarrow> 's \<Rightarrow> bool" and env :: "'s \<Rightarrow> 's \<Rightarrow> bool"
    and inv :: "'s \<Rightarrow> bool" and goal :: "'s \<Rightarrow> bool"
    and rank :: "'l \<Rightarrow> 'r \<Rightarrow> 's \<Rightarrow> bool" and less :: "('r \<times> 'r) set"
  assumes wf_less: "wf less"
    and finds: "inv s \<Longrightarrow> \<not> goal s \<Longrightarrow> \<exists>h a. rank h a s"
    and enabled: "inv s \<Longrightarrow> \<not> goal s \<Longrightarrow> rank h a s \<Longrightarrow> \<exists>t. step h s t"
    and step_inv: "inv s \<Longrightarrow> \<not> goal s \<Longrightarrow> step l s t \<Longrightarrow> inv t"
    and env_inv: "inv s \<Longrightarrow> \<not> goal s \<Longrightarrow> env s t \<Longrightarrow> inv t"
    and moves: "inv s \<Longrightarrow> \<not> goal s \<Longrightarrow> rank h a s \<Longrightarrow> step l s t \<Longrightarrow> \<not> goal t \<Longrightarrow>
      (\<exists>h' a'. (a', a) \<in> less \<and> rank h' a' t) \<or> l \<noteq> h \<and> rank h a t"
    and stays: "inv s \<Longrightarrow> \<not> goal s \<Longrightarrow> rank h a s \<Longrightarrow> env s t \<Longrightarrow> \<not> goal t \<Longrightarrow>
      (\<exists>h' a'. (a', a) \<in> less \<and> rank h' a' t) \<or> rank h a t"
begin

definition lower :: "'r \<Rightarrow> 's \<Rightarrow> bool" where
  "lower a s \<longleftrightarrow> inv s \<and> (goal s \<or> (\<exists>h' a'. (a', a) \<in> less \<and> rank h' a' s))"

text \<open>Until the label is taken its rank stays, or something better happens.\<close>

lemma persists:
  assumes "runs step env l s" "inv (s k)" "rank h a (s k)" "k \<le> j"
  shows "(\<exists>m\<ge>k. lower a (s m)) \<or> inv (s j) \<and> rank h a (s j) \<and> \<not> goal (s j)"
  using assms(4)
proof (induction j rule: dec_induct)
  case base
  with assms(2,3) show ?case by (auto simp: lower_def)
next
  case (step j)
  show ?case
  proof (cases "\<exists>m\<ge>k. lower a (s m)")
    case False
    with step have j: "inv (s j)" "rank h a (s j)" "\<not> goal (s j)" by auto
    have "inv (s (Suc j)) \<and> (lower a (s (Suc j)) \<or> rank h a (s (Suc j)) \<and> \<not> goal (s (Suc j)))"
      using assms(1)
    proof (cases rule: runs_step [where k = j])
      case (Step i)
      with j step_inv have "inv (s (Suc j))" by blast
      with moves [OF j(1,3,2) Step(2)] show ?thesis by (auto simp: lower_def)
    next
      case Env
      with j env_inv have "inv (s (Suc j))" by blast
      with stays [OF j(1,3,2) Env(2)] show ?thesis by (auto simp: lower_def)
    qed
    moreover have "\<not> lower a (s (Suc j))" using False step(1) by (meson le_SucI)
    ultimately show ?thesis by blast
  qed simp
qed

lemma reaches_lower:
  assumes "runs step env l s" "fair step l s" "inv (s k)" "rank h a (s k)"
  shows "\<exists>m\<ge>k. lower a (s m)"
proof (rule ccontr)
  assume none: "\<not> ?thesis"
  obtain j where j: "k \<le> j" "l j = Some h \<or> (\<nexists>t. step h (s j) t)"
    using assms(2) unfolding fair_def by blast
  have pj: "inv (s j)" "rank h a (s j)" "\<not> goal (s j)"
    using persists [OF assms(1,3,4) j(1)] none by auto
  with j(2) enabled have "l j = Some h" by blast
  with assms(1) have st: "step h (s j) (s (Suc j))" by (cases rule: runs_step [where k = j]) auto
  have "inv (s (Suc j))" using step_inv pj st by blast
  with moves [OF pj(1,3,2) st] have "lower a (s (Suc j))" by (auto simp: lower_def)
  with none j(1) show False by (meson le_SucI)
qed

theorem reaches_goal:
  assumes "runs step env l s" "fair step l s" "inv (s 0)"
  shows "\<exists>k. goal (s k) \<and> inv (s k)"
proof -
  have goal_from: "\<exists>k. goal (s k) \<and> inv (s k)" if "rank h a (s k)" "inv (s k)" for h a k
    using wf_less that
  proof (induction a arbitrary: h k rule: wf_induct_rule)
    case (less a)
    from reaches_lower [OF assms(1,2) less.prems(2,1)] show ?case
      using less.IH by (auto simp: lower_def)
  qed
  with finds assms(3) show ?thesis by blast
qed

end

text \<open>Along a run the steps reach what their closure does.\<close>

lemma runs_reach:
  assumes "runs step env l s" "\<And>i u v. step i u v \<Longrightarrow> r\<^sup>*\<^sup>* u v" "\<And>u v. env u v \<Longrightarrow> r\<^sup>*\<^sup>* u v"
  shows "r\<^sup>*\<^sup>* (s 0) (s k)"
proof (induction k)
  case (Suc k)
  have "r\<^sup>*\<^sup>* (s k) (s (Suc k))"
    using assms(1) by (cases rule: runs_step [where k = k]) (use assms(2,3) in auto)
  with Suc show ?case by (rule rtranclp_trans)
qed simp

end
