(* ===== verification/PoolLive.thy ===== *)
theory PoolLive
  imports PoolDrain Fairness
begin

text \<open>
  The workers together. With callables that only compute, and one worker that is not asleep, every
  weakly fair schedule of the workers empties all queues: stealing finds the packages of the workers
  that sleep, because the shared \<open>round_index_\<close> visits every queue, and nobody falls asleep while
  something is unfinished.
\<close>

section \<open>Workers that look for work\<close>

fun spin_control :: "'v control \<Rightarrow> bool" where
  "spin_control (Steal_from v) = True"
| "spin_control c = (c \<in> {Loop, Own, Steal, Test, Doze, Asleep})"

definition spins :: "'v thread \<Rightarrow> bool" where
  "spins t \<longleftrightarrow> snd t = [] \<and> spin_control (fst t)"

definition resting :: "nat \<Rightarrow> 'v machine \<Rightarrow> bool" where
  "resting i w \<longleftrightarrow> fst (threads w ! i) = Doze \<or>
     fst (threads w ! i) = Asleep \<and> i \<in> set (th_waiters (pool w))"

definition awake :: "nat \<Rightarrow> 'v machine \<Rightarrow> bool" where
  "awake n w \<longleftrightarrow> (\<exists>i<n. \<not> resting i w)"

definition work_left :: "nat \<Rightarrow> 'v machine \<Rightarrow> nat" where
  "work_left n w = pool_cost (pool w) + sum_list (map thread_cost (take n (threads w)))"

definition quiescent :: "nat \<Rightarrow> 'v machine \<Rightarrow> bool" where
  "quiescent n w \<longleftrightarrow> (\<forall>i<n. queues (pool w) ! i = [] \<and> spins (threads w ! i))"

text \<open>Every worker runs, holds and will find only callables that compute.\<close>

definition computes :: "nat \<Rightarrow> 'v machine \<Rightarrow> bool" where
  "computes n w \<longleftrightarrow> (\<forall>i<n. simple_thread (threads w ! i) \<or> spins (threads w ! i)) \<and>
     simple_pool {..<n} (pool w)"

text \<open>The number of posts stays below what \<open>unfinished_\<close> can count.\<close>

definition live :: "nat \<Rightarrow> 'v machine \<Rightarrow> bool" where
  "live n w \<longleftrightarrow> sync_inv n w \<and> n < 2 ^ 64 \<and> computes n w \<and>
     length (posted (pool w)) + work_left n w < 2 ^ 64 \<and> (quiescent n w \<or> awake n w)"

text \<open>The steps of the workers, and those of the others: spurious wake-ups, and a thread of the
  application that waits.\<close>

definition worker_step :: "nat \<Rightarrow> nat \<Rightarrow> 'v machine \<Rightarrow> 'v machine \<Rightarrow> bool" where
  "worker_step n i w w' \<longleftrightarrow> i < n \<and> (\<exists>j. run_thread j i w = Some w')"

definition others :: "nat \<Rightarrow> 'v machine \<Rightarrow> 'v machine \<Rightarrow> bool" where
  "others n w w' \<longleftrightarrow> (machine_step w w' \<or> w' = w) \<and> take n (threads w') = take n (threads w) \<and>
     (\<exists>ws m vs. set ws \<subseteq> set (th_waiters (pool w)) \<and>
       pool w' = (pool w)\<lparr>th_waiters := ws, wait_mutex := m, wait_waiters := vs\<rparr>)"

section \<open>What a worker can do next\<close>

text \<open>A worker whose next step makes progress.\<close>

definition ready :: "nat \<Rightarrow> 'v machine \<Rightarrow> bool" where
  "ready i w \<longleftrightarrow> (let t = threads w ! i; qs = queues (pool w) in
     simple_thread t \<and> \<not> spins t \<or> t = (Own, []) \<and> qs ! i \<noteq> [] \<or>
     (\<exists>v<length qs. t = (Steal_from v, []) \<and> qs ! v \<noteq> []))"

lemma live_facts:
  assumes "live n w"
  shows "sync_inv n w" "machine_inv n w" "length (queues (pool w)) = n" "n \<le> length (threads w)"
    "\<not> shutdown (pool w)" "\<not> terminated (pool w)" "fault (pool w) = None" "n < 2 ^ 64"
    "simple_pool {..<n} (pool w)" "length (posted (pool w)) < 2 ^ 64"
  using assms by (auto simp: live_def sync_inv_def machine_inv_def computes_def simple_pool_def)

lemma queue_unfinished:
  "live n w \<Longrightarrow> v < n \<Longrightarrow> queues (pool w) ! v \<noteq> [] \<Longrightarrow> 0 < unfinished (pool w)"
  using queue_nonempty_unfinished live_facts(2,10) by blast

text \<open>A step that makes progress.\<close>

lemma ready_step:
  assumes "live n w" "run_thread j i w = Some w'" "i < n" "ready i w"
  shows "work_left n w' < work_left n w \<and> computes n w' \<and> \<not> resting i w'"
proof -
  note live = live_facts [OF assms(1)]
  let ?p = "pool w" and ?t = "threads w ! i"
  obtain p' t' where i: "i < length (threads w)" and w': "w' = w\<lparr>pool := p', threads := (threads w)[i := t']\<rparr>"
    and step: "thread_step j i ?t ?p = Some (p', t')"
    using run_facts [OF live(2) assms(2)] by metis
  have ok: "thread_ok i ?p ?t" using live(2) i by (auto simp: machine_inv_def)
  have iq: "i < length (queues ?p)" "i \<in> {..<n}" using assms(3) live(3) by auto
  obtain c K where t: "?t = (c, K)" by fastforce
  have d: "drains i {..<n} ?p ?t p' t'"
  proof (cases "\<exists>v<length (queues ?p). ?t = (Steal_from v, []) \<and> queues ?p ! v \<noteq> []")
    case True
    then obtain v where v: "v < length (queues ?p)" "?t = (Steal_from v, [])" "queues ?p ! v \<noteq> []" by blast
    with step live(3,9) show ?thesis by (auto intro!: drains_steal simp del: work_step.simps)
  next
    case False
    with assms(4) have simple: "simple_thread ?t" "c \<noteq> Loop" "c = Own \<Longrightarrow> queues ?p ! i \<noteq> []"
      using ok by (auto simp: ready_def Let_def spins_def simple_thread_def t)
    show ?thesis unfolding t
    proof (rule drains_step [OF _ _ iq(1)])
      show "promise (states ?p ! m) = Unset" if "K = Publish m # K'" for m K'
        using open_top [OF live(2) i] that t by blast
    qed (use simple step ok t live(9) iq in simp_all)
  qed
  have n: "n \<le> length (threads w)" using live(4) .
  have "sum_list (map thread_cost (take n (threads w'))) + thread_cost ?t =
      sum_list (map thread_cost (take n (threads w))) + thread_cost t'"
    using sum_list_update [of i "take n (threads w)" thread_cost t'] assms(3) n
    by (simp add: w' take_update_swap)
  moreover have "fst t' \<noteq> Doze" "fst t' \<noteq> Asleep" using d by (auto simp: drains_def simple_thread_def)
  ultimately show ?thesis
    using d assms(1,3) i
    by (auto simp: drains_def work_left_def w' live_def computes_def resting_def nth_change)
qed

text \<open>A step of a worker that only looks for work.\<close>

fun own_distance :: "'v control \<Rightarrow> nat" where
  "own_distance Loop = 1"
| "own_distance Test = 2"
| "own_distance (Steal_from v) = 3"
| "own_distance Asleep = 3"
| "own_distance Steal = 4"
| "own_distance c = 0"

fun draw_distance :: "'v control \<Rightarrow> nat" where
  "draw_distance Own = 1"
| "draw_distance Loop = 2"
| "draw_distance Test = 3"
| "draw_distance (Steal_from v) = 4"
| "draw_distance Asleep = 4"
| "draw_distance c = 0"

lemma spin_step:
  assumes "live n w" "run_thread j i w = Some w'" "i < n" "\<not> ready i w"
  obtains c c' p' where "threads w ! i = (c, [])" "spin_control c" "spin_control c'"
    "w' = w\<lparr>pool := p', threads := (threads w)[i := (c', [])]\<rparr>"
    "work_step i c (pool w) = Some (p', c', [])"
    "queues p' = queues (pool w)" "states p' = states (pool w)" "posted p' = posted (pool w)"
    "shutdown p' = shutdown (pool w)" "terminated p' = terminated (pool w)" "fault p' = fault (pool w)"
proof -
  note live = live_facts [OF assms(1)]
  let ?p = "pool w" and ?t = "threads w ! i"
  obtain p' t' where i: "i < length (threads w)" and w': "w' = w\<lparr>pool := p', threads := (threads w)[i := t']\<rparr>"
    and step: "thread_step j i ?t ?p = Some (p', t')"
    using run_facts [OF live(2) assms(2)] by metis
  have ok: "thread_ok i ?p ?t" using live(2) i by (auto simp: machine_inv_def)
  obtain c K where t: "?t = (c, K)" by fastforce
  have c: "spin_control c" "K = []"
    using assms(1,3,4) by (auto simp: ready_def Let_def live_def computes_def spins_def t)
  have work: "work_step i c ?p = Some (p', t')"
    using step c(1) unfolding t c(2) by (cases c) (simp_all add: lift_def del: work_step.simps)
  have "\<exists>c'. t' = (c', []) \<and> spin_control c' \<and> queues p' = queues ?p \<and> states p' = states ?p \<and>
      posted p' = posted ?p \<and> shutdown p' = shutdown ?p \<and> terminated p' = terminated ?p \<and> fault p' = fault ?p"
    using work c(1) assms(3,4) ok live(3,5)
    by (cases c) (auto simp: ready_def t c(2) Let_def choose_victim_def split: if_splits list.splits)
  with that t c w' work show thesis by metis
qed

lemma spin_keeps:
  assumes "live n w" "run_thread j i w = Some w'" "i < n" "\<not> ready i w"
  shows "work_left n w' = work_left n w \<and> computes n w' \<and> posted (pool w') = posted (pool w)"
proof -
  note live = live_facts [OF assms(1)]
  have zero: "control_cost c = 0" if "spin_control c" for c :: "'a control"
    using that by (cases c) auto
  from spin_step [OF assms] obtain c c' p' where s: "threads w ! i = (c, [])" "spin_control c" "spin_control c'"
    "w' = w\<lparr>pool := p', threads := (threads w)[i := (c', [])]\<rparr>"
    and p': "queues p' = queues (pool w)" "states p' = states (pool w)" "posted p' = posted (pool w)"
    "shutdown p' = shutdown (pool w)" "terminated p' = terminated (pool w)" "fault p' = fault (pool w)" by metis
  have "pool_cost p' = pool_cost (pool w)" "simple_pool {..<n} p'"
    using p' live(9) by (simp_all add: pool_cost_def simple_pool_def)
  moreover have "sum_list (map thread_cost (take n (threads w'))) = sum_list (map thread_cost (take n (threads w)))"
    using sum_list_update [of i "take n (threads w)" thread_cost "(c', [])"] assms(3) live(4) s zero
    by (simp add: take_update_swap thread_cost_def)
  ultimately show ?thesis
    using s p'(3) assms(1,3) live(4) by (auto simp: work_left_def computes_def live_def spins_def nth_change)
qed

section \<open>The invariant\<close>

lemma work_waiters: "work_step i c p = Some (p', t') \<Longrightarrow> set (th_waiters p) \<subseteq> set (th_waiters p') \<and>
    set (th_waiters p') \<subseteq> insert i (set (th_waiters p))"
  by (cases "(i, c, p)" rule: work_step.cases)
    (auto simp: choose_victim_def Let_def split: if_splits list.splits)

text \<open>Looking for work, a worker goes to sleep only when nothing is unfinished.\<close>

lemma spin_rests:
  assumes "work_step i c p = Some (p', c', [])" "spin_control c" "c' = Doze \<or> c' = Asleep"
  shows "c = Doze \<or> c = Test \<and> unfinished p = 0"
  using assms by (cases c) (auto simp: choose_victim_def Let_def word_gt_0 split: if_splits list.splits)

lemma busy_not_resting: "simple_thread (threads w ! i) \<Longrightarrow> \<not> resting i w"
  by (auto simp: resting_def simple_thread_def)

lemma stays_awake:
  assumes "live n w" "\<not> quiescent n w" "run_thread j i w = Some w'" "i < n"
  shows "awake n w'"
proof (cases "ready i w")
  case True
  with ready_step [OF assms(1,3,4)] assms(4) show ?thesis by (auto simp: awake_def)
next
  case False
  from assms(1,2) obtain k where k: "k < n" "\<not> resting k w" by (auto simp: live_def awake_def)
  from spin_step [OF assms(1,3,4) False] obtain c c' p' where s: "threads w ! i = (c, [])" "spin_control c"
    "w' = w\<lparr>pool := p', threads := (threads w)[i := (c', [])]\<rparr>"
    "work_step i c (pool w) = Some (p', c', [])" by metis
  have other: "\<not> resting m w'" if "m \<noteq> i" "\<not> resting m w" for m
    using that work_waiters [OF s(4)] by (auto simp: resting_def s(3))
  show ?thesis
  proof (cases "k = i")
    case True
    show ?thesis
    proof (cases "resting i w'")
      case True
      have i: "i < length (threads w)" using assms(4) live_facts(4) [OF assms(1)] by simp
      then have "c' = Doze \<or> c' = Asleep" using True by (auto simp: resting_def s(3))
      then have "unfinished (pool w) = 0"
        using spin_rests [OF s(4,2)] k \<open>k = i\<close> s(1) by (auto simp: resting_def)
      then have "\<forall>v<n. queues (pool w) ! v = []" using queue_unfinished [OF assms(1)] by fastforce
      then obtain m where m: "m < n" "\<not> spins (threads w ! m)" using assms(2) by (auto simp: quiescent_def)
      then have "m \<noteq> i" "\<not> resting m w"
        using s(1,2) assms(1) busy_not_resting by (auto simp: spins_def live_def computes_def)
      with m(1) other show ?thesis by (auto simp: awake_def)
    qed (use assms(4) in \<open>auto simp: awake_def\<close>)
  qed (use k other in \<open>auto simp: awake_def\<close>)
qed

lemma posted_step:
  assumes "live n w" "run_thread j i w = Some w'"
  shows "length (posted (pool w')) \<le> Suc (length (posted (pool w)))"
proof -
  obtain p' t' where "w' = w\<lparr>pool := p', threads := (threads w)[i := t']\<rparr>"
    "balanced (pool w) (threads w ! i) p' t'"
    using run_facts [OF live_facts(2) [OF assms(1)] assms(2)] by metis
  then show ?thesis by (auto elim: balanced.cases)
qed

lemma live_step:
  assumes "live n w" "\<not> quiescent n w" "worker_step n i w w'"
  shows "live n w'"
proof -
  from assms(3) obtain j where i: "i < n" and run: "run_thread j i w = Some w'"
    by (auto simp: worker_step_def)
  have "sync_inv n w'" using live_facts(1) [OF assms(1)] run by (rule sync_inv_run)
  moreover have "computes n w'" "length (posted (pool w')) + work_left n w' \<le> length (posted (pool w)) + work_left n w"
    using ready_step [OF assms(1) run i] spin_keeps [OF assms(1) run i] posted_step [OF assms(1) run]
    by (cases "ready i w"; simp)+
  ultimately show ?thesis
    using stays_awake [OF assms(1,2) run i] assms(1) by (simp add: live_def)
qed

lemma others_facts:
  assumes "others n w w'" "live n w"
  obtains ws m vs where "\<And>i. i < n \<Longrightarrow> threads w' ! i = threads w ! i" "set ws \<subseteq> set (th_waiters (pool w))"
    "pool w' = (pool w)\<lparr>th_waiters := ws, wait_mutex := m, wait_waiters := vs\<rparr>"
  using assms unfolding others_def by (metis nth_take)

lemma live_others:
  assumes "live n w" "others n w w'"
  shows "live n w'"
proof -
  obtain ws m vs where thr: "\<And>i. i < n \<Longrightarrow> threads w' ! i = threads w ! i"
    and ws: "set ws \<subseteq> set (th_waiters (pool w))"
    and p: "pool w' = (pool w)\<lparr>th_waiters := ws, wait_mutex := m, wait_waiters := vs\<rparr>"
    using others_facts [OF assms(2,1)] by metis
  have "sync_inv n w'"
    using assms(2) live_facts(1) [OF assms(1)] sync.inv_step by (auto simp: others_def)
  moreover have "computes n w'" "quiescent n w' \<longleftrightarrow> quiescent n w" "work_left n w' = work_left n w"
    using assms thr
    by (auto simp: live_def computes_def quiescent_def work_left_def pool_cost_def simple_pool_def p others_def)
  moreover have "awake n w'" if "awake n w"
    using that thr ws by (auto simp: awake_def resting_def p)
  ultimately show ?thesis using assms(1) by (auto simp: live_def p)
qed

section \<open>Which worker helps\<close>

text \<open>The first queue that is not empty, and how many draws of \<open>round_index_\<close> are left until it is drawn.\<close>

definition target :: "'v pool \<Rightarrow> nat" where
  "target p = (LEAST v. v < length (queues p) \<and> queues p ! v \<noteq> [])"

definition draws_left :: "'v pool \<Rightarrow> nat" where
  "draws_left p = unat (of_nat (target p) - round_index p)"

definition some_queued :: "nat \<Rightarrow> 'v machine \<Rightarrow> bool" where
  "some_queued n w \<longleftrightarrow> (\<exists>v<n. queues (pool w) ! v \<noteq> [])"

text \<open>
  The stages, best first: a worker whose next step makes progress; a worker that is awake and has
  packages of its own; one that is awake, when all packages are in the queues of sleeping workers; one
  that holds the mutex, about to sleep.
\<close>

inductive helps :: "nat \<Rightarrow> 'v machine \<Rightarrow> nat \<Rightarrow> nat \<times> nat \<times> nat \<Rightarrow> bool" for n w where
  ready_worker: "h < n \<Longrightarrow> ready h w \<Longrightarrow> helps n w h (0, 0, 0)"
| own_packages: "h < n \<Longrightarrow> threads w ! h = (c, []) \<Longrightarrow> spin_control c \<Longrightarrow> th_mutex (pool w) = None \<Longrightarrow>
    \<not> resting h w \<Longrightarrow> queues (pool w) ! h \<noteq> [] \<Longrightarrow> helps n w h (1, 0, own_distance c)"
| all_asleep: "h < n \<Longrightarrow> threads w ! h = (c, []) \<Longrightarrow> spin_control c \<Longrightarrow> th_mutex (pool w) = None \<Longrightarrow>
    \<not> resting h w \<Longrightarrow> some_queued n w \<Longrightarrow> \<forall>i<n. \<not> resting i w \<longrightarrow> queues (pool w) ! i = [] \<Longrightarrow>
    helps n w h (2, draws_left (pool w), draw_distance c)"
| holds_mutex: "th_mutex (pool w) = Some h \<Longrightarrow> some_queued n w \<Longrightarrow> helps n w h (3, 0, 0)"

definition help_rank :: "nat \<Rightarrow> nat \<Rightarrow> nat \<times> nat \<times> nat \<times> nat \<Rightarrow> 'v machine \<Rightarrow> bool" where
  "help_rank n h a w \<longleftrightarrow> fst a = work_left n w \<and> helps n w h (snd a)"

abbreviation rank_less :: "((nat \<times> nat \<times> nat \<times> nat) \<times> nat \<times> nat \<times> nat \<times> nat) set" where
  "rank_less \<equiv> less_than <*lex*> less_than <*lex*> less_than <*lex*> less_than"

text \<open>Without a sleeper on the mutex, a stage below the last one applies.\<close>

lemma finds_helper:
  assumes "live n w" "\<not> quiescent n w"
  shows "\<exists>h a. helps n w h a \<and> (th_mutex (pool w) = None \<longrightarrow> fst a < 3)"
proof (cases "\<exists>i<n. ready i w")
  case True
  then show ?thesis using ready_worker by fastforce
next
  case False
  with assms(1) have spin: "spins (threads w ! i)" if "i < n" for i
    using that by (auto simp: live_def computes_def ready_def Let_def)
  with assms(2) have q: "some_queued n w" by (auto simp: quiescent_def some_queued_def)
  show ?thesis
  proof (cases "th_mutex (pool w)")
    case None
    from assms obtain i where i: "i < n" "\<not> resting i w" by (auto simp: live_def awake_def)
    show ?thesis
    proof (cases "\<exists>h<n. \<not> resting h w \<and> queues (pool w) ! h \<noteq> []")
      case True
      then obtain h where h: "h < n" "\<not> resting h w" "queues (pool w) ! h \<noteq> []" by blast
      with spin [OF h(1)] None own_packages [of h n w "fst (threads w ! h)"] show ?thesis
        by (cases "threads w ! h") (fastforce simp: spins_def)
    next
      case False
      with i spin [OF i(1)] None q all_asleep [of i n w "fst (threads w ! i)"] show ?thesis
        by (cases "threads w ! i") (fastforce simp: spins_def)
    qed
  next
    case (Some h)
    with holds_mutex q show ?thesis by fastforce
  qed
qed

text \<open>The one that holds the mutex is a worker about to sleep.\<close>

lemma mutex_holder:
  assumes "live n w" "th_mutex (pool w) = Some h"
  shows "h < n \<and> threads w ! h = (Doze, [])"
proof -
  from live_facts(1) [OF assms(1)] assms(2) have h: "h < length (threads w)" "fst (threads w ! h) = Doze"
    unfolding sync_inv_def sync_ok_def by (meson not_le)+
  with live_facts(2,3) [OF assms(1)] have "thread_ok h (pool w) (threads w ! h)"
    by (auto simp: machine_inv_def)
  with h(2) live_facts(3) [OF assms(1)] show ?thesis by (cases "threads w ! h") auto
qed

lemma doze_mutex:
  assumes "live n w" "i < n" "fst (threads w ! i) = Doze"
  shows "th_mutex (pool w) = Some i"
  using live_facts(1,4) [OF assms(1)] assms(2,3) by (auto simp: sync_inv_def sync_ok_def)

lemma worker_runs:
  assumes "live n w" "i < n" "\<not> waits i (threads w ! i) (pool w)"
  shows "\<exists>w'. worker_step n i w w'"
  using stuck_waits [OF live_facts(2) [OF assms(1)] _ live_facts(6,7) [OF assms(1)] assms(3)] assms(2)
    live_facts(4) [OF assms(1)]
  by (auto simp: worker_step_def)

lemma helper_enabled:
  assumes "live n w" "helps n w h a"
  shows "\<exists>w'. worker_step n h w w'"
  using assms(2)
proof cases
  case ready_worker
  then have "\<not> waits h (threads w ! h) (pool w)"
    using simple_no_wait [of "threads w ! h" h "pool w"] by (auto simp: ready_def Let_def)
  with worker_runs assms(1) ready_worker show ?thesis by blast
next
  case (own_packages c)
  then have "\<not> waits h (threads w ! h) (pool w)" by (cases c) (auto simp: resting_def)
  with worker_runs assms(1) own_packages show ?thesis by blast
next
  case (all_asleep c)
  then have "\<not> waits h (threads w ! h) (pool w)" by (cases c) (auto simp: resting_def)
  with worker_runs assms(1) all_asleep show ?thesis by blast
next
  case holds_mutex
  with mutex_holder [OF assms(1)] worker_runs [OF assms(1), of h] show ?thesis by auto
qed

section \<open>Every step helps\<close>

lemma target_queue:
  assumes "live n w" "some_queued n w"
  shows "target (pool w) < n \<and> queues (pool w) ! target (pool w) \<noteq> []"
  using LeastI_ex [of "\<lambda>v. v < length (queues (pool w)) \<and> queues (pool w) ! v \<noteq> []"] assms(2)
    live_facts(3) [OF assms(1)]
  by (auto simp: target_def some_queued_def)

text \<open>A worker that looks for work while the mutex is free and a queue is not empty.\<close>

lemma spin_free:
  assumes "live n w" "run_thread j i w = Some w'" "i < n" "\<not> ready i w" "th_mutex (pool w) = None"
    and "some_queued n w"
  obtains c c' p' where "threads w ! i = (c, [])" "spin_control c" "spin_control c'" "\<not> resting i w"
    "w' = w\<lparr>pool := p', threads := (threads w)[i := (c', [])]\<rparr>" "th_mutex p' = None"
    "queues p' = queues (pool w)" "\<And>k. resting k w' \<longleftrightarrow> resting k w"
    "work_step i c (pool w) = Some (p', c', [])" "c' \<noteq> Doze"
proof -
  from spin_step [OF assms(1-4)] obtain c c' p' where s: "threads w ! i = (c, [])" "spin_control c" "spin_control c'"
    "w' = w\<lparr>pool := p', threads := (threads w)[i := (c', [])]\<rparr>"
    and work: "work_step i c (pool w) = Some (p', c', [])" and q: "queues p' = queues (pool w)" by metis
  have u: "0 < unfinished (pool w)"
    using queue_unfinished [OF assms(1)] assms(6) by (auto simp: some_queued_def)
  have i: "i < length (threads w)" using assms(3) live_facts(4) [OF assms(1)] by simp
  have c: "c \<noteq> Doze" using doze_mutex [OF assms(1,3)] assms(5) s(1) by auto
  have same: "th_mutex p' = None \<and> set (th_waiters p') = set (th_waiters (pool w)) \<and> c' \<noteq> Doze \<and> c' \<noteq> Asleep"
    using work s(2) c u assms(5)
    by (cases c) (auto simp: choose_victim_def Let_def split: if_splits list.splits)
  have "\<not> resting i w" using work c s(1) by (auto simp: resting_def split: if_splits)
  moreover have "resting k w' \<longleftrightarrow> resting k w" for k
    using same \<open>\<not> resting i w\<close> i by (cases "k = i") (auto simp: resting_def s(4))
  ultimately show thesis using that s same q work by metis
qed

text \<open>The draw of a worker with an empty queue brings the target nearer or hits it.\<close>

lemma draw_step:
  assumes "live n w" "some_queued n w" "i < n" "queues (pool w) ! i = []"
    and "work_step i Steal (pool w) = Some (p', c', [])"
  shows "queues p' = queues (pool w) \<and>
    (draws_left p' < draws_left (pool w) \<or> c' = Steal_from (target (pool w)))"
proof -
  let ?p = "pool w"
  have n: "length (queues ?p) = n" "n < 2 ^ 64" using live_facts [OF assms(1)] by simp_all
  from target_queue [OF assms(1,2)] have t: "target ?p < n" "queues ?p ! target ?p \<noteq> []" by auto
  with assms(4) have ne: "target ?p \<noteq> i" by auto
  with t(1) assms(3) have n2: "1 < n" by linarith
  let ?v = "unat (round_index ?p) mod n"
  have p': "p' = ?p\<lparr>round_index := round_index ?p + 1\<rparr>"
    and c': "c' = Steal_from (if ?v = i then (?v + 1) mod n else ?v)"
    using assms(5) n2 by (auto simp: choose_victim_def Let_def n(1) split: if_splits)
  have t': "target p' = target ?p" by (simp add: target_def p')
  show ?thesis
  proof (cases "of_nat (target ?p) = round_index ?p")
    case True
    then have "unat (round_index ?p) = target ?p" using unat_u64 [of "target ?p"] t(1) n(2) by simp
    then have "?v = target ?p" using t(1) by simp
    with c' ne p' show ?thesis by simp
  next
    case False
    let ?d = "of_nat (target ?p) - round_index ?p"
    have "?d \<noteq> 0" using False by simp
    then have "unat (?d - 1) < unat ?d" by (metis measure_unat)
    moreover have "round_index p' = round_index ?p + 1" by (simp add: p')
    then have "draws_left p' = unat (?d - 1)" by (simp add: draws_left_def t' diff_diff_eq)
    ultimately show ?thesis by (simp add: draws_left_def p')
  qed
qed

lemma spin_helps:
  assumes "live n w" "run_thread j i w = Some w'" "i < n" "\<not> ready i w" "helps n w h a"
    and "live n w'" "\<not> quiescent n w'"
  shows "(\<exists>h' a'. (a', a) \<in> less_than <*lex*> less_than <*lex*> less_than \<and> helps n w' h' a') \<or>
    i \<noteq> h \<and> helps n w' h a"
  using assms(5)
proof cases
  case ready_worker
  with assms(4) have ne: "i \<noteq> h" by auto
  from spin_step [OF assms(1-4)] obtain c c' p' where "queues p' = queues (pool w)"
    "w' = w\<lparr>pool := p', threads := (threads w)[i := (c', [])]\<rparr>" by metis
  with ready_worker ne show ?thesis
    by (auto simp: ready_def Let_def intro!: helps.ready_worker)
next
  case (own_packages c)
  then have q: "some_queued n w" by (auto simp: some_queued_def)
  from spin_free [OF assms(1-4) own_packages(5) q] obtain d d' p' where s: "threads w ! i = (d, [])"
    "spin_control d" "spin_control d'" "w' = w\<lparr>pool := p', threads := (threads w)[i := (d', [])]\<rparr>"
    "th_mutex p' = None" "queues p' = queues (pool w)" "\<And>k. resting k w' \<longleftrightarrow> resting k w"
    "work_step i d (pool w) = Some (p', d', [])" by metis
  have i: "i < length (threads w)" using assms(3) live_facts(4) [OF assms(1)] by simp
  show ?thesis
  proof (cases "i = h")
    case True
    have "own_distance d' < own_distance d"
      using s(1,2,3,8) assms(4) own_packages(6,7) True live_facts(5) [OF assms(1)]
      by (cases d) (auto simp: ready_def resting_def choose_victim_def Let_def split: if_splits)
    moreover have "helps n w' h (1, 0, own_distance d')"
      using own_packages True s i by (intro helps.own_packages) auto
    ultimately show ?thesis using own_packages s(1) True by fastforce
  next
    case False
    with own_packages s have "helps n w' h (1, 0, own_distance c)"
      by (intro helps.own_packages) auto
    with False own_packages show ?thesis by simp
  qed
next
  case (all_asleep c)
  from spin_free [OF assms(1-4) all_asleep(5,7)] obtain d d' p' where s: "threads w ! i = (d, [])"
    "spin_control d" "spin_control d'" "\<not> resting i w" "w' = w\<lparr>pool := p', threads := (threads w)[i := (d', [])]\<rparr>"
    "th_mutex p' = None" "queues p' = queues (pool w)" "\<And>k. resting k w' \<longleftrightarrow> resting k w"
    "work_step i d (pool w) = Some (p', d', [])" by metis
  have i: "i < length (threads w)" using assms(3) live_facts(4) [OF assms(1)] by simp
  have empty: "queues (pool w) ! i = []" using all_asleep(8) s(4) assms(3) by blast
  have q': "some_queued n w'" "\<forall>k<n. \<not> resting k w' \<longrightarrow> queues (pool w') ! k = []"
    using all_asleep(7,8) s(5,7,8) by (auto simp: some_queued_def)
  have helper: "helps n w' h (2, draws_left p', draw_distance e)" if "threads w' ! h = (e, [])" "spin_control e" for e
    using all_asleep(2,6) s(5,6,8) q' that helps.all_asleep [of h n w' e] by simp
  show ?thesis
  proof (cases "d = Steal")
    case True
    then have w: "work_step i Steal (pool w) = Some (p', d', [])" using s(9) by simp
    from draw_step [OF assms(1) all_asleep(7) assms(3) empty w] show ?thesis
    proof (elim conjE disjE)
      assume d: "draws_left p' < draws_left (pool w)"
      obtain e where "threads w' ! h = (e, [])" "spin_control e"
        using all_asleep(3,4) s(3,5) i by (cases "i = h") auto
      with helper d all_asleep(1) show ?thesis by fastforce
    next
      assume d': "d' = Steal_from (target (pool w))"
      then have "ready i w'"
        using target_queue [OF assms(1) all_asleep(7)] i live_facts(3) [OF assms(1)]
        by (auto simp: ready_def Let_def s(5,7))
      then have "helps n w' i (0, 0, 0)" using assms(3) by (intro helps.ready_worker)
      with all_asleep(1) show ?thesis by fastforce
    qed
  next
    case False
    have idx: "draws_left p' = draws_left (pool w)" and dist: "draw_distance d' < draw_distance d"
      using s(2,9) False empty live_facts(5) [OF assms(1)] queue_unfinished [OF assms(1)] all_asleep(5,7)
        doze_mutex [OF assms(1,3)] s(1)
      by (cases d; auto simp: Let_def draws_left_def target_def some_queued_def split: if_splits)+
    show ?thesis
    proof (cases "i = h")
      case True
      with helper [of d'] s i idx dist all_asleep(1,3) show ?thesis by fastforce
    next
      case False
      with helper [of c] s(5) all_asleep(1,3,4) idx show ?thesis by simp
    qed
  qed
next
  case holds_mutex
  from mutex_holder [OF assms(1) holds_mutex(2)] have h: "h < n" "threads w ! h = (Doze, [])" by auto
  from spin_step [OF assms(1-4)] obtain d d' p' where s: "threads w ! i = (d, [])"
    "w' = w\<lparr>pool := p', threads := (threads w)[i := (d', [])]\<rparr>"
    "work_step i d (pool w) = Some (p', d', [])" "queues p' = queues (pool w)" "spin_control d" by metis
  show ?thesis
  proof (cases "i = h")
    case True
    then have "th_mutex (pool w') = None" using s h by auto
    with finds_helper [OF assms(6,7)] obtain h' a' where "helps n w' h' a'" "fst a' < 3" by blast
    with holds_mutex(1) show ?thesis by (cases a') fastforce
  next
    case False
    have "d \<noteq> Doze" using doze_mutex [OF assms(1,3)] holds_mutex(2) False s(1) by auto
    then have "th_mutex p' = Some h"
      using s(3,5) holds_mutex(2)
      by (cases d) (auto simp: choose_victim_def Let_def split: if_splits list.splits)
    with holds_mutex False s show ?thesis
      by (auto simp: some_queued_def intro!: helps.holds_mutex)
  qed
qed

lemma others_helps:
  assumes "live n w" "others n w w'" "helps n w h a"
  shows "(\<exists>h' a'. (a', a) \<in> less_than <*lex*> less_than <*lex*> less_than \<and> helps n w' h' a') \<or> helps n w' h a"
proof -
  obtain ws m vs where thr: "\<And>i. i < n \<Longrightarrow> threads w' ! i = threads w ! i"
    and ws: "set ws \<subseteq> set (th_waiters (pool w))"
    and p: "pool w' = (pool w)\<lparr>th_waiters := ws, wait_mutex := m, wait_waiters := vs\<rparr>"
    using others_facts [OF assms(2,1)] by metis
  have rest: "\<not> resting i w'" if "i < n" "\<not> resting i w" for i
    using that thr ws by (auto simp: resting_def p)
  show ?thesis using assms(3)
  proof cases
    case ready_worker
    then have "ready h w'" using thr by (simp add: ready_def p)
    with ready_worker show ?thesis by (simp add: helps.ready_worker)
  next
    case (own_packages c)
    with thr rest have "helps n w' h (1, 0, own_distance c)"
      by (intro helps.own_packages) (auto simp: p)
    with own_packages(1) show ?thesis by simp
  next
    case (all_asleep c)
    have draws: "draws_left (pool w') = draws_left (pool w)" by (simp add: draws_left_def target_def p)
    show ?thesis
    proof (cases "\<exists>i<n. \<not> resting i w' \<and> queues (pool w') ! i \<noteq> []")
      case True
      then obtain i where i: "i < n" "\<not> resting i w'" "queues (pool w') ! i \<noteq> []" by blast
      then have "resting i w" using all_asleep(8) by (auto simp: p)
      moreover have "fst (threads w ! i) \<noteq> Doze" using doze_mutex [OF assms(1) i(1)] all_asleep(5) by auto
      moreover have "thread_ok i (pool w) (threads w ! i)"
        using live_facts(2,4) [OF assms(1)] i(1) by (auto simp: machine_inv_def)
      ultimately have "threads w ! i = (Asleep, [])"
        by (cases "threads w ! i") (auto simp: resting_def)
      then have "helps n w' i (1, 0, 3)"
        using helps.own_packages [of i n w' Asleep] i thr all_asleep(5) by (simp add: p)
      moreover have "((1, 0, 3), a) \<in> less_than <*lex*> less_than <*lex*> less_than"
        using all_asleep(1) by simp
      ultimately show ?thesis by blast
    next
      case False
      with all_asleep thr rest draws have "helps n w' h (2, draws_left (pool w'), draw_distance c)"
        by (intro helps.all_asleep) (auto simp: p some_queued_def)
      with all_asleep(1) draws show ?thesis by simp
    qed
  next
    case holds_mutex
    then show ?thesis by (auto intro!: helps.holds_mutex simp: p some_queued_def)
  qed
qed

interpretation workers: helpful "worker_step n" "others n" "live n" "quiescent n" "help_rank n" rank_less
proof
  show "Wellfounded.wf rank_less" by auto
  show "\<exists>h a. help_rank n h a w" if "live n w" "\<not> quiescent n w" for w :: "'a machine"
    using finds_helper [OF that] by (fastforce simp: help_rank_def)
  show "\<exists>w'. worker_step n h w w'" if "live n w" "help_rank n h a w" for w :: "'a machine" and h a
    using helper_enabled [OF that(1), of h "snd a"] that(2) by (simp add: help_rank_def)
  show "live n w'" if "live n w" "\<not> quiescent n w" "worker_step n i w w'" for w w' :: "'a machine" and i
    using that by (rule live_step)
  show "live n w'" if "live n w" "others n w w'" for w w' :: "'a machine"
    using that by (rule live_others)
  show "(\<exists>h' a'. (a', a) \<in> rank_less \<and> help_rank n h' a' w') \<or> i \<noteq> h \<and> help_rank n h a w'"
    if "live n w" "\<not> quiescent n w" "help_rank n h a w" "worker_step n i w w'" "\<not> quiescent n w'"
    for w w' :: "'a machine" and h a i
  proof -
    have live': "live n w'" using that(1,2,4) by (rule live_step)
    from that(4) obtain j where i: "i < n" and run: "run_thread j i w = Some w'"
      by (auto simp: worker_step_def)
    have a: "fst a = work_left n w" "helps n w h (snd a)" using that(3) by (simp_all add: help_rank_def)
    show ?thesis
    proof (cases "ready i w")
      case True
      from ready_step [OF that(1) run i True] have less: "work_left n w' < fst a" using a by simp
      from finds_helper [OF live' that(5)] obtain h' b where "helps n w' h' b" by blast
      then have "help_rank n h' (work_left n w', b) w'" by (simp add: help_rank_def)
      moreover have "((work_left n w', b), a) \<in> rank_less" using less by (cases a) simp
      ultimately show ?thesis by blast
    next
      case False
      from spin_keeps [OF that(1) run i False] have same: "work_left n w' = fst a" using a by simp
      from spin_helps [OF that(1) run i False a(2) live' that(5)] show ?thesis
      proof (elim disjE exE conjE)
        fix h' b
        assume "(b, snd a) \<in> less_than <*lex*> less_than <*lex*> less_than" "helps n w' h' b"
        then have "help_rank n h' (fst a, b) w'" "((fst a, b), a) \<in> rank_less"
          using same by (cases a; simp add: help_rank_def)+
        then show ?thesis by blast
      qed (use same in \<open>simp add: help_rank_def\<close>)
    qed
  qed
  show "(\<exists>h' a'. (a', a) \<in> rank_less \<and> help_rank n h' a' w') \<or> help_rank n h a w'"
    if "live n w" "help_rank n h a w" "others n w w'" for w w' :: "'a machine" and h a
  proof -
    have a: "fst a = work_left n w" "helps n w h (snd a)" using that(2) by (simp_all add: help_rank_def)
    have same: "work_left n w' = fst a"
      using that(3) a(1) by (auto simp: others_def work_left_def pool_cost_def)
    from others_helps [OF that(1,3) a(2)] show ?thesis
    proof (elim disjE exE conjE)
      fix h' b
      assume "(b, snd a) \<in> less_than <*lex*> less_than <*lex*> less_than" "helps n w' h' b"
      then have "help_rank n h' (fst a, b) w'" "((fst a, b), a) \<in> rank_less"
        using same by (cases a; simp add: help_rank_def)+
      then show ?thesis by blast
    qed (use same in \<open>simp add: help_rank_def\<close>)
  qed
qed

section \<open>No post is forgotten\<close>

definition tracked :: "nat \<Rightarrow> 'v machine \<Rightarrow> nat \<Rightarrow> bool" where
  "tracked n w m \<longleftrightarrow> m \<in># sum_list (map counted (take n (threads w))) + queued (pool w) \<or>
     m \<in> set (finished (pool w))"

lemma tracked_step:
  assumes "machine_inv n w" "worker_step n i w w'" "tracked n w m"
  shows "tracked n w' m"
proof -
  let ?c = "\<lambda>w. sum_list (map counted (take n (threads w)))"
  from assms(2) obtain j where i: "i < n" and run: "run_thread j i w = Some w'"
    by (auto simp: worker_step_def)
  obtain p' t' where w': "w' = w\<lparr>pool := p', threads := (threads w)[i := t']\<rparr>"
    and bal: "balanced (pool w) (threads w ! i) p' t'"
    using run_facts [OF assms(1) run] by metis
  have A: "?c w' + counted (threads w ! i) = ?c w + counted t'"
    using sum_list_update [of i "take n (threads w)" counted t'] i assms(1)
    by (simp add: machine_inv_def w' take_update_swap)
  have sum: "?c w' + queued p' = ?c w + queued (pool w)"
    if "counted t' + queued p' = counted (threads w ! i) + queued (pool w)"
  proof -
    have "(?c w' + queued p') + counted (threads w ! i) = (?c w' + counted (threads w ! i)) + queued p'"
      by (simp only: ac_simps)
    also have "\<dots> = ?c w + (counted t' + queued p')" unfolding A by (simp only: ac_simps)
    also have "\<dots> = (?c w + queued (pool w)) + counted (threads w ! i)" unfolding that by (simp only: ac_simps)
    finally show ?thesis by simp
  qed
  from bal show ?thesis
  proof cases
    case (now_finished k)
    then have "?c w = add_mset k (?c w')" using A by simp
    with now_finished assms(3) show ?thesis by (auto simp: tracked_def w')
  next
    case (now_counted k)
    then have "?c w' = add_mset k (?c w)" using A by simp
    with now_counted assms(3) show ?thesis by (auto simp: tracked_def w')
  next
    case numbered
    then have "?c w' = ?c w" using A by simp
    with numbered assms(3) show ?thesis by (auto simp: tracked_def w')
  qed (use sum assms(3) in \<open>simp_all add: tracked_def w'\<close>)
qed

lemma tracked_others: "others n w w' \<Longrightarrow> tracked n w m \<Longrightarrow> tracked n w' m"
  by (auto simp: others_def tracked_def queued_def)

lemma sum_list_empties: "(\<And>x. x \<in> set xs \<Longrightarrow> f x = {#}) \<Longrightarrow> sum_list (map f xs) = {#}"
  by (induction xs) simp_all

lemma quiescent_counted:
  assumes "quiescent n w" "machine_inv n w"
  shows "sum_list (map counted (take n (threads w))) = {#}" "queued (pool w) = {#}"
proof -
  have "counted t = {#}" if t: "t \<in> set (take n (threads w))" for t
  proof -
    from t obtain i where "i < n" "t = threads w ! i" by (auto simp: in_set_conv_nth)
    with assms(1) have "spins t" by (auto simp: quiescent_def)
    then have "snd t = []" "control_posts (fst t) = {#}"
      by (cases "fst t"; auto simp: spins_def)+
    then show ?thesis by (cases t) simp
  qed
  then show "sum_list (map counted (take n (threads w))) = {#}" by (intro sum_list_empties) auto
  have "\<forall>q\<in>set (queues (pool w)). q = []"
    using assms by (auto simp: quiescent_def machine_inv_def in_set_conv_nth)
  then show "queued (pool w) = {#}" unfolding queued_def by (intro sum_list_empties) auto
qed

section \<open>Property\<close>

text \<open>Some run is fair: each worker in turn takes a step if it can.\<close>

lemma fair_run_exists:
  fixes w :: "'a machine"
  assumes "0 < n"
  shows "\<exists>l s. s 0 = w \<and> runs (worker_step n) (others n) l s \<and> fair (worker_step n) l s"
proof -
  define able where "able = (\<lambda>k (v :: 'a machine). \<exists>v'. worker_step n (k mod n) v v')"
  define s where "s = rec_nat w (\<lambda>k v. if able k v then SOME v'. worker_step n (k mod n) v v' else v)"
  define l where "l = (\<lambda>k. if able k (s k) then Some (k mod n) else None)"
  have s: "s 0 = w" "s (Suc k) = (if able k (s k) then SOME v'. worker_step n (k mod n) (s k) v' else s k)" for k
    by (simp_all add: s_def)
  have "worker_step n (k mod n) (s k) (s (Suc k))" if "able k (s k)" for k
    using that unfolding s(2) able_def by (auto intro: someI)
  moreover have "others n v v" for v :: "'a machine"
    unfolding others_def by (intro conjI exI [of _ "th_waiters (pool v)"] exI [of _ "wait_mutex (pool v)"]
        exI [of _ "wait_waiters (pool v)"]) auto
  ultimately have "runs (worker_step n) (others n) l s" by (simp add: runs_def l_def s(2))
  moreover have "\<exists>j\<ge>k. l j = Some i \<or> (\<nexists>t. worker_step n i (s j) t)" for i k
  proof (cases "i < n")
    case True
    with assms have "k \<le> k * n + i" "(k * n + i) mod n = i" by (simp_all add: trans_le_add1)
    moreover have "l (k * n + i) = Some i \<or> (\<nexists>t. worker_step n i (s (k * n + i)) t)"
      unfolding l_def able_def calculation(2) by simp
    ultimately show ?thesis by blast
  qed (auto simp: worker_step_def)
  ultimately show ?thesis using s(1) unfolding fair_def by blast
qed

text \<open>C4. The workers finish everything. Take any reachable state in which one worker, whichever, is not
  asleep, where the workers run and hold only callables that compute (or throw, but for \<open>post_detach\<close>),
  and let from then on the workers run under any weakly fair schedule, with spurious wake-ups and waiting
  threads of the application in between. Then a state comes in which all queues are empty and no worker
  executes anything. Every post that was in a queue or on a worker is finished then, also those in the queues of
  workers that never wake up; the future of each \<open>post\<close> holds the result of its function; and if the application is submitting nothing,
  \<open>unfinished_\<close> is zero, so that \<open>wait\<close> returns. There is no livelock between workers that look for
  work. (Without a worker that is awake this fails: \<open>wake_up_can_be_lost\<close>.)\<close>

theorem workers_finish_everything:
  assumes "machine_init n w" and "machine_step\<^sup>*\<^sup>* w (s 0)" and "n < 2 ^ 64"
    and "computes n (s 0)" and "awake n (s 0)"
    and "length (posted (pool (s 0))) + work_left n (s 0) < 2 ^ 64"
    and "runs (worker_step n) (others n) l s" and "fair (worker_step n) l s"
  shows "\<exists>k. (\<forall>i<n. queues (pool (s k)) ! i = [] \<and> spins (threads (s k) ! i)) \<and>
    (\<forall>i<n. (\<forall>m\<in>#counted (threads (s 0) ! i). m \<in> set (finished (pool (s k)))) \<and>
      (\<forall>(t, m)\<in>set (queues (pool (s 0)) ! i). m \<in> set (finished (pool (s k))) \<and>
        (\<forall>r c. t = Posted (Done r) c \<longrightarrow> shared_future_get c (states (pool (s k))) = Some r))) \<and>
    ((\<forall>i. n \<le> i \<and> i < length (threads (s k)) \<longrightarrow> counted (threads (s k) ! i) = {#}) \<longrightarrow>
      unfinished (pool (s k)) = 0)"
proof -
  have inv0: "machine_inv n (s 0)" using assms(1,2) by (rule reachable_inv)
  have "sync_inv n (s 0)" using assms(1,2) by (rule sync.inv_reachable)
  with assms(3-6) have "live n (s 0)" by (simp add: live_def)
  from workers.reaches_goal [OF assms(7,8) this] obtain k where
    goal: "quiescent n (s k)" and "live n (s k)" by blast
  then have inv: "machine_inv n (s k)" and len: "n \<le> length (threads (s k))" by (simp_all add: live_facts)
  have reach: "machine_step\<^sup>*\<^sup>* (s 0) (s k)"
    using assms(7) by (rule runs_reach) (auto simp: worker_step_def others_def intro: machine_step.intros)
  have steps: "machine_step\<^sup>*\<^sup>* (s 0) (s j)" for j
    using assms(7) by (rule runs_reach) (auto simp: worker_step_def others_def intro: machine_step.intros)
  have fin: "m \<in> set (finished (pool (s k)))" if "tracked n (s 0) m" for m
  proof -
    have "tracked n (s j) m" for j
    proof (induction j)
      case (Suc j)
      have "machine_inv n (s j)" using machine.inv_run [OF steps inv0] .
      from assms(7) show ?case
        by (cases rule: runs_step [where k = j])
          (use Suc tracked_step [OF \<open>machine_inv n (s j)\<close>] tracked_others in blast)+
    qed (rule that)
    from this [of k] show ?thesis unfolding tracked_def quiescent_counted [OF goal inv] by simp
  qed
  have "m \<in> set (finished (pool (s k)))" if "i < n" "m \<in># counted (threads (s 0) ! i)" for i m
  proof -
    have "i < length (take n (threads (s 0)))" using that(1) inv0 by (simp add: machine_inv_def)
    from sum_list_member_le [OF this, of counted] that have "m \<in># sum_list (map counted (take n (threads (s 0))))"
      by (auto dest: mset_subset_eqD)
    then show ?thesis by (intro fin) (simp add: tracked_def)
  qed
  moreover have "m \<in> set (finished (pool (s k))) \<and>
      (\<forall>r c. t = Posted (Done r) c \<longrightarrow> shared_future_get c (states (pool (s k))) = Some r)"
    if "i < n" "(t, m) \<in> set (queues (pool (s 0)) ! i)" for i t m
  proof -
    have i: "i < length (queues (pool (s 0)))" using that(1) inv0 by (simp add: machine_inv_def)
    have "m \<in># queued (pool (s 0))"
      using that(2) nth_mem [OF i] by (force simp: queued_def)
    then have f: "m \<in> set (finished (pool (s k)))" by (intro fin) (simp add: tracked_def)
    have "is_post (pool (s 0)) m t"
      using queues_ok_nth [OF _ i that(2)] inv0 by (simp add: machine_inv_def)
    with run_extends [OF reach inv0] have "posted (pool (s k)) ! m = t"
      using extends_mono(3) by (auto simp: is_post_def)
    with finished_completed [OF assms(1) rtranclp_trans [OF assms(2) reach] f] f
    show ?thesis by auto
  qed
  moreover have "unfinished (pool (s k)) = 0"
    if idle: "\<forall>i. n \<le> i \<and> i < length (threads (s k)) \<longrightarrow> counted (threads (s k) ! i) = {#}"
  proof -
    have "counted t = {#}" if "t \<in> set (drop n (threads (s k)))" for t
    proof -
      from that obtain i where "i < length (threads (s k)) - n" "t = threads (s k) ! (n + i)"
        using len by (metis in_set_conv_nth length_drop nth_drop)
      with idle show ?thesis by simp
    qed
    then have "sum_list (map counted (drop n (threads (s k)))) = {#}" by (rule sum_list_empties)
    then have "total counted (s k) = {#}"
      using quiescent_counted(1) [OF goal inv] append_take_drop_id [of n "threads (s k)"]
      unfolding total_def by (metis add.right_neutral map_append sum_list_append)
    with quiescent_counted(2) [OF goal inv] inv show ?thesis by (simp add: machine_inv_def)
  qed
  ultimately show ?thesis
    using goal unfolding quiescent_def by (intro exI [of _ k]) (auto split: prod.splits)
qed

text \<open>Two workers. The second one is about to sleep while the application posts into its queue, and
  misses the notification; the first one is awake and finds the package.\<close>

definition sleeper_owns_task :: "nat machine" where
  "sleeper_owns_task = new_machine 2 [Post (Done (Inr 7)) (\<lambda>f. Wait (Get f Done))]"

theorem workers_finish_everything_witness:
  "\<exists>w' l s k. run_schedule (turns 5 1 @ turns 7 2 @ turns 1 1) sleeper_owns_task = Some w' \<and> resting 1 w' \<and>
     s 0 = w' \<and> runs (worker_step 2) (others 2) l s \<and> fair (worker_step 2) l s \<and>
     queues (pool (s k)) ! 1 = [] \<and> 0 \<in> set (finished (pool (s k))) \<and>
     shared_future_get 0 (states (pool (s k))) = Some (Inr 7)"
proof -
  have "\<exists>w'. run_schedule (turns 5 1 @ turns 7 2 @ turns 1 1) sleeper_owns_task = Some w' \<and>
      queues (pool w') ! 1 = [(Posted (Done (Inr 7)) 0, 0)] \<and> resting 1 w' \<and> \<not> resting 0 w' \<and>
      computes 2 w' \<and> length (posted (pool w')) + work_left 2 w' < 100"
    by (simp add: sleeper_owns_task_def small_machines resting_def computes_def spins_def simple_pool_def
        less_Suc_eq all_conj_distrib lessThan_Suc work_left_def pool_cost_def thread_cost_def state_cost_def)
  then obtain w' where w': "run_schedule (turns 5 1 @ turns 7 2 @ turns 1 1) sleeper_owns_task = Some w'"
    "queues (pool w') ! 1 = [(Posted (Done (Inr 7)) 0, 0)]" "resting 1 w'" "\<not> resting 0 w'"
    "computes 2 w'" "length (posted (pool w')) + work_left 2 w' < 100" by blast
  obtain l s where s: "s 0 = w'" "runs (worker_step 2) (others 2) l s" "fair (worker_step 2) l s"
    using fair_run_exists [of 2 w'] by auto
  have init: "machine_init 2 sleeper_owns_task" by (simp add: sleeper_owns_task_def)
  have "machine_step\<^sup>*\<^sup>* sleeper_owns_task (s 0)" "awake 2 (s 0)" "computes 2 (s 0)"
    "length (posted (pool (s 0))) + work_left 2 (s 0) < 2 ^ 64"
    using run_schedule_reaches [OF w'(1)] w'(4-6) s(1) by (auto simp: awake_def intro!: exI [of _ 0])
  note start = this
  have "(2 :: nat) < 2 ^ 64" by simp
  from workers_finish_everything [OF init start(1) this start(3,2,4) s(2,3)] obtain k where
    k: "\<forall>i<2. queues (pool (s k)) ! i = [] \<and> spins (threads (s k) ! i)"
    "\<forall>i<2. (\<forall>m\<in>#counted (threads (s 0) ! i). m \<in> set (finished (pool (s k)))) \<and>
      (\<forall>(t, m)\<in>set (queues (pool (s 0)) ! i). m \<in> set (finished (pool (s k))) \<and>
        (\<forall>r c. t = Posted (Done r) c \<longrightarrow> shared_future_get c (states (pool (s k))) = Some r))" by blast
  from k(2) [rule_format, of 1] w'(2) s(1)
  have "0 \<in> set (finished (pool (s k)))" "shared_future_get 0 (states (pool (s k))) = Some (Inr 7)" by auto
  with w'(1,3) s k(1) show ?thesis
    by (intro exI [of _ w'] exI [of _ l] exI [of _ s] exI [of _ k]) simp
qed

end
