(* ===== verification/PoolSpec.thy ===== *)
theory PoolSpec
  imports PoolContract
begin

text \<open>
  What the pool is for its clients: a bag of tasks, executed by a limited number of workers, each at
  most once and in no promised order. The machine refines it. Every step of a thread is a step of
  the bag or invisible to it.
\<close>

section \<open>The specification\<close>

text \<open>The posts by their numbers: how many were submitted, which wait for a worker, which a worker is
  executing, which are completed.\<close>

record bag =
  submitted :: nat
  waiting :: "nat multiset"
  running :: "nat multiset"
  completed_posts :: "nat multiset"

definition empty_bag :: bag where
  "empty_bag = \<lparr>submitted = 0, waiting = {#}, running = {#}, completed_posts = {#}\<rparr>"

inductive bag_step :: "nat \<Rightarrow> bag \<Rightarrow> bag \<Rightarrow> bool" where
  submit: "bag_step n b (b\<lparr>submitted := submitted b + 1, waiting := add_mset (submitted b) (waiting b)\<rparr>)"
| start: "m \<in># waiting b \<Longrightarrow> size (running b) < n \<Longrightarrow>
    bag_step n b (b\<lparr>waiting := waiting b - {#m#}, running := add_mset m (running b)\<rparr>)"
| complete_post: "m \<in># running b \<Longrightarrow>
    bag_step n b (b\<lparr>running := running b - {#m#}, completed_posts := add_mset m (completed_posts b)\<rparr>)"

section \<open>The bag of a machine\<close>

fun pushing :: "'v thread \<Rightarrow> nat multiset" where
  "pushing (Push v t m, K) = {#m#}"
| "pushing _ = {#}"

definition abs_bag :: "'v machine \<Rightarrow> bag" where
  "abs_bag w = \<lparr>submitted = length (posted (pool w)),
     waiting = total uncounted w + total pushing w + queued (pool w),
     running = total on_worker w, completed_posts = mset (finished (pool w))\<rparr>"

lemma counted_split: "counted t = on_worker t + pushing t"
  by (cases t; cases "fst t") simp_all

text \<open>A worker executes one post at a time, and no other thread does.\<close>

lemma stack_posts: "stack_ok w p K \<Longrightarrow> size (sum_list (map frame_posts K)) \<le> (if w then 1 else 0)"
proof (induction w p K rule: stack_ok.induct)
  case (5 w p K)
  then obtain m where "K = [Worker m]" by (auto simp: detached_on_def)
  with 5 show ?case by simp
qed simp_all

lemma one_post: "thread_ok i p t \<Longrightarrow> size (on_worker t) \<le> (if i < length (queues p) then 1 else 0)"
proof -
  assume "thread_ok i p t"
  moreover obtain c K where t: "t = (c, K)" by fastforce
  ultimately have "stack_ok (i < length (queues p)) p K" and c: "control_ok i p K c" by auto
  from stack_posts [OF this(1)] have "size (sum_list (map frame_posts K)) \<le> (if i < length (queues p) then 1 else 0)" .
  with c t show ?thesis by (cases c) auto
qed

lemma size_sum_list: "size (sum_list (map f xs)) = (\<Sum>x\<leftarrow>xs. size (f x))"
  for f :: "'a \<Rightarrow> 'b multiset"
  by (induction xs) simp_all

lemma running_bound:
  assumes "machine_inv n w"
  shows "size (total on_worker w) \<le> n"
proof -
  let ?ts = "threads w"
  have "size (total on_worker w) = (\<Sum>i<length ?ts. size (on_worker (?ts ! i)))"
    by (simp add: total_def size_sum_list sum_list_sum_nth atLeast0LessThan)
  also have "\<dots> \<le> (\<Sum>i<length ?ts. if i < n then 1 else 0)"
  proof (intro sum_mono)
    fix i assume "i \<in> {..<length ?ts}"
    with assms one_post [of i "pool w" "?ts ! i"]
    show "size (on_worker (?ts ! i)) \<le> (if i < n then 1 else 0)" by (simp add: machine_inv_def)
  qed
  also have "\<dots> = card ({..<length ?ts} \<inter> {i. i < n})" by (simp add: sum.If_cases)
  also have "\<dots> \<le> card {..<n}" by (intro card_mono) auto
  finally show ?thesis by simp
qed

text \<open>Moving what one thread has between the total and the queues.\<close>

lemma total_move:
  fixes W :: "'b multiset"
  assumes "W' + a = W + a'" "a' + q' + M = a + q"
  shows "W' + q' + M = W + q"
proof (rule multiset_eqI)
  fix x
  from arg_cong [OF assms(1), of "\<lambda>N. count N x"] arg_cong [OF assms(2), of "\<lambda>N. count N x"]
  show "count (W' + q' + M) x = count (W + q) x" by simp
qed

lemma refined_run:
  assumes inv: "machine_inv n w" and step: "run_thread j i w = Some w'"
  shows "abs_bag w' = abs_bag w \<or> bag_step n (abs_bag w) (abs_bag w')"
  using assms
proof (cases rule: run_facts)
  case (1 p' t')
  let ?t = "threads w ! i" and ?p = "pool w"
  have p: "pool w' = p'" using 1(2) by simp
  note tot = total_step [OF 1(1,2)]
  have inv': "machine_inv n w'" using inv step by (rule machine_inv_run)
  have W: "total pushing w' + pushing ?t = total pushing w + pushing t'"
    and U: "total uncounted w' + uncounted ?t = total uncounted w + uncounted t'"
    and R: "total on_worker w' + on_worker ?t = total on_worker w + on_worker t'" by (rule tot)+
  note [simp] = abs_bag_def p
  from 1(5) show ?thesis
  proof cases
    case moved
    then have "pushing t' + queued p' + {#} = pushing ?t + queued ?p" by (simp add: counted_split)
    from total_move [OF W this] U R moved show ?thesis by (simp add: add.assoc)
  next
    case (now_started m)
    then have "pushing t' + queued p' + {#m#} = pushing ?t + queued ?p" by (simp add: counted_split)
    from total_move [OF W this] U now_started(2)
    have wait: "total uncounted w + total pushing w + queued ?p =
        add_mset m (total uncounted w' + total pushing w' + queued p')" by (simp add: add.assoc)
    have run: "total on_worker w' = add_mset m (total on_worker w)" using R now_started(3) by simp
    with running_bound [OF inv'] have "size (total on_worker w) < n" by simp
    then show ?thesis
      using bag_step.start [of m "abs_bag w" n] wait run now_started(4,5) by simp
  next
    case (numbered x)
    then have "pushing t' = pushing ?t" by (simp add: counted_split)
    with numbered U W R have "abs_bag w' = (abs_bag w)\<lparr>submitted := submitted (abs_bag w) + 1,
        waiting := add_mset (submitted (abs_bag w)) (waiting (abs_bag w))\<rparr>" by simp
    then show ?thesis by (metis bag_step.submit)
  next
    case (now_counted m)
    then have "pushing t' = add_mset m (pushing ?t)" by (simp add: counted_split)
    with now_counted U W R show ?thesis by simp
  next
    case (now_finished m)
    then have "pushing t' = pushing ?t" by (simp add: counted_split)
    have "total on_worker w = add_mset m (total on_worker w')"
      using R now_finished(3) by (simp add: eq_commute [of "total on_worker w"])
    with \<open>pushing t' = pushing ?t\<close> now_finished(2,4-7) U W
    have "abs_bag w' = (abs_bag w)\<lparr>running := running (abs_bag w) - {#m#},
        completed_posts := add_mset m (completed_posts (abs_bag w))\<rparr>" "m \<in># running (abs_bag w)" by simp_all
    then show ?thesis by (metis bag_step.complete_post)
  qed
qed

interpretation bag: refinement "machine_init n" machine_step "machine_inv n" abs_bag empty_bag "bag_step n"
proof
  show "abs_bag w = empty_bag" if "machine_init n w" for w :: "'a machine"
    using that by (auto simp: machine_init_def new_machine_def new_pool_def abs_bag_def empty_bag_def
        total_def queued_def o_def)
  show "abs_bag w' = abs_bag w \<or> bag_step n (abs_bag w) (abs_bag w')"
    if "machine_inv n w" "machine_step w w'" for w w' :: "'a machine"
    using that(2,1)
  proof cases
    case (spurious_wake_up i)
    then show ?thesis by (simp add: abs_bag_def wake_up_def total_def queued_def)
  qed (rule refined_run)
qed

section \<open>Property\<close>

text \<open>C7. The thread pool implements a bag of tasks. Seen from outside, a post waits, is taken by
  one of the \<open>n\<close> workers, of which each executes at most one post at a time, and is completed; it never
  goes back. Every run of the machine, with its queues, round-robin counters, steals, locks and
  wake-ups, is a run of that specification, and each single step of a thread is one step of it or
  none.\<close>

theorem pool_refines_bag:
  assumes "machine_init n w" and "machine_step\<^sup>*\<^sup>* w w'" and "machine_step w' w''"
  shows "(bag_step n)\<^sup>*\<^sup>* empty_bag (abs_bag w') \<and>
    (abs_bag w'' = abs_bag w' \<or> bag_step n (abs_bag w') (abs_bag w''))"
  using bag.abs_reachable [OF assms(1,2)] bag.abs_step [OF reachable_inv [OF assms(1,2)] assms(3)] ..

text \<open>The worker takes the posted task: two turns of it from the post on.\<close>

theorem pool_refines_bag_witness:
  "\<exists>w' w''. run_schedule (turns 7 1 @ turns 1 0) one_task = Some w' \<and> run_thread 0 0 w' = Some w'' \<and>
     (bag_step 1)\<^sup>*\<^sup>* empty_bag (abs_bag w') \<and> bag_step 1 (abs_bag w') (abs_bag w'') \<and> running (abs_bag w'') = {#0#}"
proof -
  have "\<exists>w' w''. run_schedule (turns 7 1 @ turns 1 0) one_task = Some w' \<and> run_thread 0 0 w' = Some w'' \<and>
      running (abs_bag w') = {#} \<and> running (abs_bag w'') = {#0#}"
    by (simp add: small_machines abs_bag_def total_def)
  then obtain w' w'' where w': "run_schedule (turns 7 1 @ turns 1 0) one_task = Some w'"
    "run_thread 0 0 w' = Some w''" "running (abs_bag w') = {#}" "running (abs_bag w'') = {#0#}" by blast
  have "machine_init 1 one_task" by (simp add: one_task_def)
  from pool_refines_bag [OF this run_schedule_reaches [OF w'(1)] thread_runs [OF w'(2)]] w'
  show ?thesis by force
qed

end
