(* ===== verification/PoolRuns.thy ===== *)
theory PoolRuns
  imports PoolProgress
begin

text \<open>
  What goes wrong in the thread pool: a wake-up that is lost because \<open>post_detach\<close> notifies without
  holding \<open>mtx_th_\<close>, tasks that \<open>shutdown\<close> leaves in their queues, and a worker that waits for its own
  pool. The first two hold in every reachable state of their kind and of every later state.
\<close>

definition stuck :: "'v machine \<Rightarrow> bool" where
  "stuck w \<longleftrightarrow> (\<forall>i j. run_thread j i w = None)"

lemma stuck_step: "stuck w \<Longrightarrow> machine_step w w' \<Longrightarrow> \<exists>i. w' = wake_up i w"
  by (erule machine_step.cases) (auto simp: stuck_def)

text \<open>A stuck machine in which no thread sleeps on a condition variable stays as it is for good.\<close>

lemma stuck_forever:
  assumes "machine_step\<^sup>*\<^sup>* w w'" "stuck w" "th_waiters (pool w) = []" "wait_waiters (pool w) = []"
  shows "w' = w"
  using assms
proof (induction rule: rtranclp_induct)
  case (step v v')
  then have "v = w" by simp
  with step stuck_step obtain i where "v' = wake_up i w" by blast
  with step.prems show ?case by (simp add: wake_up_def)
qed simp

lemma stuck_reaches:
  "stuck w \<Longrightarrow> th_waiters (pool w) = [] \<Longrightarrow> wait_waiters (pool w) = [] \<Longrightarrow>
   Collect (machine_step\<^sup>*\<^sup>* w) = {w}"
  by (auto dest: stuck_forever)

lemma stuckI:
  assumes "length (threads w) = 2" "\<And>j. run_thread j 0 w = None" "\<And>j. run_thread j 1 w = None"
  shows "stuck w"
proof -
  have "run_thread j i w = None" for i j
    using assms by (cases "i < 2") (auto simp: less_2_cases_iff run_thread_def)
  then show ?thesis by (simp add: stuck_def)
qed

text \<open>The application detaches a task and waits for the pool; it waits for a task that waits for
  another; it shuts the pool down and waits for a task.\<close>

definition detach_and_wait :: "nat machine" where
  "detach_and_wait = new_machine 1 [Post_detach (Done (Inr 0)) (Wait (Done (Inr 0)))]"

definition nested_get :: "nat machine" where
  "nested_get = new_machine 1 [Post (Post (Done (Inr 1)) (\<lambda>f. Get f Done)) (\<lambda>f. Get f Done)]"

definition post_and_shutdown :: "nat machine" where
  "post_and_shutdown = new_machine 1 [Post (Done (Inr 7)) (\<lambda>f. Shutdown (\<lambda>_. Get f Done))]"

lemmas runs_defs = detach_and_wait_def nested_get_def post_and_shutdown_def turns_def machine_defs
  eval_nat_numeral

text \<open>A pool constructed without workers divides by zero at its first post.\<close>

lemma post_without_workers:
  "map_option (fault \<circ> pool) (run_schedule (turns 2 0) (new_machine 0 [Post_detach e k])) =
     Some (Some Division_by_zero)"
  by (simp add: turns_def machine_defs eval_nat_numeral)

section \<open>What a step does to the queues and to the sleeping workers\<close>

text \<open>A queue gets a task where one is pushed, and loses its first or its last one to the worker that
  looks into it.\<close>

definition queues_after :: "nat \<Rightarrow> 'v control \<Rightarrow> 'v pool \<Rightarrow> ('v task \<times> nat) list list" where
  "queues_after i c p = (case c of
       Push v t m \<Rightarrow> (queues p)[v := (t, m) # queues p ! v]
     | Own \<Rightarrow> (queues p)[i := tl (queues p ! i)]
     | Steal_from v \<Rightarrow> (queues p)[v := butlast (queues p ! v)]
     | _ \<Rightarrow> queues p)"

text \<open>A worker that may still take a task before it comes back to the head of its loop.\<close>

fun looking :: "'v control \<Rightarrow> bool" where
  "looking Own = True"
| "looking Steal = True"
| "looking (Steal_from v) = True"
| "looking c = False"

lemma resume_looks [simp]: "\<not> looking (fst (resume c K))"
  by (cases c) simp_all

lemma block_looks [simp]: "\<not> looking (block_on f k r)"
  by (simp add: block_on_def split: option.split)

text \<open>A worker comes to look for a task only from a step that takes none, and not from the head of the
  loop once the pool is shut down.\<close>

definition step_effect :: "nat \<Rightarrow> 'v control \<Rightarrow> 'v pool \<Rightarrow> 'v pool \<times> 'v thread \<Rightarrow> bool" where
  "step_effect i c p r \<longleftrightarrow> (let p' = fst r; c' = fst (snd r) in
     queues p' = queues_after i c p \<and> (shutdown p \<longrightarrow> shutdown p') \<and>
     (looking c' \<longrightarrow> c = Loop \<and> \<not> shutdown p \<or> c = Own \<and> queues p ! i = [] \<or> c = Steal) \<and>
     (c \<notin> {Doze, Notify, Stop_notify} \<longrightarrow> th_waiters p' = th_waiters p) \<and>
     set (th_waiters p') \<subseteq> (if c = Doze then {i} else {}) \<union> set (th_waiters p) \<and>
     (c = Doze \<longrightarrow> c' = Asleep) \<and> (c = Asleep \<longrightarrow> i \<notin> set (th_waiters p)))"

lemma empty_update: "xs ! i = [] \<Longrightarrow> xs[i := []] = xs"
  by (metis list_update_id)

lemma step_effects:
  assumes "thread_step j i (c, K) p = Some r"
  shows "step_effect i c p r"
proof (cases c)
  case (Eval e)
  with assms have e: "eval_step e K p = Some r" by simp
  show ?thesis
  proof (cases "(e, K, p)" rule: eval_step.cases)
    case (1 v K' p0)
    with e have "return_value v K p = Some r" by simp
    with Eval show ?thesis
      by (cases "(v, K, p)" rule: return_value.cases)
        (auto simp: step_effect_def queues_after_def with_state_def split: prod.splits outcome.splits)
  qed (use Eval e in \<open>auto simp: step_effect_def queues_after_def new_future_def
      split: prod.splits sum.splits if_splits option.splits\<close>)
next
  case (Invoke t)
  with assms show ?thesis
    by (cases t) (auto simp: step_effect_def queues_after_def split: option.splits sum.splits)
next
  case (Raise e)
  with assms show ?thesis
    by (cases "(e, K, p)" rule: raise_step.cases)
      (auto simp: Let_def with_state_def step_effect_def queues_after_def
        split: frame.splits prod.splits outcome.splits)
next
  case Back
  with assms show ?thesis
    by (cases "(K, p)" rule: back_step.cases) (auto simp: step_effect_def queues_after_def)
qed (use assms in \<open>auto simp: lift_def choose_victim_def notify_one_def Let_def step_effect_def
    queues_after_def empty_update split: if_splits option.splits list.splits prod.splits\<close>)

lemma run_effects:
  assumes inv: "machine_inv n w" and run: "run_thread j i w = Some w'"
  obtains c K p' t' where "i < length (threads w)" "threads w ! i = (c, K)" "thread_ok i (pool w) (c, K)"
    "w' = w\<lparr>pool := p', threads := (threads w)[i := t']\<rparr>" "step_effect i c (pool w) (p', t')"
proof -
  obtain p' t' where i: "i < length (threads w)" and w': "w' = w\<lparr>pool := p', threads := (threads w)[i := t']\<rparr>"
    and step: "thread_step j i (threads w ! i) (pool w) = Some (p', t')"
    using run_facts [OF assms] by metis
  obtain c K where t: "threads w ! i = (c, K)" by fastforce
  from inv i have "thread_ok i (pool w) (threads w ! i)" by (simp add: machine_inv_def)
  with that [OF i t _ w'] step_effects step show thesis unfolding t by metis
qed

section \<open>Lost wake-ups\<close>

text \<open>The condition variable of the workers lists only workers that are asleep.\<close>

definition sleepers_ok :: "nat \<Rightarrow> 'v machine \<Rightarrow> bool" where
  "sleepers_ok n w \<longleftrightarrow> machine_inv n w \<and>
     (\<forall>k\<in>set (th_waiters (pool w)). k < n \<and> fst (threads w ! k) = Asleep)"

interpretation sleepers: invariant_system "machine_init n" machine_step "sleepers_ok n"
proof
  show "sleepers_ok n w" if "machine_init n w" for w :: "'a machine"
    using that machine_inv_init [OF that]
    by (auto simp: sleepers_ok_def machine_init_def new_machine_def new_pool_def)
  show "sleepers_ok n w'" if "sleepers_ok n w" "machine_step w w'" for w w' :: "'a machine"
    using that(2)
  proof cases
    case (thread_runs j i)
    from that(1) have inv: "machine_inv n w" by (simp add: sleepers_ok_def)
    from inv thread_runs obtain c K p' t' where i: "i < length (threads w)" and t: "threads w ! i = (c, K)"
      and ok: "thread_ok i (pool w) (c, K)" and w': "w' = w\<lparr>pool := p', threads := (threads w)[i := t']\<rparr>"
      and eff: "step_effect i c (pool w) (p', t')" by (rule run_effects)
    have "k < n \<and> fst (threads w' ! k) = Asleep" if k: "k \<in> set (th_waiters p')" for k
    proof (cases "k = i \<and> c = Doze")
      case True
      with ok inv eff i show ?thesis by (simp add: machine_inv_def step_effect_def Let_def w')
    next
      case False
      with k eff have "k \<in> set (th_waiters (pool w))" by (auto simp: step_effect_def Let_def split: if_splits)
      with \<open>sleepers_ok n w\<close> have "k < n" "fst (threads w ! k) = Asleep" by (auto simp: sleepers_ok_def)
      moreover from this(2) eff t \<open>k \<in> set (th_waiters (pool w))\<close> have "k \<noteq> i"
        by (auto simp: step_effect_def Let_def)
      ultimately show ?thesis by (simp add: w')
    qed
    with machine_inv_run [OF inv thread_runs] show ?thesis by (simp add: sleepers_ok_def w')
  next
    case (spurious_wake_up i)
    with that(1) machine_inv_wake [of n w i] show ?thesis by (auto simp: sleepers_ok_def wake_up_def)
  qed
qed

text \<open>The only worker sleeps and its queue holds a task. Nothing but a wake-up changes this.\<close>

definition lost :: "'v task \<times> nat \<Rightarrow> 'v machine \<Rightarrow> bool" where
  "lost x w \<longleftrightarrow> machine_inv 1 w \<and> fst (threads w ! 0) = Asleep \<and> 0 \<in> set (th_waiters (pool w)) \<and>
     x \<in> set (queues (pool w) ! 0)"

text \<open>A step of a thread other than one that notifies the workers.\<close>

definition unnotified :: "'v machine \<Rightarrow> 'v machine \<Rightarrow> bool" where
  "unnotified w w' \<longleftrightarrow> (\<exists>j i. run_thread j i w = Some w' \<and> fst (threads w ! i) \<notin> {Notify, Stop_notify})"

lemma lost_worker: "lost x w \<Longrightarrow> run_thread j 0 w = None"
  by (cases "threads w ! 0") (auto simp: lost_def run_thread_def)

lemma lost_step:
  assumes "lost x w" "unnotified w w'"
  shows "lost x w'"
proof -
  from assms(2) obtain j i where run: "run_thread j i w = Some w'"
    and notif: "fst (threads w ! i) \<notin> {Notify, Stop_notify}" by (auto simp: unnotified_def)
  from assms(1) have inv: "machine_inv 1 w" by (simp add: lost_def)
  from inv run obtain c K p' t' where i: "i < length (threads w)" and t: "threads w ! i = (c, K)"
    and ok: "thread_ok i (pool w) (c, K)" and w': "w' = w\<lparr>pool := p', threads := (threads w)[i := t']\<rparr>"
    and eff: "step_effect i c (pool w) (p', t')" by (rule run_effects)
  from run lost_worker [OF assms(1)] have "i \<noteq> 0" by (cases i) auto
  moreover have len: "length (queues (pool w)) = 1" using inv by (simp add: machine_inv_def)
  ultimately have app: "c \<noteq> Own" "c \<noteq> Doze" "\<And>v. c \<noteq> Steal_from v" using ok by auto
  then have "set (queues (pool w) ! 0) \<subseteq> set (queues p' ! 0)" "th_waiters p' = th_waiters (pool w)"
    using eff notif t len by (auto simp: step_effect_def Let_def queues_after_def nth_update split: control.splits)
  with assms(1) \<open>i \<noteq> 0\<close> machine_inv_run [OF inv run] show ?thesis by (auto simp: lost_def w')
qed

lemma lost_run: "unnotified\<^sup>*\<^sup>* w w' \<Longrightarrow> lost x w \<Longrightarrow> lost x w'"
  by (induction rule: rtranclp_induct) (auto intro: lost_step)

text \<open>A thread in \<open>wait\<close> goes back to sleep.\<close>

lemma lost_waits:
  assumes "lost x w" "length (posted (pool w)) < 2 ^ 64" "threads w ! i = (Await, K)"
    and "run_thread j i w = Some w'"
  shows "threads w' ! i = (Await_doze, K)"
proof -
  have "0 < unfinished (pool w)"
    using assms(1,2) by (intro queue_nonempty_unfinished [of 1 w 0]) (auto simp: lost_def)
  with assms(3,4) show ?thesis by (auto simp: run_thread_def lift_def split: if_splits)
qed

text \<open>The post that is overtaken by the worker that goes to sleep.\<close>

lemma overtaken_post:
  assumes inv: "sleepers_ok 1 w" and doze: "fst (threads w ! 0) = Doze"
    and k: "k < length (threads w)" "threads w ! k = (Choose t, K)"
    and up: "\<not> terminated (pool w)" "fault (pool w) = None"
  shows "\<exists>w'. run_schedule (turns 4 k @ turns 1 0) w = Some w' \<and> threads w' ! k = (Back, K) \<and>
    fst (threads w' ! 0) = Asleep \<and> 0 \<in> set (th_waiters (pool w')) \<and>
    (t, length (posted (pool w))) \<in> set (queues (pool w') ! 0)"
proof -
  from inv have m: "machine_inv 1 w" by (simp add: sleepers_ok_def)
  then obtain q where q: "queues (pool w) = [q]"
    unfolding machine_inv_def by (metis One_nat_def length_0_conv length_Suc_conv)
  have "th_waiters (pool w) = []"
    using inv doze by (cases "th_waiters (pool w)") (auto simp: sleepers_ok_def)
  moreover have len: "0 < length (threads w)" using m by (auto simp: machine_inv_def)
  with m have "thread_ok 0 (pool w) (threads w ! 0)" unfolding machine_inv_def by blast
  then have "threads w ! 0 = (Doze, [])" using doze q by (cases "threads w ! 0") auto
  moreover have "k \<noteq> 0" using doze k(2) by (cases k) auto
  ultimately show ?thesis
    using k up q len by (simp add: turns_def run_thread_def lift_def choose_victim_def notify_one_def eval_nat_numeral)
qed


section \<open>After a shutdown\<close>

definition lookers :: "nat \<Rightarrow> 'v machine \<Rightarrow> nat set" where
  "lookers n w = {i. i < n \<and> looking (fst (threads w ! i))}"

lemma finite_lookers [simp]: "finite (lookers n w)"
  by (simp add: lookers_def)

text \<open>A worker that takes a task stops looking; nobody starts looking.\<close>

lemma taken_step:
  assumes inv: "machine_inv n w" and run: "run_thread j i w = Some w'" and down: "shutdown (pool w)"
  shows "size (queued (pool w) - queued (pool w')) + card (lookers n w') \<le> card (lookers n w)"
proof -
  from inv run obtain c K p' t' where i: "i < length (threads w)" and t: "threads w ! i = (c, K)"
    and ok: "thread_ok i (pool w) (c, K)" and w': "w' = w\<lparr>pool := p', threads := (threads w)[i := t']\<rparr>"
    and eff: "step_effect i c (pool w) (p', t')" by (rule run_effects)
  let ?p = "pool w"
  have len: "length (queues ?p) = n" using inv by (simp add: machine_inv_def)
  have look: "looking (fst t') \<Longrightarrow> c = Own \<and> queues ?p ! i = [] \<or> c = Steal"
    and q: "queues p' = queues_after i c ?p" using eff down by (auto simp: step_effect_def Let_def)
  have worker: "looking c \<Longrightarrow> i < n" using ok len by (cases c) auto
  have "n \<le> length (threads w)" using inv by (simp add: machine_inv_def)
  then have sub: "lookers n w' \<subseteq> lookers n w"
    using look t by (auto simp: lookers_def w' nth_update split: if_splits)
  have queued': "queued p' = queued (?p\<lparr>queues := queues_after i c ?p\<rparr>)" using q by (simp add: queued_def)
  consider (takes) v q' x where "v < n" "queues_after i c ?p = (queues ?p)[v := q']" "looking c"
      "mset (map snd (queues ?p ! v)) = add_mset x (mset (map snd q'))" "\<not> looking (fst t')"
    | (keeps) "queued ?p \<subseteq># queued p'"
  proof (cases c)
    case Own
    show thesis
    proof (cases "queues ?p ! i")
      case Nil
      then have "queues p' = queues ?p" by (simp add: q Own queues_after_def empty_update)
      with keeps show thesis by (simp add: queued_def)
    next
      case (Cons x xs)
      with Own worker look takes [of i xs "snd x"] show thesis by (auto simp: queues_after_def)
    qed
  next
    case (Steal_from v)
    show thesis
    proof (cases "queues ?p ! v = []")
      case True
      then have "queues p' = queues ?p" by (simp add: q Steal_from queues_after_def empty_update)
      with keeps show thesis by (simp add: queued_def)
    next
      case False
      then obtain xs x where "queues ?p ! v = xs @ [x]" by (cases "queues ?p ! v" rule: rev_cases) auto
      then have "mset (map snd (queues ?p ! v)) = add_mset (snd x) (mset (map snd (butlast (queues ?p ! v))))"
        by simp
      moreover have "v < n" "\<not> looking (fst t')" using Steal_from ok len look by auto
      ultimately show thesis using Steal_from takes by (simp add: queues_after_def)
    qed
  next
    case (Push v t m)
    with ok len have "v < length (queues ?p)" by simp
    from queued_update [OF this refl, of "(t, m) # queues ?p ! v"] Push
    have "queued p' = add_mset m (queued ?p)" by (simp add: queued' queues_after_def)
    with keeps show thesis by simp
  qed (use keeps in \<open>simp_all add: queued' queues_after_def\<close>)
  then show ?thesis
  proof cases
    case (takes v q' x)
    have "queued p' + mset (map snd (queues ?p ! v)) = queued ?p + mset (map snd q')"
      using queued_update [of v ?p _ q'] takes(1,2) len by (simp add: queued')
    then have "queued ?p = add_mset x (queued p')" using takes(4) by simp
    moreover have "i \<in> lookers n w" "i \<notin> lookers n w'"
      using takes(3,5) worker t i by (simp_all add: lookers_def w')
    with sub have "card (lookers n w') < card (lookers n w)" by (auto intro: psubset_card_mono)
    ultimately show ?thesis by (simp add: w')
  next
    case keeps
    then have "queued ?p - queued p' = {#}" by (simp add: Diff_eq_empty_iff_mset)
    with card_mono [OF _ sub] show ?thesis by (simp add: w')
  qed
qed

lemma size_diff_trans: "size (A - C) \<le> size (A - B) + size (B - C)" for A B C :: "'a multiset"
proof -
  have "A - C \<subseteq># (A - B) + (B - C)" by (auto simp: subseteq_mset_def)
  from size_mset_mono [OF this] show ?thesis by simp
qed

lemma taken_run:
  assumes "machine_step\<^sup>*\<^sup>* w w'" "machine_inv n w" "shutdown (pool w)"
  shows "size (queued (pool w) - queued (pool w')) \<le> card (lookers n w)"
proof -
  have "machine_inv n w' \<and> shutdown (pool w') \<and>
      size (queued (pool w) - queued (pool w')) + card (lookers n w') \<le> card (lookers n w)"
    using assms
  proof (induction rule: rtranclp_induct)
    case (step v v')
    then have inv: "machine_inv n v" and down: "shutdown (pool v)"
      and le: "size (queued (pool w) - queued (pool v)) + card (lookers n v) \<le> card (lookers n w)" by auto
    from step(2) show ?case
    proof cases
      case (thread_runs j i)
      obtain i' c p' t' where "pool v' = p'" "step_effect i' c (pool v) (p', t')"
        by (rule run_effects [OF inv thread_runs]) simp
      then have "shutdown (pool v')" using down by (simp add: step_effect_def Let_def)
      moreover have "size (queued (pool w) - queued (pool v')) + card (lookers n v') \<le> card (lookers n w)"
        using taken_step [OF inv thread_runs down] le
          size_diff_trans [of "queued (pool w)" "queued (pool v')" "queued (pool v)"] by linarith
      ultimately show ?thesis using machine_inv_run [OF inv thread_runs] by blast
    next
      case (spurious_wake_up i)
      with machine_inv_wake [OF inv] down le show ?thesis by (simp add: wake_up_def queued_def lookers_def)
    qed
  qed simp
  then show ?thesis by simp
qed

lemma mset_upt_disjoint: "A + B \<subseteq># mset [0..<k] \<Longrightarrow> x \<in># A \<Longrightarrow> x \<notin># B"
proof
  assume "A + B \<subseteq># mset [0..<k]" "x \<in># A" "x \<in># B"
  then have "2 \<le> count (mset [0..<k]) x"
    using mset_subset_eq_count [of "A + B" "mset [0..<k]" x] by (simp add: Suc_le_eq flip: count_greater_zero_iff)
  then show False by (simp add: count_mset_set' split: if_splits)
qed

text \<open>A queued task is not finished, and nobody has completed its state.\<close>

lemma queued_open:
  assumes inv: "machine_inv n w" and q: "q \<in> set (queues (pool w))" "(t, m) \<in> set q"
  shows "m \<notin> set (finished (pool w)) \<and> (\<forall>c. c \<in># task_claims t \<longrightarrow> shared_future_get c (states (pool w)) = None)"
proof -
  let ?p = "pool w"
  have le: "f x \<subseteq># sum_list (map f xs)" if "x \<in> set xs" for f :: "'b \<Rightarrow> nat multiset" and x xs
    using that sum_list_member_le [of _ xs f] by (metis in_set_conv_nth)
  from q(2) have "m \<in># mset (map snd q)" by force
  then have "m \<in># queued ?p" using le [OF q(1)] unfolding queued_def by (rule mset_subset_eqD [rotated])
  moreover have eq: "total uncounted w + total counted w + queued ?p + mset (finished ?p) = mset [0..<length (posted ?p)]"
    using inv by (simp add: machine_inv_def)
  have "queued ?p + mset (finished ?p) \<subseteq># mset [0..<length (posted ?p)]"
    unfolding eq [symmetric] by (simp add: ac_simps)
  ultimately have "m \<notin># mset (finished ?p)" using mset_upt_disjoint by blast
  moreover have "shared_future_get c (states ?p) = None" if c: "c \<in># task_claims t" for c
  proof -
    have "c \<in># sum_list (map (task_claims \<circ> fst) q)"
      using le [OF q(2), of "task_claims \<circ> fst"] c by (auto dest: mset_subset_eqD)
    then have qc: "c \<in># queue_claims ?p"
      using le [OF q(1)] unfolding queue_claims_def by (rule mset_subset_eqD [rotated])
    have "total thread_claims w + (queue_claims ?p + state_claims (states ?p)) \<subseteq># mset [0..<length (states ?p)]"
      using inv by (simp only: machine_inv_def add.assoc)
    then have sub: "queue_claims ?p + state_claims (states ?p) \<subseteq># mset [0..<length (states ?p)]"
      by (rule subset_mset.order_trans [OF mset_subset_eq_add_right])
    with qc have cs: "c < length (states ?p)" "c \<notin># state_claims (states ?p)"
      using mset_upt_disjoint [OF sub] by (auto dest: mset_subset_eqD)
    then have "promise (states ?p ! c) = Unset" by (rule unclaimed_unset)
    then show ?thesis by (simp add: shared_future_get_def)
  qed
  ultimately show ?thesis by simp
qed


section \<open>Properties\<close>

text \<open>C37. A wake-up can be lost. Whenever the only worker of a pool has evaluated the predicate of its
  wait and has not yet blocked, and a thread of the application is about to post a task, that thread
  can post it and return from \<open>notify_one\<close> before the worker blocks, which no lock prevents. Then the
  worker sleeps although its queue holds the task; and until somebody notifies the workers again or
  the system wakes one for no reason, whatever the other threads do, the task stays in the queue, the
  worker does not run, and a thread in \<open>wait\<close> goes back to sleep. (For fewer than 2^64 posts.)\<close>

theorem wake_up_can_be_lost:
  assumes "machine_init 1 w0" and "machine_step\<^sup>*\<^sup>* w0 w" and "\<not> terminated (pool w)"
    and "fst (threads w ! 0) = Doze" and "k < length (threads w)" and "threads w ! k = (Choose t, K)"
  shows "\<exists>w1. machine_step\<^sup>*\<^sup>* w w1 \<and> threads w1 ! k = (Back, K) \<and> (\<forall>w2. unnotified\<^sup>*\<^sup>* w1 w2 \<longrightarrow>
    (t, length (posted (pool w))) \<in> set (queues (pool w2) ! 0) \<and>
    fst (threads w2 ! 0) = Asleep \<and> (\<forall>j. run_thread j 0 w2 = None) \<and>
    (\<forall>i K' j w3. length (posted (pool w2)) < 2 ^ 64 \<and> threads w2 ! i = (Await, K') \<and>
      run_thread j i w2 = Some w3 \<longrightarrow> threads w3 ! i = (Await_doze, K')))"
proof -
  let ?x = "(t, length (posted (pool w)))"
  from assms(1,2) have inv: "sleepers_ok 1 w" by (rule sleepers.inv_reachable)
  have "fault (pool w0) = None" using assms(1) by (auto simp: machine_init_def new_machine_def new_pool_def)
  then have "fault (pool w) = None" using no_fault_run [OF assms(2) machine_inv_init [OF assms(1)]] by simp
  from overtaken_post [OF inv assms(4-6,3) this] obtain w1 where
    w1: "machine_step\<^sup>*\<^sup>* w w1" "threads w1 ! k = (Back, K)" "fst (threads w1 ! 0) = Asleep"
      "0 \<in> set (th_waiters (pool w1))" "?x \<in> set (queues (pool w1) ! 0)"
    by (blast intro: run_schedule_reaches)
  have "machine_inv 1 w1" using reachable_inv [OF assms(1) rtranclp_trans [OF assms(2) w1(1)]] .
  with w1 have "lost ?x w1" by (simp add: lost_def)
  have "?x \<in> set (queues (pool w2) ! 0) \<and> fst (threads w2 ! 0) = Asleep \<and> (\<forall>j. run_thread j 0 w2 = None) \<and>
      (\<forall>i K' j w3. length (posted (pool w2)) < 2 ^ 64 \<and> threads w2 ! i = (Await, K') \<and>
        run_thread j i w2 = Some w3 \<longrightarrow> threads w3 ! i = (Await_doze, K'))" if "unnotified\<^sup>*\<^sup>* w1 w2" for w2
  proof -
    from that \<open>lost ?x w1\<close> have "lost ?x w2" by (rule lost_run)
    with lost_worker [OF this] lost_waits [OF this] show ?thesis unfolding lost_def by blast
  qed
  with w1(1,2) show ?thesis by blast
qed

text \<open>It happens to an application that detaches a task and waits: worker and application both sleep.\<close>

theorem wake_up_can_be_lost_witness:
  "\<exists>w w1. run_schedule (turns 4 0 @ turns 1 1) detach_and_wait = Some w \<and> machine_step\<^sup>*\<^sup>* w w1 \<and>
     fst (threads w1 ! 0) = Asleep \<and> queues (pool w1) ! 0 \<noteq> []"
proof -
  have "\<exists>w t K. run_schedule (turns 4 0 @ turns 1 1) detach_and_wait = Some w \<and> \<not> terminated (pool w) \<and>
      fst (threads w ! 0) = Doze \<and> 1 < length (threads w) \<and> threads w ! 1 = (Choose t, K)"
    by (simp add: runs_defs)
  then obtain w t K where w: "run_schedule (turns 4 0 @ turns 1 1) detach_and_wait = Some w"
    "\<not> terminated (pool w)" "fst (threads w ! 0) = Doze" "1 < length (threads w)" "threads w ! 1 = (Choose t, K)"
    by blast
  have "machine_init 1 detach_and_wait" by (simp add: detach_and_wait_def)
  from wake_up_can_be_lost [OF this run_schedule_reaches [OF w(1)] w(2-5)] obtain w1 where
    "machine_step\<^sup>*\<^sup>* w w1" "fst (threads w1 ! 0) = Asleep" "queues (pool w1) ! 0 \<noteq> []"
    by (metis empty_iff list.set(1) rtranclp.rtrancl_refl)
  with w(1) show ?thesis by blast
qed

text \<open>Then nothing runs any more, unless the system wakes a thread without a notification.\<close>

lemma detach_and_wait_hangs:
  "\<exists>w. machine_step\<^sup>*\<^sup>* detach_and_wait w \<and> stuck w \<and> queued (pool w) = {#0#} \<and>
     fst (threads w ! 0) = Asleep \<and> fst (threads w ! 1) = Await_asleep \<and> \<not> shutdown (pool w)"
proof -
  have "\<exists>w. run_schedule (turns 4 0 @ turns 9 1 @ turns 1 0) detach_and_wait = Some w \<and>
      (length (threads w) = 2 \<and> (\<forall>j. run_thread j 0 w = None) \<and> (\<forall>j. run_thread j 1 w = None)) \<and>
      queued (pool w) = {#0#} \<and> fst (threads w ! 0) = Asleep \<and> fst (threads w ! 1) = Await_asleep \<and>
      \<not> shutdown (pool w)"
    by (simp add: runs_defs queued_def)
  then show ?thesis by (blast intro: run_schedule_reaches stuckI)
qed

text \<open>A task must not wait for a task of its own pool: with one worker, a task that posts another one
  and calls \<open>get\<close> on its future blocks the worker for good, the inner task stays in the queue, and no
  wake-up helps.\<close>

lemma get_in_worker_deadlocks:
  "\<exists>w. machine_step\<^sup>*\<^sup>* nested_get w \<and> queued (pool w) = {#1#} \<and>
     Collect (machine_step\<^sup>*\<^sup>* w) = {w} \<and>
     promise (states (pool w) ! 0) = Unset \<and> promise (states (pool w) ! 1) = Unset"
proof -
  have "\<exists>w. run_schedule (turns 6 1 @ turns 10 0 @ turns 1 1) nested_get = Some w \<and>
      (length (threads w) = 2 \<and> (\<forall>j. run_thread j 0 w = None) \<and> (\<forall>j. run_thread j 1 w = None)) \<and>
      queued (pool w) = {#1#} \<and> th_waiters (pool w) = [] \<and> wait_waiters (pool w) = [] \<and>
      promise (states (pool w) ! 0) = Unset \<and> promise (states (pool w) ! 1) = Unset"
    by (simp add: runs_defs queued_def)
  then show ?thesis by (meson run_schedule_reaches stuckI stuck_reaches)
qed

text \<open>C38. \<open>shutdown\<close> drops what is still queued. Once the pool is shut down, at most those workers that
  are just looking for a task take one more, each at most one, whatever the threads do: all other
  tasks that are queued then are queued for ever, because the workers leave their loop without
  looking at their queues. A queued task is not finished, and the state it was to complete is not
  completed, so \<open>get\<close> on its future blocks.\<close>

theorem shutdown_drops_tasks:
  assumes "machine_init n w0" and "machine_step\<^sup>*\<^sup>* w0 w" and "shutdown (pool w)"
    and "machine_step\<^sup>*\<^sup>* w w'"
  shows "size (queued (pool w) - queued (pool w')) \<le> card {i. i < n \<and> looking (fst (threads w ! i))} \<and>
    (\<forall>q\<in>set (queues (pool w')). \<forall>(t, m)\<in>set q. m \<notin> set (finished (pool w')) \<and>
      (\<forall>c. c \<in># task_claims t \<longrightarrow> shared_future_get c (states (pool w')) = None))"
proof -
  have inv: "machine_inv n w" "machine_inv n w'" using assms reachable_inv by (blast intro: rtranclp_trans)+
  show ?thesis
    using taken_run [OF assms(4) inv(1) assms(3)] queued_open [OF inv(2)] by (fastforce simp: lookers_def)
qed

theorem shutdown_drops_tasks_witness:
  "\<exists>w. run_schedule (turns 8 1) post_and_shutdown = Some w \<and>
     (\<forall>w'. machine_step\<^sup>*\<^sup>* w w' \<longrightarrow> 0 \<in># queued (pool w'))"
proof -
  have "\<exists>w. run_schedule (turns 8 1) post_and_shutdown = Some w \<and> shutdown (pool w) \<and>
      queued (pool w) = {#0#} \<and> fst (threads w ! 0) = Loop"
    by (simp add: runs_defs queued_def)
  then obtain w where w: "run_schedule (turns 8 1) post_and_shutdown = Some w" "shutdown (pool w)"
    "queued (pool w) = {#0#}" "fst (threads w ! 0) = Loop" by blast
  have "machine_init 1 post_and_shutdown" by (simp add: post_and_shutdown_def)
  note drops = shutdown_drops_tasks [OF this run_schedule_reaches [OF w(1)] w(2)]
  have "0 \<in># queued (pool w')" if "machine_step\<^sup>*\<^sup>* w w'" for w'
  proof (rule ccontr)
    assume "0 \<notin># queued (pool w')"
    then have "queued (pool w) - queued (pool w') = {#0#}" by (intro multiset_eqI) (auto simp: w(3) not_in_iff)
    moreover have none: "{i. i < 1 \<and> looking (fst (threads w ! i))} = {}" using w(4) by auto
    ultimately show False using drops [OF that] unfolding none by simp
  qed
  with w(1) show ?thesis by blast
qed

text \<open>An application that shuts the pool down and then calls \<open>get\<close> may block for good.\<close>

lemma get_after_shutdown_blocks:
  "\<exists>w. machine_step\<^sup>*\<^sup>* post_and_shutdown w \<and> queued (pool w) = {#0#} \<and>
     threads w ! 0 = (Exited, []) \<and> Collect (machine_step\<^sup>*\<^sup>* w) = {w} \<and>
     promise (states (pool w) ! 0) = Unset"
proof -
  have "\<exists>w. run_schedule (turns 8 1 @ turns 1 0 @ turns 5 1) post_and_shutdown = Some w \<and>
      (length (threads w) = 2 \<and> (\<forall>j. run_thread j 0 w = None) \<and> (\<forall>j. run_thread j 1 w = None)) \<and>
      queued (pool w) = {#0#} \<and> th_waiters (pool w) = [] \<and> wait_waiters (pool w) = [] \<and>
      threads w ! 0 = (Exited, []) \<and> promise (states (pool w) ! 0) = Unset"
    by (simp add: runs_defs queued_def)
  then show ?thesis by (meson run_schedule_reaches stuckI stuck_reaches)
qed

end
