(* ===== verification/Demo.thy ===== *)
theory Demo
  imports Prelude
begin

text \<open>
  The echo server of \<open>Demo/Demo.cpp\<close>: the state machine of \<open>Session\<close> (control, receive, write, control)
  with its partial writes, and \<open>SingleServer\<close>. A step is a completion the system reports: the handlers
  ignore its error code, as the source does. What is received, sent and released without being deleted
  is history.
\<close>

section \<open>Session\<close>

datatype State = Demo_echo | Demo_stop

datatype demo_op = No_op | Receiving bytes | Writing_some bytes

record demo_session =
  now :: State
  sock_open :: bool
  op_pending :: demo_op
  received :: "bytes list"     \<comment> \<open>the data of each completed receive\<close>
  sent :: bytes
  leaked :: "bytes list"       \<comment> \<open>buffers given up by \<open>hp.release()\<close>\<close>

definition new_demo_session :: demo_session where
  "new_demo_session = \<lparr>now = Demo_echo, sock_open = True, op_pending = No_op, received = [],
     sent = [], leaked = []\<rparr>"

definition exit_text :: bytes where
  "exit_text = [0x65, 0x78, 0x69, 0x74]"

definition end_text :: bytes where
  "end_text = [0x45, 0x6E, 0x64, 0x2E]"

definition fresh_buffer :: bytes where
  "fresh_buffer = replicate 1024 0"

definition do_write_some :: "bytes \<Rightarrow> demo_session \<Rightarrow> demo_session" where
  "do_write_some buff s = s\<lparr>op_pending := Writing_some buff\<rparr>"

definition demo_control :: "demo_session \<Rightarrow> demo_session" where
  "demo_control s = (if now s = Demo_stop then s\<lparr>sock_open := False, op_pending := No_op\<rparr>
     else s\<lparr>op_pending := Receiving fresh_buffer\<rparr>)"

definition demo_start :: "demo_session \<Rightarrow> demo_session" where
  "demo_start s = demo_control s"

text \<open>The completion of \<open>async_receive\<close>: \<open>data\<close> was put at the front of the buffer.\<close>

definition receive_handler :: "bool \<Rightarrow> bytes \<Rightarrow> bytes \<Rightarrow> demo_session \<Rightarrow> demo_session" where
  "receive_handler ec data buff s =
     (let shd_buff = data @ drop (length data) buff; s = s\<lparr>received := received s @ [data]\<rparr>
      in if take 4 shd_buff = exit_text then do_write_some end_text (s\<lparr>now := Demo_stop\<rparr>)
         else do_write_some shd_buff s)"

text \<open>The completion of \<open>async_write_some\<close>: \<open>write_len\<close> bytes were taken.\<close>

definition write_some_handler :: "bool \<Rightarrow> nat \<Rightarrow> bytes \<Rightarrow> demo_session \<Rightarrow> demo_session" where
  "write_some_handler ec write_len hp s =
     (let s = s\<lparr>sent := sent s @ take write_len hp\<rparr>;
          s = (if length hp \<noteq> write_len then do_write_some (drop write_len hp) s else demo_control s)
      in s\<lparr>leaked := hp # leaked s\<rparr>)"

text \<open>An operation that fails transfers nothing.\<close>

inductive demo_step :: "demo_session \<Rightarrow> demo_session \<Rightarrow> bool" where
  receives: "op_pending s = Receiving buff \<Longrightarrow> data \<noteq> [] \<Longrightarrow> length data \<le> length buff \<Longrightarrow>
    demo_step s (receive_handler False data buff s)"
| receive_fails: "op_pending s = Receiving buff \<Longrightarrow> demo_step s (receive_handler True [] buff s)"
| writes: "op_pending s = Writing_some hp \<Longrightarrow> 0 < k \<Longrightarrow> k \<le> length hp \<Longrightarrow>
    demo_step s (write_some_handler False k hp s)"
| write_fails: "op_pending s = Writing_some hp \<Longrightarrow> demo_step s (write_some_handler True 0 hp s)"

definition demo_init :: "demo_session \<Rightarrow> bool" where
  "demo_init s \<longleftrightarrow> s = demo_start new_demo_session"


section \<open>SingleServer\<close>

text \<open>\<open>idx_\<close> is an \<open>int\<close>; the sessions are never erased.\<close>

record single_server =
  idx :: i32
  session_pool :: "int \<Rightarrow> demo_session option"
  demo_accepting :: bool

definition new_single_server :: single_server where
  "new_single_server = \<lparr>idx = 0, session_pool = (\<lambda>k. None), demo_accepting = False\<rparr>"

definition demo_accept :: "single_server \<Rightarrow> single_server" where
  "demo_accept v = v\<lparr>demo_accepting := True\<rparr>"

definition demo_accept_handler :: "bool \<Rightarrow> single_server \<Rightarrow> single_server outcome" where
  "demo_accept_handler ec v =
     obind (if \<not> ec
       then if in_int (sint (idx v) + 1)
         then Ret (v\<lparr>idx := to_i32 (sint (idx v) + 1),
           session_pool := (session_pool v)(sint (idx v) \<mapsto> demo_start new_demo_session)\<rparr>)
         else UB Signed_overflow
       else Ret v) (\<lambda>v. Ret (demo_accept v))"

text \<open>\<open>main\<close>: \<open>run_io\<close> is how the set-up of the acceptor and \<open>io_context.run\<close> end for the server that
  accepts. Only a \<open>std::exception\<close> is caught.\<close>

definition demo_main :: "(single_server \<Rightarrow> unit outcome) \<Rightarrow> (console list \<times> int) outcome" where
  "demo_main run_io = (case run_io (demo_accept new_single_server) of
       Ret u \<Rightarrow> Ret ([Out ''Hello CMake.''], 0)
     | Throw (Std_exception what) \<Rightarrow> Ret ([Out ''Hello CMake.'', Err (''Error: '' @ what)], 1)
     | Throw e \<Rightarrow> Throw e
     | UB u \<Rightarrow> UB u)"

lemma demo_main_code:
  "demo_main run_io = Ret (out, code) \<Longrightarrow> hd out = Out ''Hello CMake.'' \<and>
     (code = 0 \<and> (\<exists>u. run_io (demo_accept new_single_server) = Ret u) \<or>
      code = 1 \<and> (\<exists>what. run_io (demo_accept new_single_server) = Throw (Std_exception what)))"
  by (auto simp: demo_main_def split: outcome.splits exn.splits)

text \<open>Every accepted connection gets a slot of its own and keeps it.\<close>

lemma demo_accept_keeps:
  assumes "demo_accept_handler ec v = Ret v'"
    and "\<And>k. session_pool v k \<noteq> None \<Longrightarrow> 0 \<le> k \<and> k < sint (idx v)"
  shows "(\<forall>k. session_pool v k \<noteq> None \<longrightarrow> session_pool v' k = session_pool v k) \<and>
    (\<forall>k. session_pool v' k \<noteq> None \<longrightarrow> k < sint (idx v') )"
  using assms by (fastforce simp: demo_accept_handler_def demo_accept_def split: if_splits)


section \<open>The reply to a receive\<close>

definition padded :: "bytes \<Rightarrow> bytes" where
  "padded data = data @ drop (length data) fresh_buffer"

definition is_exit :: "bytes \<Rightarrow> bool" where
  "is_exit data \<longleftrightarrow> take 4 (padded data) = exit_text"

definition demo_reply :: "bytes \<Rightarrow> bytes" where
  "demo_reply data = (if is_exit data then end_text else padded data)"

fun unsent :: "demo_op \<Rightarrow> bytes" where
  "unsent (Writing_some buff) = buff"
| "unsent _ = []"

definition demo_inv :: "demo_session \<Rightarrow> bool" where
  "demo_inv s \<longleftrightarrow> sent s @ unsent (op_pending s) = concat (map demo_reply (received s)) \<and>
     (\<forall>buff. op_pending s = Receiving buff \<longrightarrow> buff = fresh_buffer \<and> now s = Demo_echo) \<and>
     (\<forall>buff. op_pending s = Writing_some buff \<longrightarrow> buff \<noteq> []) \<and>
     (now s = Demo_stop \<longleftrightarrow> (\<exists>data\<in>set (received s). is_exit data)) \<and>
     (\<forall>data\<in>set (butlast (received s)). \<not> is_exit data) \<and>
     (sock_open s \<longleftrightarrow> op_pending s \<noteq> No_op) \<and> (\<not> sock_open s \<longrightarrow> now s = Demo_stop)"

lemmas demo_defs = demo_inv_def receive_handler_def write_some_handler_def do_write_some_def
  demo_control_def

lemma length_padded: "length data \<le> 1024 \<Longrightarrow> length (padded data) = 1024"
  by (simp add: padded_def fresh_buffer_def)

lemma reply_nonempty: "length data \<le> length fresh_buffer \<Longrightarrow> padded data \<noteq> []" "end_text \<noteq> []"
  using length_padded [of data] by (auto simp: fresh_buffer_def end_text_def)

lemma receive_handler_reply:
  "receive_handler ec data fresh_buffer s = s\<lparr>received := received s @ [data],
     now := (if is_exit data then Demo_stop else now s), op_pending := Writing_some (demo_reply data)\<rparr>"
  by (simp add: receive_handler_def do_write_some_def Let_def is_exit_def demo_reply_def
      flip: padded_def)

lemma demo_inv_receive:
  assumes "demo_inv s" "op_pending s = Receiving buff" "length data \<le> length buff"
  shows "demo_inv (receive_handler ec data buff s)"
proof -
  have b: "buff = fresh_buffer" "now s = Demo_echo" using assms by (auto simp: demo_inv_def)
  then have "\<forall>d\<in>set (received s). \<not> is_exit d" using assms(1) by (auto simp: demo_inv_def)
  moreover have "demo_reply data \<noteq> []" using assms(3) b(1) by (simp add: demo_reply_def reply_nonempty)
  ultimately show ?thesis
    using assms b unfolding b(1) receive_handler_reply by (auto simp: demo_inv_def)
qed

lemma demo_inv_write:
  assumes "demo_inv s" "op_pending s = Writing_some hp" "k \<le> length hp"
  shows "demo_inv (write_some_handler ec k hp s)"
proof (cases "k = length hp")
  case True
  with assms show ?thesis by (cases "now s") (auto simp: demo_defs Let_def)
next
  case False
  with assms show ?thesis
    by (auto simp: demo_defs Let_def)
qed

interpretation demo: invariant_system demo_init demo_step demo_inv
proof
  show "demo_init s \<Longrightarrow> demo_inv s" for s
    by (simp add: demo_init_def demo_start_def new_demo_session_def demo_defs)
  show "demo_inv t" if "demo_inv s" "demo_step s t" for s t
    using that(2,1) by cases (auto intro: demo_inv_receive demo_inv_write)
qed


section \<open>Properties\<close>

text \<open>C39. The demo server answers every receive with the whole 1024-byte buffer: what it has sent, with
  what it is about to send, is the concatenation of its replies, however the writes are split: the
  data padded with zeros, or \<open>End.\<close> for data that starts with \<open>exit\<close>, after which it receives no more
  and closes once \<open>End.\<close> is out.\<close>

theorem demo_echoes_padded:
  assumes "demo_init s" and "demo_step\<^sup>*\<^sup>* s t"
  shows "sent t @ unsent (op_pending t) = concat (map demo_reply (received t)) \<and>
    (\<forall>data\<in>set (butlast (received t)). \<not> is_exit data) \<and>
    (\<not> sock_open t \<longrightarrow> sent t = concat (map demo_reply (received t)) \<and> is_exit (last (received t)))"
proof -
  have inv: "demo_inv t" using assms by (rule demo.inv_reachable)
  have "is_exit (last (received t))" if "now t = Demo_stop"
  proof -
    from inv that obtain data where d: "data \<in> set (received t)" "is_exit data"
      by (auto simp: demo_inv_def)
    then have "received t = butlast (received t) @ [last (received t)]" by (cases "received t") auto
    with d(1) have "data \<in> set (butlast (received t)) \<or> data = last (received t)"
      by (metis Un_iff empty_iff insert_iff list.set(1,2) set_append)
    with inv d(2) show ?thesis by (auto simp: demo_inv_def)
  qed
  with inv show ?thesis by (auto simp: demo_inv_def)
qed

theorem demo_echoes_padded_witness:
  "\<exists>t. demo_step\<^sup>*\<^sup>* (demo_start new_demo_session) t \<and> length (sent t) = 1000 \<and>
     sent t @ unsent (op_pending t) = padded [1, 2]"
proof -
  let ?d = "[1, 2] :: bytes" and ?s = "demo_start new_demo_session"
  let ?r = "receive_handler False ?d fresh_buffer ?s"
  let ?t = "write_some_handler False 1000 (padded ?d) ?r"
  have len: "length ?d \<le> length fresh_buffer" "1000 \<le> length (padded ?d)"
    by (simp_all add: length_padded fresh_buffer_def)
  have ne: "\<not> is_exit ?d" by (simp add: is_exit_def padded_def exit_text_def)
  have "op_pending ?s = Receiving fresh_buffer"
    by (simp add: demo_start_def demo_control_def new_demo_session_def)
  then have "demo_step ?s ?r" using len by (intro receives) auto
  moreover have "op_pending ?r = Writing_some (padded ?d)"
    using ne by (simp add: receive_handler_reply demo_reply_def)
  then have "demo_step ?r ?t" using len by (intro writes) auto
  ultimately have run: "demo_step\<^sup>*\<^sup>* ?s ?t"
    by (blast intro: converse_rtranclp_into_rtranclp)
  have r: "received ?r = [?d]" "sent ?r = []"
    by (simp_all add: receive_handler_reply demo_start_def demo_control_def new_demo_session_def)
  then have "received ?t = [?d]" "length (sent ?t) = 1000"
    using len(2) unfolding write_some_handler_def Let_def by (auto simp: do_write_some_def demo_control_def)
  moreover have "sent ?t @ unsent (op_pending ?t) = concat (map demo_reply (received ?t))"
    using demo_echoes_padded [OF _ run] by (simp add: demo_init_def)
  ultimately show ?thesis using ne run by (intro exI [of _ ?t]) (simp add: demo_reply_def)
qed

text \<open>The demo server never notices that a connection is gone: when the peer has closed, every write
  fails, and its handler starts the same write again without end, leaking one buffer each time, and
  never closes the socket.\<close>

lemma demo_write_error_repeats:
  assumes "op_pending s = Writing_some hp" and "hp \<noteq> []"
  shows "(write_some_handler True 0 hp ^^ n) s = s\<lparr>leaked := replicate n hp @ leaked s\<rparr>"
proof (induction n)
  case 0
  show ?case by simp
next
  case (Suc n)
  then show ?case using assms
    by (simp add: write_some_handler_def do_write_some_def)
qed

end
