(* ===== verification/Spec2Isabelle.thy ===== *)
theory Spec2Isabelle
  imports Programs PoolLive PoolSpec PoolRuns Demo
begin

text \<open>
  RpcDemo: a verification development.

  \<^bold>\<open>The program.\<close> RpcDemo is a small RPC system in C++. A \<open>client_stub\<close> packs a typed call (\<open>add\<close>, \<open>div\<close>,
  \<open>calc_matrix\<close>) into a protobuf \<open>Request\<close>; a \<open>tcp_client\<close> sends the bytes through a \<open>session\<close> and
  blocks until a message arrives or the time is up; a \<open>tcp_server\<close> hands every message of every
  connection to the \<open>server_stub\<close>, which parses it, runs the registered business function and replies
  through the \<open>connection_handle\<close> of that connection. Beside it stands a thread pool with futures
  (\<open>rpc/threadpool\<close>), on a type-erased callable wrapper with a small buffer (\<open>packagev3.hpp\<close>), and a
  separate echo server (\<open>Demo\<close>).

  \<^bold>\<open>How the code is modelled.\<close> A C++ function is a function on the state it changes; it returns an
  \<open>outcome\<close>: a value, an exception, or undefined behaviour, which no \<open>catch\<close> sees (\<open>Prelude\<close>). Machine
  integers are words. Asynchronous code is a step relation: the source's handlers are the steps, the
  environment (the socket, the scheduler, the peer) chooses between them and decides how many bytes a
  transfer moves and when it fails. Fields marked as history record what happened and decide nothing.

  \<^bold>\<open>The theories,\<close> each with the files under \<open>src/\<close> it models:
  \<^item> \<open>Prelude\<close>: outcomes, counted loops, vectors, the interface \<open>invariant_system\<close> of a step relation
    with an inductive invariant, which every state machine below interprets, and its extension
    \<open>refinement\<close> by an abstract system. \<open>Fairness\<close>: weakly fair runs and the interface \<open>helpful\<close> of
    a label whose step is always enabled and always lowers a rank.
  \<^item> \<open>Matrix\<close> (\<open>rpc/method/operation.cpp\<close>, the functions of \<open>impl\<close>): 32-bit arithmetic with overflow,
    division and indexing as faults; \<open>multiply\<close> and \<open>calc_matrix\<close> against the integer matrices.
  \<^item> \<open>Messages\<close>, \<open>Operation\<close> (\<open>rpc/proto\<close>, \<open>rpc/method/operation.hpp\<close>, \<open>operation.cpp\<close>): the messages as
    records and the three method traits. Protobuf is a parameter (\<open>codec\<close>) with round-trip laws;
    \<open>SampleCodec\<close> instantiates it with a concrete encoding that satisfies them.
  \<^item> \<open>Framing\<close>, \<open>Session\<close> (\<open>rpc/src/session.cpp\<close>, \<open>rpc/detail/session.hpp\<close>): the length prefix and its
    check, and every member function and handler of \<open>session\<close> with its strand.
  \<^item> \<open>Link\<close>: two sessions at the ends of one connection.
  \<^item> \<open>ServerStub\<close>, \<open>ClientStub\<close> (\<open>rpc/detail/server_stub.hpp\<close>, \<open>client_stub.hpp\<close>): dispatching, replies and
    the checks of a response; \<open>call\<close> is cut at the blocking wait.
  \<^item> \<open>TcpServer\<close>, \<open>TcpClient\<close> (\<open>rpc/src/network.cpp\<close>, \<open>rpc/detail/network.hpp\<close>): the session list,
    the handle the callback of each session captures and the calls a request handler makes on this or
    another handle; \<open>send_and_wait\<close>, connecting again.
  \<^item> \<open>System\<close>, \<open>Calls\<close>: a client and a server process on one connection, with the user's calls.
  \<^item> \<open>Answers\<close>: a connection whose one end only answers and the order of its answers, and the
    answers of a server with any number of connections.
  \<^item> \<open>Programs\<close> (\<open>rpc/rpc_client.cpp\<close>, \<open>rpc/rpc_server.cpp\<close>, \<open>rpc/server.hpp\<close>, \<open>test/echo\<close>,
    \<open>Demo/client.cpp\<close>): the programs on top of the library, as functions of what their environment did.
  \<^item> \<open>MFunction\<close>, \<open>Package\<close> (\<open>rpc/threadpool/packagev3.hpp\<close>): the callable wrapper over an explicit heap
    with aligned and plain blocks, and the tasks made from it. The callables (their size, alignment,
    constructors and effects) are parameters (\<open>abi\<close>, \<open>ops\<close>).
  \<^item> \<open>SharedState\<close>, \<open>Future\<close> (\<open>shared_state.hpp\<close>, \<open>futurev5.hpp\<close>, \<open>then_impl\<close> of \<open>thpoolv5.hpp\<close> and
    its unused copy in \<open>futurev5_impl.hpp\<close>): the interface \<open>one_shot\<close> of an event that is resolved
    once, the shared state as an instance of it, and the futures over a store of shared states. User
    code is a program over the calls of the pool.
  \<^item> \<open>Pool\<close> (\<open>thpoolv5.hpp\<close>): the pool as a machine of threads with a step for each atomic operation,
    locked section and blocking call; \<open>PoolShape\<close> and \<open>PoolTasks\<close> hold its invariant.
  \<^item> \<open>PoolContract\<close>, \<open>PoolChain\<close>, \<open>PoolDone\<close>: what the pool promises, the values of its futures, and that
    a finished post has completed its own; \<open>PoolProgress\<close>: what a thread that cannot run waits for;
    \<open>PoolDrain\<close>: a worker empties its queue; \<open>PoolLive\<close>: under every fair schedule the workers together
    empty all queues, by \<open>helpful\<close>; \<open>PoolSpec\<close>: the pool as a bag of tasks, refined by the
    machine; \<open>PoolRuns\<close>: lost wake-ups, tasks that a shutdown drops, and
    runs in which the machine gets stuck.
  \<^item> \<open>Demo\<close> (\<open>Demo/Demo.cpp\<close>): the echo server's state machine.

  \<^bold>\<open>What the groups of lemmas show.\<close> The business functions compute what they should whenever they have
  defined behaviour, and when that is. The network layer delivers, in order and without mixing, what
  was accepted for writing, under every interleaving, partial transfer and failure. The stubs are
  inverse to each other on well-formed calls and turn every error into a reply or an exception. A
  remote call returns only the answer to itself or throws one of three exceptions, can always complete
  on an idle connection, and equals the local call; what \<open>send_and_wait\<close> returns was delivered after it
  was called. A closed connection stays closed. The wrapper refines a map from names to callables, without leaks and
  without undefined behaviour. The pool executes every post at most once and keeps it in exactly one
  place, as a bag of tasks would; \<open>wait\<close> returns only when the counted work is done; a finished post
  has completed its future with the result of its function, and exceptions stay in the futures; a
  thread is stuck only where it waits, never on a mutex, and a worker left alone empties its queue. As long as one
  worker is awake, the workers together finish every post under every weakly fair schedule: stealing
  reaches the queues of those that sleep.
  The answers of a connection come back in the order of its requests, a server gives every connection
  the answers to its own requests only, and \<open>rpc_client\<close> prints the sum
  it asked for. Other properties show defects: a lost
  connection that can never be used again, an answer that comes late and breaks the next call, a
  remote division by zero, a wake-up that is lost, a second \<open>then\<close> that is dropped, tasks dropped by
  \<open>shutdown\<close>, an echo that returns the whole buffer.

  \<^bold>\<open>Bounds.\<close> Message bodies are limited to 10 MB by the reader, lengths are below 2^32, request numbers
  are 64-bit and distinct for fewer than 2^64 calls, and \<open>unfinished_\<close> counts modulo 2^64, so that
  \<open>wait_returns_when_done\<close> needs fewer than 2^64 posts. No model uses fuel: the loops that the
  environment drives are step relations, the others terminate by structure or by a measure. The
  steps a worker needs to empty its queue are bounded by the measure \<open>cost\<close>; \<open>workers_finish_everything\<close>
  is about callables that only compute, since user code may block or post without end, and needs that
  the posts made and the work left stay below 2^64. \<open>wake_up_can_be_lost\<close> is about a pool with one
  worker (another one could steal the task), until the next notification or spurious wake-up.

  \<^bold>\<open>Not modelled.\<close> The protobuf runtime, the generated code and Boost.Asio are not in the repository
  (the first is a parameter, the last is the step relations). Name resolution and what
  the library itself logs are outcomes and effects without a state. The macros of \<open>register.h\<close> and
  \<open>predef.h\<close> are unused or open namespaces; \<open>rpc/client.hpp\<close> is an empty subclass; headers otherwise
  declare what the \<open>.cpp\<close> files define. Weak memory is not modelled: the atomics are sequentially consistent,
  and the workers that the pool's constructor starts before \<open>workers_\<close> is complete (a data race) start
  when it is. Memory never runs out: \<open>operator new\<close> in \<open>_Alloca_Heap\<close> and the containers of \<open>multiply\<close>
  and of the sessions do not throw \<open>std::bad_alloc\<close> (in \<open>multiply\<close> the server would answer it with
  \<open>STATUS_INVOKE_ERROR\<close>). The destruction of the members after the bodies of the destructors is not
  modelled either, such as that of a pool whose threads are still joinable. A request whose business
  function has undefined behaviour has no reply in \<open>stub_handler\<close>, and the theorems about replies
  exclude it by \<open>served\<close>. The pool of the model takes callables whose copies and moves do not throw; what happens
  when they do is in \<open>MFunction\<close> and \<open>Package\<close>.
\<close>

end
